(* ===== verification/Bounce_Prelude.thy ===== *)
theory Bounce_Prelude
  imports Main "HOL-Library.Word" "HOL-Library.Signed_Division"
begin

text \<open>
  Shared vocabulary of the development: machine sizes and bytes, the ways a C++ operation can fail,
  the pieces of the standard library that the sources call (\<^verbatim>\<open>std::copy\<close>,
  \<^verbatim>\<open>std::vector::resize\<close>), the memory layout of integers, and a small theory of
  transition systems. The lemmas are generic; every component theory imports this one.
\<close>

section \<open>Collections of facts\<close>

named_theorems size_simps \<open>arithmetic of 64-bit sizes\<close>
named_theorems res_simps \<open>rules for results that may be errors\<close>

section \<open>Types of the model\<close>

type_synonym byte = "8 word"
type_synonym fd = int
type_synonym errno = int
type_synonym time = int

text \<open>
  The failures of the modelled code. \<open>Length_error\<close> is the exception
  \<^verbatim>\<open>std::length_error\<close>, \<open>Bad_function_call\<close> the exception of an empty
  \<^verbatim>\<open>std::function\<close>, \<open>Process_exit\<close> a call of \<^verbatim>\<open>exit\<close>.
  \<open>Out_of_bounds\<close> and \<open>Null_deref\<close> stand for undefined behaviour: an access outside a vector
  and a dereference of a null, dangling or end pointer. \<open>Diverges\<close> is a call that does not return.
  \<open>Format_error\<close> and \<open>Spdlog_ex\<close> are the exceptions of the vendored libraries with their messages,
  \<open>Assert_failed\<close> a failed assertion, \<open>Bad_any_cast\<close> the exception of a failed cast of an any.
\<close>

datatype cpp_error =
    Length_error
  | Bad_function_call
  | Out_of_bounds
  | Null_deref
  | Process_exit int
  | Diverges
  | Format_error string
  | Spdlog_ex string
  | Assert_failed
  | Bad_any_cast

type_synonym 'a res = "cpp_error + 'a"

definition res_bind :: "'a res \<Rightarrow> ('a \<Rightarrow> 'b res) \<Rightarrow> 'b res" where
  "res_bind m f = (case m of Inl e \<Rightarrow> Inl e | Inr x \<Rightarrow> f x)"

definition of_partial :: "'a res option \<Rightarrow> 'a res" where
  "of_partial r = (case r of None \<Rightarrow> Inl Diverges | Some x \<Rightarrow> x)"

text \<open>Run a list of fallible state transformers in order, stopping at the first failure.\<close>

fun res_fold :: "('a \<Rightarrow> 's \<Rightarrow> 's res) \<Rightarrow> 'a list \<Rightarrow> 's \<Rightarrow> 's res" where
  "res_fold f [] s = Inr s"
| "res_fold f (x # xs) s = res_bind (f x s) (res_fold f xs)"

section \<open>Sizes\<close>

text \<open>
  \<^verbatim>\<open>size_t\<close> is 64 bits wide. Sizes are natural numbers below \<open>2 ^ 64\<close>; sums and
  differences wrap around, as the unsigned arithmetic of the sources does.
  \<^verbatim>\<open>PTRDIFF_MAX\<close> bounds the size of a \<^verbatim>\<open>std::vector<char>\<close>.
\<close>

definition sz_add :: "nat \<Rightarrow> nat \<Rightarrow> nat" where
  "sz_add a b = (a + b) mod 2 ^ 64"

definition sz_sub :: "nat \<Rightarrow> nat \<Rightarrow> nat" where
  "sz_sub a b = (a + (2 ^ 64 - b)) mod 2 ^ 64"

definition to_size :: "int \<Rightarrow> nat" where
  "to_size i = nat (i mod 2 ^ 64)"

definition max_size :: nat where
  "max_size = 2 ^ 63 - 1"

section \<open>Standard library\<close>

text \<open>
  \<open>copy_within\<close> is \<^verbatim>\<open>std::copy(&v[i], &v[j], &v[d])\<close> on one vector, element
  by element from the left; \<open>copy_into\<close> is \<^verbatim>\<open>std::copy\<close> from other memory.
\<close>

function copy_within :: "'a list \<Rightarrow> nat \<Rightarrow> nat \<Rightarrow> nat \<Rightarrow> 'a list" where
  "copy_within xs i j d =
     (if i < j then copy_within (xs[d := xs ! i]) (Suc i) j (Suc d) else xs)"
  by pat_completeness auto
termination
  by (relation "measure (\<lambda>(xs, i, j, d). j - i)") auto

declare copy_within.simps [simp del]

fun copy_into :: "'a list \<Rightarrow> nat \<Rightarrow> 'a list \<Rightarrow> 'a list" where
  "copy_into xs pos [] = xs"
| "copy_into xs pos (y # ys) = copy_into (xs[pos := y]) (Suc pos) ys"

definition vec_resize :: "nat \<Rightarrow> byte list \<Rightarrow> byte list res" where
  "vec_resize n xs =
     (if n > max_size then Inl Length_error
      else Inr (take n xs @ replicate (n - length xs) 0))"

section \<open>Memory layout of integers\<close>

datatype endian = Little | Big

fun nat_bytes :: "nat \<Rightarrow> nat \<Rightarrow> byte list" where
  "nat_bytes 0 x = []"
| "nat_bytes (Suc n) x = of_nat x # nat_bytes n (x div 256)"

fun bytes_nat :: "byte list \<Rightarrow> nat" where
  "bytes_nat [] = 0"
| "bytes_nat (b # bs) = unat b + 256 * bytes_nat bs"

definition mem_bytes :: "endian \<Rightarrow> nat \<Rightarrow> nat \<Rightarrow> byte list" where
  "mem_bytes e n x = (case e of Little \<Rightarrow> nat_bytes n x | Big \<Rightarrow> rev (nat_bytes n x))"

definition mem_nat :: "endian \<Rightarrow> byte list \<Rightarrow> nat" where
  "mem_nat e bs = (case e of Little \<Rightarrow> bytes_nat bs | Big \<Rightarrow> bytes_nat (rev bs))"

section \<open>Transition systems\<close>

inductive reachable :: "('s \<Rightarrow> bool) \<Rightarrow> ('s \<Rightarrow> 's \<Rightarrow> bool) \<Rightarrow> 's \<Rightarrow> bool"
  for init :: "'s \<Rightarrow> bool" and step :: "'s \<Rightarrow> 's \<Rightarrow> bool" where
  reachable_init: "init s \<Longrightarrow> reachable init step s"
| reachable_step: "reachable init step s \<Longrightarrow> step s t \<Longrightarrow> reachable init step t"

locale invariant_system =
  fixes init :: "'s \<Rightarrow> bool"
    and step :: "'s \<Rightarrow> 's \<Rightarrow> bool"
    and inv :: "'s \<Rightarrow> bool"
  assumes inv_init: "init s \<Longrightarrow> inv s"
    and inv_step: "inv s \<Longrightarrow> step s t \<Longrightarrow> inv t"
begin

lemma reachable_inv: "reachable init step s \<Longrightarrow> inv s"
  by (induction rule: reachable.induct) (auto intro: inv_init inv_step)

end

section \<open>Lemmas\<close>

lemma res_bind_Inr [simp, res_simps]: "res_bind (Inr x) f = f x"
  by (simp add: res_bind_def)

lemma res_bind_Inl [simp, res_simps]: "res_bind (Inl e) f = Inl e"
  by (simp add: res_bind_def)

lemma res_bind_eq_Inr [res_simps]:
  "res_bind m f = Inr y \<longleftrightarrow> (\<exists>x. m = Inr x \<and> f x = Inr y)"
  by (auto simp: res_bind_def split: sum.splits)

lemma res_bind_eq_Inl [res_simps]:
  "res_bind m f = Inl e \<longleftrightarrow> m = Inl e \<or> (\<exists>x. m = Inr x \<and> f x = Inl e)"
  by (auto simp: res_bind_def split: sum.splits)

lemma res_bind_assoc: "res_bind (res_bind m f) g = res_bind m (\<lambda>x. res_bind (f x) g)"
  by (simp add: res_bind_def split: sum.splits)

lemma res_bind_cong: "(\<And>x. m = Inr x \<Longrightarrow> f x = g x) \<Longrightarrow> res_bind m f = res_bind m g"
  by (auto simp: res_bind_def split: sum.splits)

lemma res_bind_cong2:
  "m = m' \<Longrightarrow> (\<And>x. m' = Inr x \<Longrightarrow> f x = g x) \<Longrightarrow> res_bind m f = res_bind m' g"
  by (cases m') (auto simp: res_bind_def)

lemma res_fold_append:
  "res_fold f (xs @ ys) s = res_bind (res_fold f xs s) (res_fold f ys)"
  by (induction xs arbitrary: s) (auto simp: res_bind_def split: sum.splits)

lemma res_fold_inv:
  assumes "\<And>x s t. x \<in> set xs \<Longrightarrow> P s \<Longrightarrow> f x s = Inr t \<Longrightarrow> P t"
    and "P s" and "res_fold f xs s = Inr t"
  shows "P t"
  using assms by (induction xs arbitrary: s) (auto simp: res_bind_eq_Inr)

lemma sz_add_small [simp, size_simps]: "a + b < 2 ^ 64 \<Longrightarrow> sz_add a b = a + b"
  by (simp add: sz_add_def)

lemma sz_sub_le [simp, size_simps]:
  assumes "b \<le> a" "a < 2 ^ 64"
  shows "sz_sub a b = a - b"
proof -
  have eq: "a + (2 ^ 64 - b) = (a - b) + 2 ^ 64" using assms by simp
  have "sz_sub a b = (a - b) mod 2 ^ 64"
    unfolding sz_sub_def eq by (rule mod_add_self2)
  then show ?thesis using assms by simp
qed

lemma sz_sub_wrap:
  assumes "a < b" "b < 2 ^ 64"
  shows "sz_sub a b = 2 ^ 64 - (b - a)"
proof -
  have "a + (2 ^ 64 - b) = 2 ^ 64 - (b - a)" using assms by simp
  then show ?thesis using assms by (simp add: sz_sub_def)
qed

lemma to_size_nonneg [simp, size_simps]: "0 \<le> i \<Longrightarrow> i < 2 ^ 64 \<Longrightarrow> to_size i = nat i"
  by (simp add: to_size_def)

lemma max_size_less: "n \<le> max_size \<Longrightarrow> n < 2 ^ 64"
  by (simp add: max_size_def)

lemma length_copy_within [simp]: "length (copy_within xs i j d) = length xs"
  by (induction xs i j d rule: copy_within.induct) (subst copy_within.simps, simp)

lemma length_copy_into [simp]: "length (copy_into xs p ys) = length xs"
  by (induction ys arbitrary: xs p) auto

lemma copy_into_eq:
  "p + length ys \<le> length xs \<Longrightarrow> copy_into xs p ys = take p xs @ ys @ drop (p + length ys) xs"
proof (induction ys arbitrary: xs p)
  case (Cons y ys)
  have "take (Suc p) (xs[p := y]) = take p xs @ [y]"
    using Cons.prems by (simp add: take_Suc_conv_app_nth)
  with Cons show ?case by simp
qed simp

text \<open>A left-to-right copy onto an earlier place moves the source range unchanged, overlap or not.\<close>

lemma copy_within_eq:
  assumes "d \<le> i" "i \<le> j" "j \<le> length xs"
  shows "copy_within xs i j d = take d xs @ take (j - i) (drop i xs) @ drop (d + (j - i)) xs"
  using assms
proof (induction xs i j d rule: copy_within.induct)
  case (1 xs i j d)
  show ?case
  proof (cases "i < j")
    case True
    let ?ys = "xs[d := xs ! i]"
    have IH: "copy_within ?ys (Suc i) j (Suc d) =
        take (Suc d) ?ys @ take (j - Suc i) (drop (Suc i) ?ys) @ drop (Suc d + (j - Suc i)) ?ys"
      using 1 True by simp
    have a: "take (Suc d) ?ys = take d xs @ [xs ! i]"
      using 1 True by (simp add: take_Suc_conv_app_nth)
    have b: "drop (Suc i) ?ys = drop (Suc i) xs" using 1 True by simp
    have c: "drop (Suc d + (j - Suc i)) ?ys = drop (d + (j - i)) xs"
      using True by (simp add: Suc_diff_Suc)
    have e: "xs ! i # take (j - Suc i) (drop (Suc i) xs) = take (j - i) (drop i xs)"
      using 1 True by (metis Cons_nth_drop_Suc Suc_diff_Suc less_le_trans take_Suc_Cons)
    show ?thesis
      by (subst copy_within.simps) (use True IH a b c e in simp)
  next
    case False
    with 1 show ?thesis by (subst copy_within.simps) simp
  qed
qed

lemma length_nat_bytes [simp]: "length (nat_bytes n x) = n"
  by (induction n arbitrary: x) auto

lemma bytes_nat_nat_bytes: "bytes_nat (nat_bytes n x) = x mod 256 ^ n"
proof (induction n arbitrary: x)
  case (Suc n)
  have "unat (of_nat x :: byte) = x mod 256"
    by (simp add: unat_of_nat)
  then show ?case using Suc by (simp add: mod_mult2_eq)
qed simp

lemma bytes_nat_less: "bytes_nat bs < 256 ^ length bs"
proof (induction bs)
  case (Cons b bs)
  have "unat b < 2 ^ LENGTH(8)" by (rule unsigned_less)
  then have "unat b < 256" by simp
  with Cons show ?case by simp
qed simp

lemma length_mem_bytes [simp]: "length (mem_bytes e n x) = n"
  by (cases e) (auto simp: mem_bytes_def)

lemma mem_nat_mem_bytes [simp]: "mem_nat e (mem_bytes e n x) = x mod 256 ^ n"
  by (cases e) (auto simp: mem_bytes_def mem_nat_def bytes_nat_nat_bytes)

lemma nth_mem_bytes_1 [simp]: "mem_bytes e 1 x = [of_nat x]"
  by (cases e) (auto simp: mem_bytes_def)

lemma nat_bytes_bytes_nat: "nat_bytes (length bs) (bytes_nat bs) = bs"
proof (induction bs)
  case (Cons b bs)
  have b: "unat b < 256" using unsigned_less [of b] by simp
  have "(256 :: byte) = 0" by simp
  then have "of_nat (unat b + 256 * bytes_nat bs) = b" by (simp only: of_nat_add of_nat_mult of_nat_numeral) simp
  with Cons b show ?case by simp
qed simp

lemma mem_bytes_mem_nat [simp]: "length bs = n \<Longrightarrow> mem_bytes e n (mem_nat e bs) = bs"
  using nat_bytes_bytes_nat [of bs] nat_bytes_bytes_nat [of "rev bs"]
  by (cases e) (auto simp: mem_bytes_def mem_nat_def)

section \<open>Counting and weighing the threads of a system\<close>

definition cnt :: "('a \<Rightarrow> bool) \<Rightarrow> 'a list \<Rightarrow> int" where
  "cnt P xs = int (length (filter P xs))"

lemma cnt_nonneg: "0 \<le> cnt P xs"
  by (simp add: cnt_def)

lemma cnt_update: "i < length xs \<Longrightarrow> cnt P (xs[i := x]) = cnt P xs + of_bool (P x) - of_bool (P (xs ! i))"
proof (induction xs arbitrary: i)
  case (Cons y ys)
  then show ?case by (cases i) (auto simp: cnt_def)
qed simp

lemma cnt_pos: "0 < cnt P xs \<longleftrightarrow> (\<exists>x \<in> set xs. P x)"
  by (simp add: cnt_def filter_empty_conv)

lemma cnt_nth: "i < length xs \<Longrightarrow> P (xs ! i) \<Longrightarrow> 1 \<le> cnt P xs"
  using cnt_pos [of P xs] nth_mem [of i xs] by auto

definition weight :: "('a \<Rightarrow> nat) \<Rightarrow> 'a list \<Rightarrow> int" where
  "weight f xs = int (sum_list (map f xs))"

lemma weight_nonneg: "0 \<le> weight f xs"
  by (simp add: weight_def)

lemma weight_update: "i < length xs \<Longrightarrow> weight f (xs[i := x]) = weight f xs + int (f x) - int (f (xs ! i))"
proof (induction xs arbitrary: i)
  case (Cons y ys)
  then show ?case by (cases i) (auto simp: weight_def)
qed simp

end
