(* ===== verification/Buffer.thy ===== *)
theory Buffer
  imports Bounce_Prelude
begin

text \<open>
  The byte buffer of \<^verbatim>\<open>bounce/buffer.h\<close> and \<^verbatim>\<open>bounce/buffer.cc\<close>: a vector with a read
  and a write index. The model keeps the vector, both indices and the initial size; every access
  to the vector is checked, so that an access outside it is the error \<open>Out_of_bounds\<close>.
  The abstraction of a buffer is the byte string between its indices. Shown here: the invariant
  \<open>Buffer_wf\<close> and its preservation by every operation, memory safety, the refinement of a byte
  queue (locale \<open>byte_queue\<close>), the integer round trips, and what the \<^verbatim>\<open>readInt\<close> functions
  really return.
\<close>

section \<open>State\<close>

record buffer =
  init_size :: int
  storage :: "byte list"
  read_index :: nat
  write_index :: nat

definition BUFFER_INIT_SIZE :: int where
  "BUFFER_INIT_SIZE = 1024"

definition STACK_BUFFER_SIZE :: nat where
  "STACK_BUFFER_SIZE = 65536"

section \<open>Construction, copy and move\<close>

text \<open>
  The constructor builds the vector from the configured initial size, which the sources keep in
  the assignable global \<^verbatim>\<open>BUFFER_INIT_SIZE\<close>; it is an argument here.
\<close>

definition Buffer_new :: "int \<Rightarrow> buffer res" where
  "Buffer_new init =
     res_bind (vec_resize (to_size init) [])
       (\<lambda>v. Inr \<lparr>init_size = init, storage = v, read_index = 0, write_index = 0\<rparr>)"

fun push_all :: "byte list \<Rightarrow> byte list \<Rightarrow> byte list" where
  "push_all v [] = v"
| "push_all v (x # xs) = push_all (v @ [x]) xs"

definition Buffer_copy :: "buffer \<Rightarrow> buffer" where
  "Buffer_copy b = \<lparr>init_size = init_size b, storage = push_all [] (storage b),
     read_index = read_index b, write_index = write_index b\<rparr>"

text \<open>The move constructor gives the new buffer and what is left of the source.\<close>

definition Buffer_move :: "buffer \<Rightarrow> buffer \<times> buffer" where
  "Buffer_move b =
     (\<lparr>init_size = init_size b, storage = storage b,
       read_index = read_index b, write_index = write_index b\<rparr>,
      b\<lparr>storage := []\<rparr>)"

text \<open>Assignment; the flag says whether both sides are the same object.\<close>

definition Buffer_assign :: "bool \<Rightarrow> buffer \<Rightarrow> buffer \<Rightarrow> buffer" where
  "Buffer_assign same this other =
     (if same then this
      else this\<lparr>init_size := init_size other, storage := push_all [] (storage other),
        read_index := read_index other, write_index := write_index other\<rparr>)"

section \<open>Sizes and peeking\<close>

definition Buffer_readableBytes :: "buffer \<Rightarrow> nat" where
  "Buffer_readableBytes b = sz_sub (write_index b) (read_index b)"

definition Buffer_writeableBytes :: "buffer \<Rightarrow> nat" where
  "Buffer_writeableBytes b = sz_sub (length (storage b)) (write_index b)"

text \<open>A pointer into the vector is modelled by the bytes from it to the end of the vector.\<close>

definition Buffer_peek :: "buffer \<Rightarrow> byte list" where
  "Buffer_peek b = drop (read_index b) (storage b)"

definition load_int :: "endian \<Rightarrow> nat \<Rightarrow> byte list \<Rightarrow> nat res" where
  "load_int e n p = (if length p < n then Inl Out_of_bounds else Inr (mem_nat e (take n p)))"

definition Buffer_peekInt8 :: "endian \<Rightarrow> buffer \<Rightarrow> 8 word res" where
  "Buffer_peekInt8 e b =
     (if sz_add (read_index b) 1 > write_index b then Inr 0
      else map_sum id of_nat (load_int e 1 (Buffer_peek b)))"

definition Buffer_peekInt16 :: "endian \<Rightarrow> buffer \<Rightarrow> 16 word res" where
  "Buffer_peekInt16 e b =
     (if sz_add (read_index b) 2 > write_index b then Inr 0
      else map_sum id of_nat (load_int e 2 (Buffer_peek b)))"

definition Buffer_peekInt32 :: "endian \<Rightarrow> buffer \<Rightarrow> 32 word res" where
  "Buffer_peekInt32 e b =
     (if sz_add (read_index b) 4 > write_index b then Inr 0
      else map_sum id of_nat (load_int e 4 (Buffer_peek b)))"

section \<open>Input\<close>

definition Buffer_makeSpace :: "nat \<Rightarrow> buffer \<Rightarrow> buffer res" where
  "Buffer_makeSpace len b =
     res_bind
       (if read_index b > to_size (init_size b sdiv 2) then
          (if write_index b > length (storage b) \<or> read_index b > write_index b
           then Inl Out_of_bounds
           else Inr (b\<lparr>storage := copy_within (storage b) (read_index b) (write_index b) 0,
                       write_index := sz_sub (write_index b) (read_index b),
                       read_index := 0\<rparr>))
        else Inr b)
       (\<lambda>b. if Buffer_writeableBytes b < len
            then res_bind (vec_resize (sz_add (length (storage b)) len) (storage b))
                   (\<lambda>v. Inr (b\<lparr>storage := v\<rparr>))
            else Inr b)"

definition Buffer_append :: "byte list \<Rightarrow> buffer \<Rightarrow> buffer res" where
  "Buffer_append src b =
     res_bind (if Buffer_writeableBytes b < length src then Buffer_makeSpace (length src) b else Inr b)
       (\<lambda>b. if write_index b + length src > length (storage b) then Inl Out_of_bounds
            else Inr (b\<lparr>storage := copy_into (storage b) (write_index b) src,
                        write_index := sz_add (write_index b) (length src)\<rparr>))"

text \<open>
  \<^verbatim>\<open>readv\<close> gets the lengths of the two segments and fails with an error number or delivers
  bytes, which fill the free part of the vector first and the stack buffer next.
\<close>

datatype readv_result = Readv_failed errno | Readv_bytes "byte list"

definition Buffer_readFd :: "(nat list \<Rightarrow> readv_result) \<Rightarrow> buffer \<Rightarrow> (int \<times> errno option \<times> buffer) res" where
  "Buffer_readFd readv b =
     (let room = Buffer_writeableBytes b in
      case readv [room, STACK_BUFFER_SIZE] of
        Readv_failed e \<Rightarrow> Inr (-1, Some e, b)
      | Readv_bytes bs \<Rightarrow>
          (let b1 = b\<lparr>storage := copy_into (storage b) (write_index b) (take room bs)\<rparr>;
               stack = drop room bs;
               ret = int (length bs)
           in if int room > ret
              then Inr (ret, None, b1\<lparr>write_index := sz_add (write_index b1) (length bs)\<rparr>)
              else if length stack > STACK_BUFFER_SIZE then Inl Out_of_bounds
              else res_bind (Buffer_append stack (b1\<lparr>write_index := length (storage b1)\<rparr>))
                     (\<lambda>b2. Inr (ret, None, b2))))"

definition Buffer_writeInt8 :: "endian \<Rightarrow> 8 word \<Rightarrow> buffer \<Rightarrow> buffer res" where
  "Buffer_writeInt8 e num b = Buffer_append (mem_bytes e 1 (unat num)) b"

definition Buffer_writeInt16 :: "endian \<Rightarrow> 16 word \<Rightarrow> buffer \<Rightarrow> buffer res" where
  "Buffer_writeInt16 e num b = Buffer_append (mem_bytes e 2 (unat num)) b"

definition Buffer_writeInt32 :: "endian \<Rightarrow> 32 word \<Rightarrow> buffer \<Rightarrow> buffer res" where
  "Buffer_writeInt32 e num b = Buffer_append (mem_bytes e 4 (unat num)) b"

section \<open>Output\<close>

definition Buffer_readAsString :: "nat \<Rightarrow> buffer \<Rightarrow> (byte list \<times> buffer) res" where
  "Buffer_readAsString n b =
     (let read_bytes = (if n > Buffer_readableBytes b then Buffer_readableBytes b else n) in
      if read_index b + read_bytes > length (storage b) then Inl Out_of_bounds
      else Inr (take read_bytes (drop (read_index b) (storage b)),
             if read_bytes = Buffer_readableBytes b then b\<lparr>read_index := 0, write_index := 0\<rparr>
             else b\<lparr>read_index := sz_add (read_index b) read_bytes\<rparr>))"

definition Buffer_readAllAsString :: "buffer \<Rightarrow> (byte list \<times> buffer) res" where
  "Buffer_readAllAsString b = Buffer_readAsString (Buffer_readableBytes b) b"

definition Buffer_retrieve :: "nat \<Rightarrow> buffer \<Rightarrow> buffer" where
  "Buffer_retrieve len b =
     (if len < Buffer_readableBytes b then b\<lparr>read_index := sz_add (read_index b) len\<rparr>
      else b\<lparr>read_index := 0, write_index := 0\<rparr>)"

definition Buffer_readInt8 :: "endian \<Rightarrow> buffer \<Rightarrow> (8 word \<times> buffer) res" where
  "Buffer_readInt8 e b =
     (if 1 > Buffer_readableBytes b then Inr (0, b)
      else let b' = b\<lparr>read_index := sz_add (read_index b) 1\<rparr> in
           res_bind (Buffer_peekInt8 e b') (\<lambda>v. Inr (v, b')))"

definition Buffer_readInt16 :: "endian \<Rightarrow> buffer \<Rightarrow> (16 word \<times> buffer) res" where
  "Buffer_readInt16 e b =
     (if 2 > Buffer_readableBytes b then Inr (0, b)
      else let b' = b\<lparr>read_index := sz_add (read_index b) 2\<rparr> in
           res_bind (Buffer_peekInt16 e b') (\<lambda>v. Inr (v, b')))"

definition Buffer_readInt32 :: "endian \<Rightarrow> buffer \<Rightarrow> (32 word \<times> buffer) res" where
  "Buffer_readInt32 e b =
     (if 4 > Buffer_readableBytes b then Inr (0, b)
      else let b' = b\<lparr>read_index := sz_add (read_index b) 2\<rparr> in
           res_bind (Buffer_peekInt32 e b') (\<lambda>v. Inr (v, b')))"

section \<open>Invariant and abstraction\<close>

definition Buffer_wf :: "buffer \<Rightarrow> bool" where
  "Buffer_wf b \<longleftrightarrow> read_index b \<le> write_index b \<and> write_index b \<le> length (storage b) \<and>
     length (storage b) \<le> max_size \<and> 0 \<le> init_size b \<and> init_size b \<le> int max_size"

definition Buffer_contents :: "buffer \<Rightarrow> byte list" where
  "Buffer_contents b = take (write_index b - read_index b) (drop (read_index b) (storage b))"

text \<open>The documented behaviour of \<^verbatim>\<open>readv\<close>: it never delivers more than the segments hold.\<close>

definition readv_contract :: "(nat list \<Rightarrow> readv_result) \<Rightarrow> bool" where
  "readv_contract readv \<longleftrightarrow> (\<forall>lens bs. readv lens = Readv_bytes bs \<longrightarrow> length bs \<le> sum_list lens)"

section \<open>Byte queues\<close>

text \<open>
  The contract that the clients of a buffer rely on: a queue of bytes with an invariant, an
  abstraction to the bytes it holds, and a capacity that bounds when putting may fail.
\<close>

datatype queue_op = Put "byte list" | Get nat

fun queue_run ::
  "(byte list \<Rightarrow> 'b \<Rightarrow> 'b res) \<Rightarrow> (nat \<Rightarrow> 'b \<Rightarrow> (byte list \<times> 'b) res) \<Rightarrow> queue_op list \<Rightarrow> 'b \<Rightarrow> (byte list \<times> 'b) res" where
  "queue_run put get [] q = Inr ([], q)"
| "queue_run put get (Put xs # ops) q = res_bind (put xs q) (queue_run put get ops)"
| "queue_run put get (Get n # ops) q =
     res_bind (get n q) (\<lambda>(out, q'). res_bind (queue_run put get ops q') (\<lambda>(outs, r). Inr (out @ outs, r)))"

fun queue_input :: "queue_op list \<Rightarrow> byte list" where
  "queue_input [] = []"
| "queue_input (Put xs # ops) = xs @ queue_input ops"
| "queue_input (Get n # ops) = queue_input ops"

locale byte_queue =
  fixes wf :: "'b \<Rightarrow> bool"
    and contents :: "'b \<Rightarrow> byte list"
    and capacity :: "'b \<Rightarrow> nat"
    and put :: "byte list \<Rightarrow> 'b \<Rightarrow> 'b res"
    and get :: "nat \<Rightarrow> 'b \<Rightarrow> (byte list \<times> 'b) res"
    and limit :: nat
  assumes put_room: "wf q \<Longrightarrow> capacity q + length xs \<le> limit \<Longrightarrow>
      \<exists>q'. put xs q = Inr q' \<and> wf q' \<and> contents q' = contents q @ xs \<and> capacity q' \<le> capacity q + length xs"
    and get_ok: "wf q \<Longrightarrow>
      \<exists>q'. get n q = Inr (take n (contents q), q') \<and> wf q' \<and> contents q' = drop n (contents q) \<and>
        capacity q' = capacity q"
begin

lemma run_stream:
  assumes "wf q" "capacity q + length (queue_input ops) \<le> limit"
  shows "\<exists>out r. queue_run put get ops q = Inr (out, r) \<and> wf r \<and>
     out @ contents r = contents q @ queue_input ops"
  using assms
proof (induction ops arbitrary: q)
  case (Cons op ops)
  show ?case
  proof (cases op)
    case (Put xs)
    then obtain q' where q': "put xs q = Inr q'" "wf q'" "contents q' = contents q @ xs"
      "capacity q' \<le> capacity q + length xs"
      using put_room [of q xs] Cons.prems by auto
    then have "capacity q' + length (queue_input ops) \<le> limit" using Put Cons.prems by simp
    from Cons.IH [OF q'(2) this] show ?thesis using Put q' by auto
  next
    case (Get n)
    obtain q' where q': "get n q = Inr (take n (contents q), q')" "wf q'"
      "contents q' = drop n (contents q)" "capacity q' = capacity q"
      using get_ok [OF Cons.prems(1)] by blast
    then have "capacity q' + length (queue_input ops) \<le> limit" using Get Cons.prems by simp
    from Cons.IH [OF q'(2) this] obtain out r where
      "queue_run put get ops q' = Inr (out, r)" "wf r" "out @ contents r = contents q' @ queue_input ops"
      by blast
    moreover from this have "(take n (contents q) @ out) @ contents r = contents q @ queue_input ops"
      using q'(3) by (metis append_assoc append_take_drop_id)
    ultimately show ?thesis using Get q' by auto
  qed
qed simp

end

section \<open>Basic lemmas\<close>

lemma Buffer_wf_sizes:
  assumes "Buffer_wf b"
  shows "read_index b \<le> write_index b" "write_index b \<le> length (storage b)"
    "write_index b < 2 ^ 64" "length (storage b) < 2 ^ 64" "length (storage b) \<le> max_size"
  using assms by (auto simp: Buffer_wf_def max_size_def)

lemma readableBytes_wf [simp]: "Buffer_wf b \<Longrightarrow> Buffer_readableBytes b = length (Buffer_contents b)"
  using Buffer_wf_sizes [of b] by (simp add: Buffer_readableBytes_def Buffer_contents_def)

lemma writeableBytes_wf [simp]:
  "Buffer_wf b \<Longrightarrow> Buffer_writeableBytes b = length (storage b) - write_index b"
  using Buffer_wf_sizes [of b] by (simp add: Buffer_writeableBytes_def)

lemma length_contents: "Buffer_wf b \<Longrightarrow> length (Buffer_contents b) = write_index b - read_index b"
  using Buffer_wf_sizes [of b] by (simp add: Buffer_contents_def)

lemma push_all_eq [simp]: "push_all v xs = v @ xs"
  by (induction xs arbitrary: v) auto

lemma contents_compact:
  assumes "Buffer_wf b"
  shows "Buffer_contents (b\<lparr>storage := copy_within (storage b) (read_index b) (write_index b) 0,
           write_index := write_index b - read_index b, read_index := 0\<rparr>) = Buffer_contents b"
  using Buffer_wf_sizes [OF assms] by (simp add: Buffer_contents_def copy_within_eq)

lemma contents_storage_append:
  "Buffer_wf b \<Longrightarrow> Buffer_contents (b\<lparr>storage := storage b @ ys\<rparr>) = Buffer_contents b"
  using Buffer_wf_sizes [of b] by (simp add: Buffer_contents_def)

text \<open>The part of \<open>Buffer_makeSpace\<close> that moves the pending bytes to the front.\<close>

lemma makeSpace_compacted:
  assumes "Buffer_wf b"
  obtains c where "Buffer_makeSpace len b =
      (if Buffer_writeableBytes c < len
       then res_bind (vec_resize (sz_add (length (storage c)) len) (storage c))
              (\<lambda>v. Inr (c\<lparr>storage := v\<rparr>))
       else Inr c)"
    and "Buffer_wf c" "Buffer_contents c = Buffer_contents b" "length (storage c) = length (storage b)"
proof (cases "read_index b > to_size (init_size b sdiv 2)")
  case True
  let ?c = "b\<lparr>storage := copy_within (storage b) (read_index b) (write_index b) 0,
              write_index := write_index b - read_index b, read_index := 0\<rparr>"
  note sz = Buffer_wf_sizes [OF assms]
  have "sz_sub (write_index b) (read_index b) = write_index b - read_index b"
    using sz by simp
  then have "Buffer_makeSpace len b =
      (if Buffer_writeableBytes ?c < len
       then res_bind (vec_resize (sz_add (length (storage ?c)) len) (storage ?c))
              (\<lambda>v. Inr (?c\<lparr>storage := v\<rparr>))
       else Inr ?c)"
    using True sz by (simp add: Buffer_makeSpace_def)
  moreover have "Buffer_wf ?c" using assms sz by (auto simp: Buffer_wf_def)
  moreover have "Buffer_contents ?c = Buffer_contents b" using contents_compact [OF assms] .
  ultimately show ?thesis by (intro that [of ?c]) simp_all
next
  case False
  then show ?thesis using assms by (intro that [of b]) (simp_all add: Buffer_makeSpace_def)
qed

lemma makeSpace_spec:
  assumes "Buffer_wf b" "len \<le> max_size"
  shows "Buffer_makeSpace len b = Inl Length_error \<and> length (storage b) + len > max_size \<or>
    (\<exists>c. Buffer_makeSpace len b = Inr c \<and> Buffer_wf c \<and> Buffer_contents c = Buffer_contents b \<and>
       len \<le> length (storage c) - write_index c \<and>
       length (storage c) \<le> length (storage b) + len)"
proof -
  obtain c where eq: "Buffer_makeSpace len b =
      (if Buffer_writeableBytes c < len
       then res_bind (vec_resize (sz_add (length (storage c)) len) (storage c))
              (\<lambda>v. Inr (c\<lparr>storage := v\<rparr>))
       else Inr c)"
    and c: "Buffer_wf c" "Buffer_contents c = Buffer_contents b"
    and l: "length (storage c) = length (storage b)"
    using makeSpace_compacted [OF assms(1)] by metis
  note sz = Buffer_wf_sizes [OF c(1)]
  have add: "sz_add (length (storage c)) len = length (storage c) + len"
    using sz(5) assms(2) by (simp add: max_size_def)
  show ?thesis
  proof (cases "Buffer_writeableBytes c < len")
    case False
    then show ?thesis using eq c l sz by auto
  next
    case True
    show ?thesis
    proof (cases "length (storage c) + len > max_size")
      case True
      then show ?thesis using eq add l \<open>Buffer_writeableBytes c < len\<close> by (simp add: vec_resize_def)
    next
      case False
      let ?d = "c\<lparr>storage := storage c @ replicate len 0\<rparr>"
      have "Buffer_makeSpace len b = Inr ?d"
        using False eq add \<open>Buffer_writeableBytes c < len\<close> by (simp add: vec_resize_def)
      moreover have "Buffer_wf ?d" using c(1) False by (auto simp: Buffer_wf_def)
      moreover have "Buffer_contents ?d = Buffer_contents b"
        using c contents_storage_append by simp
      ultimately show ?thesis using sz l by auto
    qed
  qed
qed

lemma contents_write:
  assumes "Buffer_wf c" "length src \<le> length (storage c) - write_index c"
  shows "Buffer_contents (c\<lparr>storage := copy_into (storage c) (write_index c) src,
           write_index := write_index c + length src\<rparr>) = Buffer_contents c @ src"
  using Buffer_wf_sizes [OF assms(1)] assms(2)
  by (simp add: Buffer_contents_def copy_into_eq take_drop)

lemma append_spec:
  assumes "Buffer_wf b" "length src \<le> max_size"
  shows "Buffer_append src b = Inl Length_error \<and> length (storage b) + length src > max_size \<or>
    (\<exists>c. Buffer_append src b = Inr c \<and> Buffer_wf c \<and> Buffer_contents c = Buffer_contents b @ src \<and>
       length (storage c) \<le> length (storage b) + length src)"
proof -
  let ?m = "if Buffer_writeableBytes b < length src then Buffer_makeSpace (length src) b else Inr b"
  have m: "?m = Inl Length_error \<and> length (storage b) + length src > max_size \<or>
      (\<exists>c. ?m = Inr c \<and> Buffer_wf c \<and> Buffer_contents c = Buffer_contents b \<and>
         length src \<le> length (storage c) - write_index c \<and>
         length (storage c) \<le> length (storage b) + length src)"
    using makeSpace_spec [OF assms] assms(1) by auto
  then consider (err) "?m = Inl Length_error" "length (storage b) + length src > max_size"
    | (ok) c where "?m = Inr c" "Buffer_wf c" "Buffer_contents c = Buffer_contents b"
        "length src \<le> length (storage c) - write_index c"
        "length (storage c) \<le> length (storage b) + length src"
    by blast
  then show ?thesis
  proof cases
    case err
    then show ?thesis by (simp only: Buffer_append_def res_bind_Inl) simp
  next
    case ok
    note sz = Buffer_wf_sizes [OF ok(2)]
    let ?d = "c\<lparr>storage := copy_into (storage c) (write_index c) src,
                 write_index := write_index c + length src\<rparr>"
    have fit: "write_index c + length src \<le> length (storage c)" using ok(4) sz by linarith
    then have add: "sz_add (write_index c) (length src) = write_index c + length src"
      using sz(4) by simp
    have "Buffer_append src b = Inr ?d"
      using fit add by (simp only: Buffer_append_def ok(1) res_bind_Inr) simp
    moreover have "Buffer_wf ?d" using ok(2) fit by (auto simp: Buffer_wf_def)
    moreover have "Buffer_contents ?d = Buffer_contents b @ src"
      using contents_write [OF ok(2,4)] ok(3) by simp
    ultimately show ?thesis using ok(5) by auto
  qed
qed

lemma readAsString_spec:
  assumes "Buffer_wf b"
  shows "\<exists>c. Buffer_readAsString n b = Inr (take n (Buffer_contents b), c) \<and> Buffer_wf c \<and>
    Buffer_contents c = drop n (Buffer_contents b) \<and> length (storage c) = length (storage b)"
proof -
  note sz = Buffer_wf_sizes [OF assms]
  let ?n = "min n (length (Buffer_contents b))"
  let ?c = "if ?n = length (Buffer_contents b) then b\<lparr>read_index := 0, write_index := 0\<rparr>
            else b\<lparr>read_index := read_index b + ?n\<rparr>"
  have n: "(if n > Buffer_readableBytes b then Buffer_readableBytes b else n) = ?n"
    using assms by (simp add: min_def)
  have fit: "read_index b + ?n \<le> write_index b" using length_contents [OF assms] sz by simp
  then have add: "sz_add (read_index b) ?n = read_index b + ?n" using sz by simp
  have out: "take ?n (drop (read_index b) (storage b)) = take n (Buffer_contents b)"
    using length_contents [OF assms] by (simp add: Buffer_contents_def min.commute)
  have "Buffer_readAsString n b = Inr (take n (Buffer_contents b), ?c)"
    unfolding Buffer_readAsString_def Let_def n add using fit sz assms out by simp
  moreover have "Buffer_wf ?c" using assms fit by (auto simp: Buffer_wf_def)
  moreover have "Buffer_contents ?c = drop n (Buffer_contents b)"
    using length_contents [OF assms] sz
    by (auto simp: Buffer_contents_def min_def drop_take add.commute)
  ultimately show ?thesis by auto
qed

lemma retrieve_spec:
  assumes "Buffer_wf b"
  shows "Buffer_wf (Buffer_retrieve n b)"
    "Buffer_contents (Buffer_retrieve n b) = drop n (Buffer_contents b)"
    "storage (Buffer_retrieve n b) = storage b"
  using assms Buffer_wf_sizes [OF assms] length_contents [OF assms]
  by (auto simp: Buffer_retrieve_def Buffer_wf_def Buffer_contents_def drop_take add.commute)

lemma Buffer_new_spec:
  assumes "0 \<le> n" "n \<le> int max_size"
  shows "\<exists>b. Buffer_new n = Inr b \<and> Buffer_wf b \<and> Buffer_contents b = [] \<and> length (storage b) = nat n"
  using assms by (auto simp: Buffer_new_def vec_resize_def Buffer_wf_def Buffer_contents_def max_size_def)

lemma readFd_spec:
  assumes "Buffer_wf b" "readv_contract readv"
  shows "case readv [length (storage b) - write_index b, STACK_BUFFER_SIZE] of
      Readv_failed e \<Rightarrow> Buffer_readFd readv b = Inr (-1, Some e, b)
    | Readv_bytes bs \<Rightarrow>
        Buffer_readFd readv b = Inl Length_error \<and> length (storage b) + STACK_BUFFER_SIZE > max_size \<or>
        (\<exists>c. Buffer_readFd readv b = Inr (int (length bs), None, c) \<and> Buffer_wf c \<and>
           Buffer_contents c = Buffer_contents b @ bs)"
proof (cases "readv [length (storage b) - write_index b, STACK_BUFFER_SIZE]")
  case (Readv_failed e)
  then show ?thesis using assms by (simp add: Buffer_readFd_def)
next
  case (Readv_bytes bs)
  note sz = Buffer_wf_sizes [OF assms(1)]
  let ?room = "length (storage b) - write_index b"
  have len: "length bs \<le> ?room + STACK_BUFFER_SIZE"
    using assms(2) Readv_bytes by (fastforce simp: readv_contract_def)
  let ?b1 = "b\<lparr>storage := copy_into (storage b) (write_index b) (take ?room bs),
               write_index := write_index b + length (take ?room bs)\<rparr>"
  have wf1: "Buffer_wf ?b1" using assms(1) by (auto simp: Buffer_wf_def)
  have c1: "Buffer_contents ?b1 = Buffer_contents b @ take ?room bs"
    using contents_write [OF assms(1), of "take ?room bs"] by simp
  show ?thesis
  proof (cases "length bs < ?room")
    case True
    then have "sz_add (write_index b) (length bs) = write_index b + length bs"
      using sz by (simp add: less_diff_conv)
    moreover have "int (length bs) < int ?room" using True by simp
    ultimately have "Buffer_readFd readv b = Inr (int (length bs), None, ?b1)"
      using True Readv_bytes assms(1) by (simp del: of_nat_diff add: Buffer_readFd_def Let_def)
    then show ?thesis using wf1 c1 True Readv_bytes by simp
  next
    case False
    let ?s = "drop ?room bs"
    have full: "write_index b + length (take ?room bs) = length (storage b)"
      using False sz by simp
    have s: "length ?s \<le> STACK_BUFFER_SIZE" using len by simp
    then have s': "length ?s \<le> max_size" by (simp add: STACK_BUFFER_SIZE_def max_size_def)
    have eq: "Buffer_readFd readv b =
        res_bind (Buffer_append ?s ?b1) (\<lambda>b2. Inr (int (length bs), None, b2))"
      using False Readv_bytes assms(1) s full by (simp add: Buffer_readFd_def Let_def)
    show ?thesis
    proof (cases "Buffer_append ?s ?b1 = Inl Length_error \<and> length (storage ?b1) + length ?s > max_size")
      case True
      then show ?thesis using eq Readv_bytes s by simp
    next
      case False
      then obtain c where "Buffer_append ?s ?b1 = Inr c" "Buffer_wf c"
        "Buffer_contents c = Buffer_contents ?b1 @ ?s"
        using append_spec [OF wf1 s'] by blast
      then show ?thesis using eq c1 Readv_bytes by simp
    qed
  qed
qed

interpretation buf: byte_queue Buffer_wf Buffer_contents "length \<circ> storage" Buffer_append
    Buffer_readAsString max_size
proof unfold_locales
  fix q and xs :: "byte list"
  assume "Buffer_wf q" "(length \<circ> storage) q + length xs \<le> max_size"
  then show "\<exists>q'. Buffer_append xs q = Inr q' \<and> Buffer_wf q' \<and>
      Buffer_contents q' = Buffer_contents q @ xs \<and>
      (length \<circ> storage) q' \<le> (length \<circ> storage) q + length xs"
    using append_spec [of q xs] by fastforce
next
  fix q n
  assume "Buffer_wf q"
  then show "\<exists>q'. Buffer_readAsString n q = Inr (take n (Buffer_contents q), q') \<and> Buffer_wf q' \<and>
      Buffer_contents q' = drop n (Buffer_contents q) \<and> (length \<circ> storage) q' = (length \<circ> storage) q"
    using readAsString_spec by simp
qed

section \<open>Integers\<close>

lemma load_int_peek:
  assumes "Buffer_wf b" "n \<le> length (Buffer_contents b)"
  shows "load_int e n (Buffer_peek b) = Inr (mem_nat e (take n (Buffer_contents b)))"
  using assms length_contents [OF assms(1)] Buffer_wf_sizes [OF assms(1)]
  by (simp add: load_int_def Buffer_peek_def Buffer_contents_def min_def)

lemma peek_guard:
  assumes "Buffer_wf b" "n \<le> 4"
  shows "sz_add (read_index b) n > write_index b \<longleftrightarrow> length (Buffer_contents b) < n"
proof -
  note sz = Buffer_wf_sizes [OF assms(1)]
  have "read_index b + n < 2 ^ 64" using sz assms(2) by (simp add: max_size_def)
  then show ?thesis using length_contents [OF assms(1)] sz by auto
qed

lemma peekInt8_spec:
  "Buffer_wf b \<Longrightarrow> Buffer_peekInt8 e b =
     Inr (if length (Buffer_contents b) < 1 then 0 else of_nat (mem_nat e (take 1 (Buffer_contents b))))"
  using peek_guard [of b 1] load_int_peek [of b 1 e]
  by (cases "Buffer_contents b") (simp_all add: Buffer_peekInt8_def)

lemma peekInt16_spec:
  "Buffer_wf b \<Longrightarrow> Buffer_peekInt16 e b =
     Inr (if length (Buffer_contents b) < 2 then 0 else of_nat (mem_nat e (take 2 (Buffer_contents b))))"
  using peek_guard [of b 2] load_int_peek [of b 2 e] by (simp add: Buffer_peekInt16_def)

lemma peekInt32_spec:
  "Buffer_wf b \<Longrightarrow> Buffer_peekInt32 e b =
     Inr (if length (Buffer_contents b) < 4 then 0 else of_nat (mem_nat e (take 4 (Buffer_contents b))))"
  using peek_guard [of b 4] load_int_peek [of b 4 e] by (simp add: Buffer_peekInt32_def)

lemma advance_spec:
  assumes "Buffer_wf b" "n \<le> length (Buffer_contents b)"
  shows "Buffer_wf (b\<lparr>read_index := sz_add (read_index b) n\<rparr>)"
    "Buffer_contents (b\<lparr>read_index := sz_add (read_index b) n\<rparr>) = drop n (Buffer_contents b)"
proof -
  note sz = Buffer_wf_sizes [OF assms(1)] length_contents [OF assms(1)]
  have "read_index b + n \<le> write_index b" using sz assms(2) by linarith
  then have "sz_add (read_index b) n = read_index b + n" "read_index b + n \<le> write_index b"
    using sz by simp_all
  then show "Buffer_wf (b\<lparr>read_index := sz_add (read_index b) n\<rparr>)"
    "Buffer_contents (b\<lparr>read_index := sz_add (read_index b) n\<rparr>) = drop n (Buffer_contents b)"
    using assms(1) by (auto simp: Buffer_wf_def Buffer_contents_def drop_take add.commute)
qed

lemma readInt8_spec:
  assumes "Buffer_wf b" "1 \<le> length (Buffer_contents b)"
  shows "\<exists>c. Buffer_readInt8 e b = Inr (if length (Buffer_contents b) < 2 then 0
      else of_nat (mem_nat e (take 1 (drop 1 (Buffer_contents b)))), c) \<and>
    Buffer_wf c \<and> Buffer_contents c = drop 1 (Buffer_contents b)"
  using assms advance_spec [OF assms] peekInt8_spec [OF advance_spec(1) [OF assms], of e]
  by (simp add: Buffer_readInt8_def Let_def less_diff_conv2)

lemma readInt16_spec:
  assumes "Buffer_wf b" "2 \<le> length (Buffer_contents b)"
  shows "\<exists>c. Buffer_readInt16 e b = Inr (if length (Buffer_contents b) < 4 then 0
      else of_nat (mem_nat e (take 2 (drop 2 (Buffer_contents b)))), c) \<and>
    Buffer_wf c \<and> Buffer_contents c = drop 2 (Buffer_contents b)"
  using assms advance_spec [OF assms] peekInt16_spec [OF advance_spec(1) [OF assms], of e]
  by (simp add: Buffer_readInt16_def Let_def less_diff_conv2)

lemma readInt32_spec:
  assumes "Buffer_wf b" "4 \<le> length (Buffer_contents b)"
  shows "\<exists>c. Buffer_readInt32 e b = Inr (if length (Buffer_contents b) < 6 then 0
      else of_nat (mem_nat e (take 4 (drop 2 (Buffer_contents b)))), c) \<and>
    Buffer_wf c \<and> Buffer_contents c = drop 2 (Buffer_contents b)"
proof -
  have "2 \<le> length (Buffer_contents b)" using assms(2) by simp
  note adv = advance_spec [OF assms(1) this]
  show ?thesis
    using assms adv peekInt32_spec [OF adv(1), of e]
    by (simp add: Buffer_readInt32_def Let_def less_diff_conv2)
qed

section \<open>Properties\<close>

definition example_buffer :: buffer where
  "example_buffer = \<lparr>init_size = 4, storage = [1, 2, 3, 0], read_index = 1, write_index = 3\<rparr>"

lemma example_buffer_facts [simp]:
  "Buffer_wf example_buffer" "Buffer_contents example_buffer = [2, 3]"
  "length (storage example_buffer) = 4" "write_index example_buffer = 3"
  by (simp_all add: example_buffer_def Buffer_wf_def Buffer_contents_def max_size_def)

text \<open>C1: On a well-formed buffer, append either throws length_error, and then the vector and the
  new bytes together exceed the largest vector, or it succeeds; it never touches memory outside the
  vector. When it succeeds the buffer is well-formed, holds the old bytes followed by the new ones,
  and its vector has grown by at most the number of bytes appended.\<close>

theorem Buffer_append_refines:
  assumes "Buffer_wf b" "length src \<le> max_size"
  shows "Buffer_append src b = Inl Length_error \<and> length (storage b) + length src > max_size \<or>
    (\<exists>c. Buffer_append src b = Inr c \<and> Buffer_wf c \<and> Buffer_contents c = Buffer_contents b @ src \<and>
       length (storage c) \<le> length (storage b) + length src)"
  using assms by (rule append_spec)

theorem Buffer_append_refines_witness:
  "\<exists>c. Buffer_append [7, 8] example_buffer = Inr c \<and> Buffer_contents c = [2, 3, 7, 8]"
  using Buffer_append_refines [of example_buffer "[7, 8]"] by (auto simp: max_size_def)

text \<open>C6: Any sequence of appends and reads, started on a well-formed buffer with room for all the
  appended bytes below the vector limit, runs to its end without an error, and the bytes it
  returns followed by the bytes left in the buffer are the bytes held at the start followed by the
  bytes appended: none is lost, duplicated or reordered.\<close>

theorem Buffer_stream_integrity:
  assumes "Buffer_wf b" "length (storage b) + length (queue_input ops) \<le> max_size"
  shows "\<exists>out c. queue_run Buffer_append Buffer_readAsString ops b = Inr (out, c) \<and> Buffer_wf c \<and>
    out @ Buffer_contents c = Buffer_contents b @ queue_input ops"
  using buf.run_stream [of b ops] assms by simp

theorem Buffer_stream_integrity_witness:
  "\<exists>out c. queue_run Buffer_append Buffer_readAsString [Put [9, 9], Get 3, Put [5]] example_buffer
      = Inr (out, c) \<and> out @ Buffer_contents c = [2, 3, 9, 9, 5]"
  using Buffer_stream_integrity [of example_buffer "[Put [9, 9], Get 3, Put [5]]"]
  by (auto simp: max_size_def)

text \<open>C15: For a readv that delivers no more than the two segments hold, readFd on a well-formed
  buffer reports a failed read with its errno and leaves the buffer alone, and otherwise adds
  exactly the delivered bytes, in order, whether they fit the free part of the vector or spill into
  the stack buffer; the only other outcome is length_error near the vector limit.\<close>

theorem Buffer_readFd_refines:
  assumes "Buffer_wf b" "readv_contract readv"
  shows "case readv [length (storage b) - write_index b, STACK_BUFFER_SIZE] of
      Readv_failed e \<Rightarrow> Buffer_readFd readv b = Inr (-1, Some e, b)
    | Readv_bytes bs \<Rightarrow>
        Buffer_readFd readv b = Inl Length_error \<and> length (storage b) + STACK_BUFFER_SIZE > max_size \<or>
        (\<exists>c. Buffer_readFd readv b = Inr (int (length bs), None, c) \<and> Buffer_wf c \<and>
           Buffer_contents c = Buffer_contents b @ bs)"
  using assms by (rule readFd_spec)

definition example_readv :: "nat list \<Rightarrow> readv_result" where
  "example_readv lens = Readv_bytes (take (sum_list lens) [10, 11, 12])"

theorem Buffer_readFd_refines_witness:
  "\<exists>c. Buffer_readFd example_readv example_buffer = Inr (3, None, c) \<and>
     Buffer_contents c = [2, 3, 10, 11, 12]"
proof -
  have "readv_contract example_readv" by (simp add: readv_contract_def example_readv_def)
  from Buffer_readFd_refines [OF example_buffer_facts(1) this] show ?thesis
    by (auto simp: example_readv_def STACK_BUFFER_SIZE_def max_size_def)
qed

text \<open>An integer of any of the three widths written to an empty well-formed buffer with room is
  the integer that peeking at that width returns, whatever the byte order of the host.\<close>

theorem Buffer_writeInt_peekInt:
  assumes "Buffer_wf b" "Buffer_contents b = []" "length (storage b) + 4 \<le> max_size"
  shows "(\<exists>c. Buffer_writeInt8 e x b = Inr c \<and> Buffer_peekInt8 e c = Inr x) \<and>
    (\<exists>c. Buffer_writeInt16 e y b = Inr c \<and> Buffer_peekInt16 e c = Inr y) \<and>
    (\<exists>c. Buffer_writeInt32 e z b = Inr c \<and> Buffer_peekInt32 e c = Inr z)"
proof (intro conjI)
  have room: "\<exists>c. Buffer_append bs b = Inr c \<and> Buffer_wf c \<and> Buffer_contents c = bs"
    if "length bs \<le> 4" for bs
    using buf.put_room [OF assms(1), of bs] assms that by auto
  have "unat x < 2 ^ LENGTH(8)" "unat y < 2 ^ LENGTH(16)" "unat z < 2 ^ LENGTH(32)"
    by (rule unsigned_less)+
  then have small: "unat x < 256" "unat y < 256 ^ 2" "unat z < 256 ^ 4" by simp_all
  show "\<exists>c. Buffer_writeInt8 e x b = Inr c \<and> Buffer_peekInt8 e c = Inr x"
    using room [of "mem_bytes e 1 (unat x)"] mem_nat_mem_bytes [of e 1 "unat x"] small
    by (force simp: Buffer_writeInt8_def peekInt8_spec)
  show "\<exists>c. Buffer_writeInt16 e y b = Inr c \<and> Buffer_peekInt16 e c = Inr y"
    using room [of "mem_bytes e 2 (unat y)"] small by (force simp: Buffer_writeInt16_def peekInt16_spec)
  show "\<exists>c. Buffer_writeInt32 e z b = Inr c \<and> Buffer_peekInt32 e c = Inr z"
    using room [of "mem_bytes e 4 (unat z)"] small by (force simp: Buffer_writeInt32_def peekInt32_spec)
qed

definition empty_buffer :: buffer where
  "empty_buffer = \<lparr>init_size = 4, storage = [0, 0, 0, 0], read_index = 0, write_index = 0\<rparr>"

lemma empty_buffer_facts [simp]:
  "Buffer_wf empty_buffer" "Buffer_contents empty_buffer = []" "length (storage empty_buffer) = 4"
  by (simp_all add: empty_buffer_def Buffer_wf_def Buffer_contents_def max_size_def)

theorem Buffer_writeInt_peekInt_witness:
  "\<exists>c. Buffer_writeInt16 Big 0x1234 empty_buffer = Inr c \<and> Buffer_peekInt16 Big c = Inr 0x1234"
proof -
  have "length (storage empty_buffer) + 4 \<le> max_size" by (simp add: max_size_def)
  from Buffer_writeInt_peekInt [OF empty_buffer_facts(1,2) this, of Big 0 "0x1234" 0]
  show ?thesis by blast
qed

text \<open>readInt8, readInt16 and readInt32 advance the read index before they look: on a
  well-formed buffer with enough bytes they drop the first integer unread and return the bytes
  that follow it, or 0 when too few follow, and readInt32 advances by two bytes only.\<close>

theorem Buffer_readInt_skips_first:
  assumes "Buffer_wf b" "4 \<le> length (Buffer_contents b)"
  shows "(\<exists>c. Buffer_readInt8 e b = Inr (of_nat (mem_nat e (take 1 (drop 1 (Buffer_contents b)))), c) \<and>
      Buffer_contents c = drop 1 (Buffer_contents b)) \<and>
    (\<exists>c. Buffer_readInt16 e b = Inr (of_nat (mem_nat e (take 2 (drop 2 (Buffer_contents b)))), c) \<and>
      Buffer_contents c = drop 2 (Buffer_contents b)) \<and>
    (\<exists>c. Buffer_readInt32 e b = Inr (if length (Buffer_contents b) < 6 then 0
        else of_nat (mem_nat e (take 4 (drop 2 (Buffer_contents b)))), c) \<and>
      Buffer_contents c = drop 2 (Buffer_contents b))"
proof -
  have "1 \<le> length (Buffer_contents b)" "2 \<le> length (Buffer_contents b)" using assms(2) by simp_all
  then show ?thesis
    using readInt8_spec [OF assms(1), of e] readInt16_spec [OF assms(1), of e]
      readInt32_spec [OF assms, of e] assms(2) by auto
qed

definition int_buffer :: buffer where
  "int_buffer = \<lparr>init_size = 4, storage = [11, 22, 0, 33, 0, 0, 0], read_index = 0, write_index = 7\<rparr>"

text \<open>The buffer after writing 11, 22 and 33 at the three widths: the first byte read back is 22.\<close>

theorem Buffer_readInt_skips_first_witness:
  "\<exists>c. Buffer_readInt8 Little int_buffer = Inr (22, c) \<and> Buffer_contents c = [22, 0, 33, 0, 0, 0]"
proof -
  have wf: "Buffer_wf int_buffer" "4 \<le> length (Buffer_contents int_buffer)"
    and c: "Buffer_contents int_buffer = [11, 22, 0, 33, 0, 0, 0]"
    by (simp_all add: int_buffer_def Buffer_wf_def Buffer_contents_def max_size_def)
  from Buffer_readInt_skips_first [OF wf, of Little] show ?thesis
    unfolding c by (simp add: mem_nat_def)
qed

text \<open>Copying a buffer copies its bytes and indices, whereas moving from a buffer that holds
  bytes leaves the source malformed: its indices still span bytes that its emptied vector no longer
  has, and reading them is an access outside the vector.\<close>

theorem Buffer_copy_and_move:
  assumes "Buffer_wf b" "Buffer_contents b \<noteq> []"
  shows "Buffer_copy b = b \<and> Buffer_assign same c b = (if same then c else b) \<and>
    fst (Buffer_move b) = b \<and>
    \<not> Buffer_wf (snd (Buffer_move b)) \<and> Buffer_readAllAsString (snd (Buffer_move b)) = Inl Out_of_bounds"
proof -
  have "0 < length (Buffer_contents b)" using assms(2) by simp
  then have "read_index b < write_index b" using length_contents [OF assms(1)] by simp
  moreover have "write_index b < 2 ^ 64" using Buffer_wf_sizes [OF assms(1)] by simp
  ultimately show ?thesis
    by (simp add: Buffer_copy_def Buffer_assign_def Buffer_move_def Buffer_wf_def
        Buffer_readAllAsString_def Buffer_readAsString_def Buffer_readableBytes_def)
qed

theorem Buffer_copy_and_move_witness:
  "Buffer_readAllAsString (snd (Buffer_move example_buffer)) = Inl Out_of_bounds"
  using Buffer_copy_and_move [of example_buffer True example_buffer] by simp

end
