(* ===== verification/Channel.thy ===== *)
theory Channel
  imports Bounce_Prelude
begin

text \<open>
  The channel of \<^verbatim>\<open>bounce/channel.h\<close> and \<^verbatim>\<open>bounce/channel.cc\<close>: a file descriptor, the
  events it waits for, the events that arrived, its place in the poller, and four callbacks.
  Callbacks are values of an abstract type; calling one is a parameter of
  \<open>Channel_handleChannel\<close>. Shown here: the event masks and that dispatching calls exactly the
  callbacks whose events arrived, in the order close, error, read, write.
\<close>

unbundle bit_operations_syntax

section \<open>Event masks\<close>

type_synonym events = "16 word"

text \<open>The bits of \<^verbatim>\<open>poll.h\<close> on Linux.\<close>

definition POLLIN :: events where "POLLIN = 0x001"
definition POLLPRI :: events where "POLLPRI = 0x002"
definition POLLOUT :: events where "POLLOUT = 0x004"
definition POLLERR :: events where "POLLERR = 0x008"
definition POLLHUP :: events where "POLLHUP = 0x010"
definition POLLNVAL :: events where "POLLNVAL = 0x020"
definition POLLRDHUP :: events where "POLLRDHUP = 0x2000"

definition kNoneEvent :: events where "kNoneEvent = 0"
definition kReadEvent :: events where "kReadEvent = POLLIN OR POLLPRI"
definition kWriteEvent :: events where "kWriteEvent = POLLOUT"

section \<open>State and accessors\<close>

record 'cb channel =
  ch_fd :: fd
  ch_events :: events
  ch_revents :: events
  ch_index :: nat
  ch_read_cb :: "'cb option"
  ch_write_cb :: "'cb option"
  ch_close_cb :: "'cb option"
  ch_error_cb :: "'cb option"

definition Channel_new :: "fd \<Rightarrow> 'cb channel" where
  "Channel_new f = \<lparr>ch_fd = f, ch_events = 0, ch_revents = 0, ch_index = 0,
     ch_read_cb = None, ch_write_cb = None, ch_close_cb = None, ch_error_cb = None\<rparr>"

definition Channel_setRevents :: "events \<Rightarrow> 'cb channel \<Rightarrow> 'cb channel" where
  "Channel_setRevents e ch = ch\<lparr>ch_revents := e\<rparr>"

definition Channel_setReadCallback :: "'cb \<Rightarrow> 'cb channel \<Rightarrow> 'cb channel" where
  "Channel_setReadCallback cb ch = ch\<lparr>ch_read_cb := Some cb\<rparr>"

definition Channel_setWriteCallback :: "'cb \<Rightarrow> 'cb channel \<Rightarrow> 'cb channel" where
  "Channel_setWriteCallback cb ch = ch\<lparr>ch_write_cb := Some cb\<rparr>"

definition Channel_setCloseCallback :: "'cb \<Rightarrow> 'cb channel \<Rightarrow> 'cb channel" where
  "Channel_setCloseCallback cb ch = ch\<lparr>ch_close_cb := Some cb\<rparr>"

definition Channel_setErrorCallback :: "'cb \<Rightarrow> 'cb channel \<Rightarrow> 'cb channel" where
  "Channel_setErrorCallback cb ch = ch\<lparr>ch_error_cb := Some cb\<rparr>"

definition Channel_setIndex :: "nat \<Rightarrow> 'cb channel \<Rightarrow> 'cb channel" where
  "Channel_setIndex i ch = ch\<lparr>ch_index := i\<rparr>"

definition Channel_isWriting :: "'cb channel \<Rightarrow> bool" where
  "Channel_isWriting ch \<longleftrightarrow> ch_events ch AND kWriteEvent \<noteq> 0"

definition Channel_isReading :: "'cb channel \<Rightarrow> bool" where
  "Channel_isReading ch \<longleftrightarrow> ch_events ch AND kReadEvent \<noteq> 0"

definition Channel_isNoneEvent :: "'cb channel \<Rightarrow> bool" where
  "Channel_isNoneEvent ch \<longleftrightarrow> ch_events ch = kNoneEvent"

section \<open>Changing the events\<close>

text \<open>The assignments to \<^verbatim>\<open>events_\<close>; the call of \<^verbatim>\<open>update()\<close> that follows each of them
  goes to the poller and is added in the theory of the poller.\<close>

definition enable_reading :: "events \<Rightarrow> events" where
  "enable_reading e = e OR kReadEvent"

definition disable_reading :: "events \<Rightarrow> events" where
  "disable_reading e = e AND NOT kReadEvent"

definition enable_writing :: "events \<Rightarrow> events" where
  "enable_writing e = e OR kWriteEvent"

definition disable_writing :: "events \<Rightarrow> events" where
  "disable_writing e = e AND NOT kWriteEvent"

definition disable_all :: "events \<Rightarrow> events" where
  "disable_all e = kNoneEvent"

section \<open>Dispatching\<close>

definition call_if_set :: "('cb \<Rightarrow> time option \<Rightarrow> 's \<Rightarrow> 's res) \<Rightarrow> 'cb option \<Rightarrow> time option \<Rightarrow> 's \<Rightarrow> 's res" where
  "call_if_set call cb arg s = (case cb of None \<Rightarrow> Inr s | Some f \<Rightarrow> call f arg s)"

text \<open>
  The channel is read from the state before each test, since a callback may change it. The read
  callback gets the time of the poll, the others no argument.
\<close>

definition Channel_handleChannel ::
  "('s \<Rightarrow> 'cb channel) \<Rightarrow> ('cb \<Rightarrow> time option \<Rightarrow> 's \<Rightarrow> 's res) \<Rightarrow> time \<Rightarrow> 's \<Rightarrow> 's res" where
  "Channel_handleChannel chan call recv_time s =
     res_bind
       (if ch_revents (chan s) AND POLLHUP \<noteq> 0 \<and> ch_revents (chan s) AND POLLIN = 0
        then call_if_set call (ch_close_cb (chan s)) None s else Inr s) (\<lambda>s.
     res_bind
       (if ch_revents (chan s) AND (POLLERR OR POLLNVAL) \<noteq> 0
        then call_if_set call (ch_error_cb (chan s)) None s else Inr s) (\<lambda>s.
     res_bind
       (if ch_revents (chan s) AND (POLLIN OR POLLPRI OR POLLRDHUP) \<noteq> 0
        then call_if_set call (ch_read_cb (chan s)) (Some recv_time) s else Inr s) (\<lambda>s.
     if ch_revents (chan s) AND POLLOUT \<noteq> 0
     then call_if_set call (ch_write_cb (chan s)) None s else Inr s)))"

text \<open>The specification: the callbacks to call, in order, for a channel that stays as it is.\<close>

definition opt_call :: "bool \<Rightarrow> 'cb option \<Rightarrow> time option \<Rightarrow> ('cb \<times> time option) list" where
  "opt_call b cb arg = (case cb of None \<Rightarrow> [] | Some f \<Rightarrow> if b then [(f, arg)] else [])"

definition Channel_calls :: "'cb channel \<Rightarrow> time \<Rightarrow> ('cb \<times> time option) list" where
  "Channel_calls ch t =
     (let r = ch_revents ch in
      opt_call (r AND POLLHUP \<noteq> 0 \<and> r AND POLLIN = 0) (ch_close_cb ch) None @
      opt_call (r AND (POLLERR OR POLLNVAL) \<noteq> 0) (ch_error_cb ch) None @
      opt_call (r AND (POLLIN OR POLLPRI OR POLLRDHUP) \<noteq> 0) (ch_read_cb ch) (Some t) @
      opt_call (r AND POLLOUT \<noteq> 0) (ch_write_cb ch) None)"

definition same_dispatch :: "'cb channel \<Rightarrow> 'cb channel \<Rightarrow> bool" where
  "same_dispatch a b \<longleftrightarrow> ch_revents a = ch_revents b \<and> ch_read_cb a = ch_read_cb b \<and>
     ch_write_cb a = ch_write_cb b \<and> ch_close_cb a = ch_close_cb b \<and> ch_error_cb a = ch_error_cb b"

section \<open>Lemmas\<close>

lemmas poll_bits = POLLIN_def POLLPRI_def POLLOUT_def POLLERR_def POLLHUP_def POLLNVAL_def
  POLLRDHUP_def kNoneEvent_def kReadEvent_def kWriteEvent_def

lemma setIndex_simps [simp]:
  "ch_index (Channel_setIndex i ch) = i" "ch_fd (Channel_setIndex i ch) = ch_fd ch"
  "ch_events (Channel_setIndex i ch) = ch_events ch"
  by (simp_all add: Channel_setIndex_def)

lemma isWriting_enable [simp]: "enable_writing e AND kWriteEvent \<noteq> 0"
  by (simp add: enable_writing_def poll_bits bit.conj_disj_distrib2)

lemma isWriting_disable [simp]: "disable_writing e AND kWriteEvent = 0"
  by (simp add: disable_writing_def and.assoc)

lemma isReading_disable [simp]: "disable_reading e AND kReadEvent = 0"
  by (simp add: disable_reading_def and.assoc)

lemma read_write_disjoint: "kReadEvent AND kWriteEvent = 0"
  by (simp add: poll_bits)

lemma isWriting_enable_reading [simp]: "enable_reading e AND kWriteEvent = e AND kWriteEvent"
  by (simp add: enable_reading_def bit.conj_disj_distrib2 read_write_disjoint)

lemma isReading_enable_writing [simp]: "enable_writing e AND kReadEvent = e AND kReadEvent"
  by (simp add: enable_writing_def bit.conj_disj_distrib2 and.commute [of kWriteEvent] read_write_disjoint)

lemma isReading_enable [simp]: "enable_reading e AND kReadEvent = kReadEvent"
  by (simp add: enable_reading_def bit.conj_disj_distrib2)

lemma opt_call_fold:
  "res_fold (\<lambda>(f, arg). call f arg) (opt_call b cb arg) s =
     (if b then call_if_set call cb arg s else Inr s)"
  by (simp add: opt_call_def call_if_set_def res_bind_def split: option.split sum.split)

lemma same_dispatch_refl [simp]: "same_dispatch a a"
  by (simp add: same_dispatch_def)

lemma guarded_call_dispatch:
  assumes "\<And>f arg s s'. call f arg s = Inr s' \<Longrightarrow> same_dispatch (chan s') (chan s)"
    and "(if b then call_if_set call cb arg s else Inr s) = Inr s'"
  shows "same_dispatch (chan s') (chan s)"
  using assms by (auto simp: call_if_set_def split: option.splits if_splits)

lemma handleChannel_calls:
  assumes frame: "\<And>f arg s s'. call f arg s = Inr s' \<Longrightarrow> same_dispatch (chan s') (chan s)"
  shows "Channel_handleChannel chan call t s =
    res_fold (\<lambda>(f, arg). call f arg) (Channel_calls (chan s) t) s"
proof -
  let ?c = "chan s" and ?g = "\<lambda>b cb arg s. if b then call_if_set call cb arg s else Inr s"
  have keep: "same_dispatch (chan s2) ?c" if "?g b cb arg s1 = Inr s2" "same_dispatch (chan s1) ?c"
    for b cb arg s1 s2
    using guarded_call_dispatch [of call chan b cb arg s1 s2] frame that by (auto simp: same_dispatch_def)
  have read: "res_bind (?g (ch_revents (chan s2) AND (POLLIN OR POLLPRI OR POLLRDHUP) \<noteq> 0) (ch_read_cb (chan s2)) (Some t) s2)
        (\<lambda>s. ?g (ch_revents (chan s) AND POLLOUT \<noteq> 0) (ch_write_cb (chan s)) None s) =
      res_bind (?g (ch_revents ?c AND (POLLIN OR POLLPRI OR POLLRDHUP) \<noteq> 0) (ch_read_cb ?c) (Some t) s2)
        (?g (ch_revents ?c AND POLLOUT \<noteq> 0) (ch_write_cb ?c) None)"
    if d: "same_dispatch (chan s2) ?c" for s2
  proof (rule res_bind_cong2)
    fix s3
    assume "?g (ch_revents ?c AND (POLLIN OR POLLPRI OR POLLRDHUP) \<noteq> 0) (ch_read_cb ?c) (Some t) s2 = Inr s3"
    from keep [OF this d] show "?g (ch_revents (chan s3) AND POLLOUT \<noteq> 0) (ch_write_cb (chan s3)) None s3 =
        ?g (ch_revents ?c AND POLLOUT \<noteq> 0) (ch_write_cb ?c) None s3"
      by (simp add: same_dispatch_def)
  qed (use d in \<open>simp add: same_dispatch_def\<close>)
  have error: "res_bind (?g (ch_revents (chan s1) AND (POLLERR OR POLLNVAL) \<noteq> 0) (ch_error_cb (chan s1)) None s1)
        (\<lambda>s. res_bind (?g (ch_revents (chan s) AND (POLLIN OR POLLPRI OR POLLRDHUP) \<noteq> 0) (ch_read_cb (chan s)) (Some t) s)
          (\<lambda>s. ?g (ch_revents (chan s) AND POLLOUT \<noteq> 0) (ch_write_cb (chan s)) None s)) =
      res_bind (?g (ch_revents ?c AND (POLLERR OR POLLNVAL) \<noteq> 0) (ch_error_cb ?c) None s1)
        (\<lambda>s2. res_bind (?g (ch_revents ?c AND (POLLIN OR POLLPRI OR POLLRDHUP) \<noteq> 0) (ch_read_cb ?c) (Some t) s2)
          (?g (ch_revents ?c AND POLLOUT \<noteq> 0) (ch_write_cb ?c) None))"
    if d: "same_dispatch (chan s1) ?c" for s1
  proof (rule res_bind_cong2)
    show "?g (ch_revents (chan s1) AND (POLLERR OR POLLNVAL) \<noteq> 0) (ch_error_cb (chan s1)) None s1 =
        ?g (ch_revents ?c AND (POLLERR OR POLLNVAL) \<noteq> 0) (ch_error_cb ?c) None s1"
      using d by (simp add: same_dispatch_def)
  qed (rule read, rule keep, assumption, rule d)
  show ?thesis
    unfolding Channel_handleChannel_def Channel_calls_def Let_def res_fold_append opt_call_fold
    by (rule res_bind_cong, rule error, rule keep, assumption, rule same_dispatch_refl)
qed

section \<open>Properties\<close>

text \<open>C14: When the callbacks leave the arrived events and the callback slots of the channel alone,
  handling a channel calls exactly the set callbacks whose events arrived, each once and in the order
  close, error, read, write; the close callback is skipped while there is still data to read.\<close>

theorem Channel_handleChannel_dispatch:
  assumes frame: "\<And>f arg s s'. call f arg s = Inr s' \<Longrightarrow> same_dispatch (chan s') (chan s)"
  shows "Channel_handleChannel chan call t s =
    res_fold (\<lambda>(f, arg). call f arg) (Channel_calls (chan s) t) s"
  using frame by (rule handleChannel_calls)

definition example_channel :: "nat channel" where
  "example_channel = (Channel_new 7)\<lparr>ch_revents := POLLHUP OR POLLOUT,
     ch_close_cb := Some 1, ch_read_cb := Some 2, ch_write_cb := Some 3\<rparr>"

text \<open>A state that pairs the channel with a log of the calls.\<close>

definition log_call :: "nat \<Rightarrow> time option \<Rightarrow> nat channel \<times> nat list \<Rightarrow> (nat channel \<times> nat list) res" where
  "log_call f arg s = Inr (fst s, snd s @ [f])"

theorem Channel_handleChannel_dispatch_witness:
  "Channel_handleChannel fst log_call 0 (example_channel, []) = Inr (example_channel, [1, 3])"
proof -
  have "same_dispatch (fst s') (fst s)" if "log_call f arg s = Inr s'" for f arg s s'
    using that by (auto simp: log_call_def)
  then have eq: "Channel_handleChannel fst log_call 0 (example_channel, []) =
      res_fold (\<lambda>(f, arg). log_call f arg) (Channel_calls example_channel 0) (example_channel, [])"
    using Channel_handleChannel_dispatch [where chan = fst and call = log_call] by fastforce
  have "Channel_calls example_channel 0 = [(1, None), (3, None)]"
    by (simp add: Channel_calls_def opt_call_def example_channel_def Channel_new_def poll_bits)
  then show ?thesis using eq by (simp add: log_call_def)
qed

end
