(* ===== verification/Poll_Poller.thy ===== *)
theory Poll_Poller
  imports Channel
begin

text \<open>
  The pollers of \<^verbatim>\<open>bounce/poller.h\<close> (the abstract class) and
  \<^verbatim>\<open>bounce/poll_poller.h\<close>, \<^verbatim>\<open>bounce/poll_poller.cc\<close> (its implementation over
  \<^verbatim>\<open>poll\<close>), with the channel operations that go through the poller. Channels live in a
  store of objects; the poller maps file descriptors to them and keeps a vector of
  \<^verbatim>\<open>pollfd\<close> entries, each channel knowing its index in it. The abstract class is the locale
  \<open>poller\<close>, interpreted by the implementation. Shown here: registration and removal keep the
  vector, the map and the indices consistent, when removal dereferences a null pointer, and that
  polling activates exactly the channels with arrived events.
\<close>

section \<open>State\<close>

record pollfd =
  pfd_fd :: fd
  pfd_events :: events
  pfd_revents :: events

type_synonym chan_id = nat

record 'cb poll_poller =
  pp_objs :: "chan_id \<Rightarrow> 'cb channel option"
  pp_map :: "fd \<Rightarrow> chan_id option"
  pp_fds :: "pollfd list"

definition PollPoller_new :: "(chan_id \<Rightarrow> 'cb channel option) \<Rightarrow> 'cb poll_poller" where
  "PollPoller_new objs = \<lparr>pp_objs = objs, pp_map = Map.empty, pp_fds = []\<rparr>"

section \<open>Registration\<close>

definition PollPoller_updateChannel :: "chan_id \<Rightarrow> 'cb poll_poller \<Rightarrow> 'cb poll_poller res" where
  "PollPoller_updateChannel c p =
     (case pp_objs p c of
        None \<Rightarrow> Inl Null_deref
      | Some ch \<Rightarrow>
          (if pp_map p (ch_fd ch) \<noteq> None then
             (if ch_index ch < length (pp_fds p) then
                Inr (p\<lparr>pp_fds := (pp_fds p)[ch_index ch :=
                  \<lparr>pfd_fd = (if Channel_isNoneEvent ch then - ch_fd ch - 1 else ch_fd ch),
                   pfd_events = ch_events ch, pfd_revents = 0\<rparr>]\<rparr>)
              else Inl Out_of_bounds)
           else
             Inr (p\<lparr>pp_map := (pp_map p)(ch_fd ch \<mapsto> c),
                    pp_fds := pp_fds p @ [\<lparr>pfd_fd = ch_fd ch, pfd_events = ch_events ch, pfd_revents = 0\<rparr>],
                    pp_objs := (pp_objs p)(c \<mapsto> Channel_setIndex (length (pp_fds p)) ch)\<rparr>)))"

text \<open>
  Removal: the last entry takes the place of the removed one. The channel of the last entry is
  found through \<^verbatim>\<open>channels_[pollfds_[last].fd]\<close>; for a descriptor that is not in the map
  that expression makes a null entry, and \<^verbatim>\<open>setIndex\<close> is called on it.
\<close>

definition PollPoller_removeChannel :: "chan_id \<Rightarrow> 'cb poll_poller \<Rightarrow> 'cb poll_poller res" where
  "PollPoller_removeChannel c p =
     (case pp_objs p c of
        None \<Rightarrow> Inl Null_deref
      | Some ch \<Rightarrow>
          (case pp_map p (ch_fd ch) of
             None \<Rightarrow> Inr p
           | Some _ \<Rightarrow>
               (let m = (pp_map p)(ch_fd ch := None);
                    idx = ch_index ch;
                    last_i = sz_sub (length (pp_fds p)) 1
                in if idx \<noteq> last_i then
                     (if last_i \<ge> length (pp_fds p) then Inl Out_of_bounds
                      else case m (pfd_fd (pp_fds p ! last_i)) of
                        None \<Rightarrow> Inl Null_deref
                      | Some c' \<Rightarrow>
                          (case pp_objs p c' of
                             None \<Rightarrow> Inl Null_deref
                           | Some ch' \<Rightarrow>
                               (if idx \<ge> length (pp_fds p) then Inl Out_of_bounds
                                else Inr (p\<lparr>pp_map := m,
                                  pp_objs := (pp_objs p)(c' \<mapsto> Channel_setIndex idx ch'),
                                  pp_fds := butlast ((pp_fds p)[idx := pp_fds p ! last_i,
                                                                last_i := pp_fds p ! idx])\<rparr>))))
                   else if pp_fds p = [] then Inl Out_of_bounds
                   else Inr (p\<lparr>pp_map := m, pp_fds := butlast (pp_fds p)\<rparr>))))"

section \<open>Channel operations that update the poller\<close>

definition Channel_update :: "chan_id \<Rightarrow> 'cb poll_poller \<Rightarrow> 'cb poll_poller res" where
  "Channel_update c p = PollPoller_updateChannel c p"

definition Channel_remove :: "chan_id \<Rightarrow> 'cb poll_poller \<Rightarrow> 'cb poll_poller res" where
  "Channel_remove c p = PollPoller_removeChannel c p"

definition change_events :: "(events \<Rightarrow> events) \<Rightarrow> chan_id \<Rightarrow> 'cb poll_poller \<Rightarrow> 'cb poll_poller res" where
  "change_events f c p =
     (case pp_objs p c of
        None \<Rightarrow> Inl Null_deref
      | Some ch \<Rightarrow>
          Channel_update c (p\<lparr>pp_objs := (pp_objs p)(c \<mapsto> ch\<lparr>ch_events := f (ch_events ch)\<rparr>)\<rparr>))"

definition Channel_enableReading :: "chan_id \<Rightarrow> 'cb poll_poller \<Rightarrow> 'cb poll_poller res" where
  "Channel_enableReading = change_events enable_reading"

definition Channel_disableReading :: "chan_id \<Rightarrow> 'cb poll_poller \<Rightarrow> 'cb poll_poller res" where
  "Channel_disableReading = change_events disable_reading"

definition Channel_enableWriting :: "chan_id \<Rightarrow> 'cb poll_poller \<Rightarrow> 'cb poll_poller res" where
  "Channel_enableWriting = change_events enable_writing"

definition Channel_disableWriting :: "chan_id \<Rightarrow> 'cb poll_poller \<Rightarrow> 'cb poll_poller res" where
  "Channel_disableWriting = change_events disable_writing"

definition Channel_disableAll :: "chan_id \<Rightarrow> 'cb poll_poller \<Rightarrow> 'cb poll_poller res" where
  "Channel_disableAll = change_events disable_all"

section \<open>Polling\<close>

text \<open>
  The loop over the entries after \<^verbatim>\<open>poll\<close> returned: \<open>count\<close> is never incremented in the
  source, so it stays an argument of the loop.
\<close>

fun fill_active :: "int \<Rightarrow> int \<Rightarrow> pollfd list \<Rightarrow> 'cb poll_poller \<Rightarrow> chan_id list \<Rightarrow> ('cb poll_poller \<times> chan_id list) res" where
  "fill_active r_num count [] p active = Inr (p, active)"
| "fill_active r_num count (e # es) p active =
     (if count \<ge> r_num then Inr (p, active)
      else if sint (pfd_revents e) > 0 then
        (case pp_map p (pfd_fd e) of
           None \<Rightarrow> Inl Null_deref
         | Some c \<Rightarrow>
             (case pp_objs p c of
                None \<Rightarrow> Inl Null_deref
              | Some ch \<Rightarrow>
                  fill_active r_num count es
                    (p\<lparr>pp_objs := (pp_objs p)(c \<mapsto> Channel_setRevents (pfd_revents e) ch)\<rparr>)
                    (active @ [c])))
      else fill_active r_num count es p active)"

text \<open>The system call gets the entries and gives its return value and the entries with the
  arrived events; the clock gives the returned time.\<close>

definition PollPoller_poll ::
  "(pollfd list \<Rightarrow> int \<times> pollfd list) \<Rightarrow> time \<Rightarrow> 'cb poll_poller \<Rightarrow> chan_id list \<Rightarrow> (time \<times> 'cb poll_poller \<times> chan_id list) res" where
  "PollPoller_poll sys_poll now p active =
     (let (r_num, fds) = sys_poll (pp_fds p); p = p\<lparr>pp_fds := fds\<rparr> in
      res_bind (if r_num > 0 then fill_active r_num 0 fds p active else Inr (p, active))
        (\<lambda>(p, active). Inr (now, p, active)))"

section \<open>Invariant\<close>

definition pfd_for :: "fd \<Rightarrow> pollfd \<Rightarrow> bool" where
  "pfd_for f e \<longleftrightarrow> pfd_fd e = f \<or> pfd_fd e = - f - 1"

definition registered_at :: "'cb poll_poller \<Rightarrow> fd \<Rightarrow> chan_id \<Rightarrow> 'cb channel \<Rightarrow> bool" where
  "registered_at p f c ch \<longleftrightarrow> pp_map p f = Some c \<and> pp_objs p c = Some ch \<and> ch_fd ch = f"

definition PollPoller_wf :: "'cb poll_poller \<Rightarrow> bool" where
  "PollPoller_wf p \<longleftrightarrow>
     (\<forall>f c. pp_map p f = Some c \<longrightarrow> 0 \<le> f \<and>
        (\<exists>ch. registered_at p f c ch \<and> ch_index ch < length (pp_fds p) \<and>
           pfd_for f (pp_fds p ! ch_index ch))) \<and>
     (\<forall>i < length (pp_fds p). \<exists>f c ch. registered_at p f c ch \<and> ch_index ch = i) \<and>
     length (pp_fds p) < 2 ^ 63"

text \<open>The entry of the vector that belongs to a descriptor.\<close>

definition entry_of :: "'cb poll_poller \<Rightarrow> fd \<Rightarrow> pollfd option" where
  "entry_of p f =
     (case pp_map p f of None \<Rightarrow> None
      | Some c \<Rightarrow> (case pp_objs p c of None \<Rightarrow> None | Some ch \<Rightarrow> Some (pp_fds p ! ch_index ch)))"

text \<open>The channel \<open>c\<close> may use descriptor \<open>f\<close>: it is its own and no other channel has it.\<close>

definition owns :: "chan_id \<Rightarrow> fd \<Rightarrow> 'cb poll_poller \<Rightarrow> bool" where
  "owns c f p \<longleftrightarrow> 0 \<le> f \<and> map_option ch_fd (pp_objs p c) = Some f \<and>
     (pp_map p f = None \<or> pp_map p f = Some c)"

text \<open>Removal of \<open>c\<close> can find the channel of the last entry: it is \<open>c\<close> itself, or an enabled one.\<close>

definition removable :: "chan_id \<Rightarrow> 'cb poll_poller \<Rightarrow> bool" where
  "removable c p \<longleftrightarrow> pp_fds p \<noteq> [] \<and>
     (map_option ch_index (pp_objs p c) = Some (length (pp_fds p) - 1) \<or> 0 \<le> pfd_fd (last (pp_fds p)))"

text \<open>The documented behaviour of \<^verbatim>\<open>poll\<close>: it changes only the arrived events, reports
  none for a negative descriptor, and returns the number of entries with arrived events.\<close>

definition poll_contract :: "(pollfd list \<Rightarrow> int \<times> pollfd list) \<Rightarrow> bool" where
  "poll_contract sys_poll \<longleftrightarrow>
     (\<forall>fds r fds'. sys_poll fds = (r, fds') \<longrightarrow>
        map (\<lambda>e. (pfd_fd e, pfd_events e)) fds' = map (\<lambda>e. (pfd_fd e, pfd_events e)) fds \<and>
        (\<forall>e\<in>set fds'. pfd_fd e < 0 \<longrightarrow> pfd_revents e = 0) \<and>
        (0 \<le> r \<longrightarrow> r = int (length (filter (\<lambda>e. pfd_revents e \<noteq> 0) fds'))))"

section \<open>The abstract class\<close>

locale poller =
  fixes wf :: "'p \<Rightarrow> bool"
    and may_use :: "'c \<Rightarrow> fd \<Rightarrow> 'p \<Rightarrow> bool"
    and may_remove :: "'c \<Rightarrow> 'p \<Rightarrow> bool"
    and channels :: "'p \<Rightarrow> fd \<Rightarrow> 'c option"
    and updateChannel :: "'c \<Rightarrow> 'p \<Rightarrow> 'p res"
    and removeChannel :: "'c \<Rightarrow> 'p \<Rightarrow> 'p res"
    and room :: "'p \<Rightarrow> nat"
  assumes update_ok: "wf p \<Longrightarrow> may_use c f p \<Longrightarrow> 0 < room p \<Longrightarrow>
      \<exists>q. updateChannel c p = Inr q \<and> wf q \<and> channels q = (channels p)(f \<mapsto> c) \<and> room p - 1 \<le> room q \<and>
        (\<forall>c' f'. may_use c' f' p \<longrightarrow> f' \<noteq> f \<longrightarrow> may_use c' f' q)"
    and remove_ok: "wf p \<Longrightarrow> may_use c f p \<Longrightarrow> channels p f = Some c \<Longrightarrow> may_remove c p \<Longrightarrow>
      \<exists>q. removeChannel c p = Inr q \<and> wf q \<and> channels q = (channels p)(f := None)"
begin

text \<open>Registering channels with different descriptors, one after the other, registers them all.\<close>

lemma register_all:
  assumes "wf p" "distinct (map snd cs)" "length cs \<le> room p" "\<And>c f. (c, f) \<in> set cs \<Longrightarrow> may_use c f p"
  shows "\<exists>q. res_fold updateChannel (map fst cs) p = Inr q \<and> wf q \<and>
     channels q = channels p ++ map_of (map prod.swap cs)"
  using assms
proof (induction cs arbitrary: p)
  case (Cons x cs)
  obtain c f where x: "x = (c, f)" by (cases x)
  with Cons.prems obtain q where q: "updateChannel c p = Inr q" "wf q" "channels q = (channels p)(f \<mapsto> c)"
    "room p - 1 \<le> room q" "\<forall>c' f'. may_use c' f' p \<longrightarrow> f' \<noteq> f \<longrightarrow> may_use c' f' q"
    using update_ok [of p c f] by auto
  have "may_use c' f' q" if "(c', f') \<in> set cs" for c' f'
    using that Cons.prems x q(5) by force
  moreover have "length cs \<le> room q" using Cons.prems(3) q(4) by simp
  ultimately obtain r where "res_fold updateChannel (map fst cs) q = Inr r" "wf r"
    "channels r = channels q ++ map_of (map prod.swap cs)"
    using Cons.IH [OF q(2)] Cons.prems x by auto
  moreover have "(channels p)(f \<mapsto> c) ++ map_of (map prod.swap cs) =
      channels p ++ (map_of (map prod.swap cs))(f \<mapsto> c)"
  proof -
    have "map_of (map prod.swap cs) f = None"
      using Cons.prems(2) x by (force simp: map_of_eq_None_iff)
    then show ?thesis by (auto simp: map_add_def fun_eq_iff split: option.splits)
  qed
  ultimately show ?case using x q by (simp add: fun_upd_def)
qed simp

end

section \<open>Lemmas\<close>

lemma registered_at_obj:
  "registered_at p f c ch \<Longrightarrow> pp_map p f = Some c \<and> pp_objs p c = Some ch \<and> ch_fd ch = f"
  by (simp add: registered_at_def)

lemma wf_registered:
  assumes "PollPoller_wf p" "pp_map p f = Some c"
  obtains ch where "0 \<le> f" "registered_at p f c ch" "ch_index ch < length (pp_fds p)"
    "pfd_for f (pp_fds p ! ch_index ch)"
  using assms unfolding PollPoller_wf_def by blast

lemma wf_index:
  assumes "PollPoller_wf p" "i < length (pp_fds p)"
  obtains f c ch where "registered_at p f c ch" "ch_index ch = i" "0 \<le> f" "pfd_for f (pp_fds p ! i)"
proof -
  obtain f c ch where r: "registered_at p f c ch" "ch_index ch = i"
    using assms by (auto simp: PollPoller_wf_def)
  then have "pp_map p f = Some c" by (simp add: registered_at_def)
  then obtain ch' where "0 \<le> f" "registered_at p f c ch'" "pfd_for f (pp_fds p ! ch_index ch')"
    by (rule wf_registered [OF assms(1)])
  then show ?thesis using that r by (auto simp: registered_at_def)
qed

lemma pfd_for_unique: "pfd_for f e \<Longrightarrow> pfd_for g e \<Longrightarrow> 0 \<le> f \<Longrightarrow> 0 \<le> g \<Longrightarrow> f = g"
  by (auto simp: pfd_for_def)

lemma wf_index_unique:
  assumes "PollPoller_wf p" "registered_at p f c ch" "registered_at p g d dh" "ch_index ch = ch_index dh"
  shows "f = g \<and> c = d"
proof -
  have "pp_map p f = Some c" "pp_map p g = Some d" using assms by (auto simp: registered_at_def)
  moreover from this have "f = g"
    using assms by (elim wf_registered [OF assms(1)]) (auto simp: registered_at_def intro: pfd_for_unique)
  ultimately show ?thesis by simp
qed

text \<open>Replacing the entry of a registered channel by another entry for its descriptor.\<close>

lemma wf_replace_entry:
  assumes wf: "PollPoller_wf p" and r: "registered_at p f c ch" and e: "pfd_for f e"
  shows "PollPoller_wf (p\<lparr>pp_fds := (pp_fds p)[ch_index ch := e]\<rparr>)"
proof -
  let ?q = "p\<lparr>pp_fds := (pp_fds p)[ch_index ch := e]\<rparr>"
  have reg: "registered_at ?q = registered_at p" by (simp add: registered_at_def fun_eq_iff)
  have "0 \<le> g \<and> (\<exists>dh. registered_at ?q g d dh \<and> ch_index dh < length (pp_fds ?q) \<and>
      pfd_for g (pp_fds ?q ! ch_index dh))" if m: "pp_map ?q g = Some d" for g d
  proof -
    from m have "pp_map p g = Some d" by simp
    then obtain dh where d: "0 \<le> g" "registered_at p g d dh" "ch_index dh < length (pp_fds p)"
      "pfd_for g (pp_fds p ! ch_index dh)" by (rule wf_registered [OF wf])
    have "pfd_for g ((pp_fds p)[ch_index ch := e] ! ch_index dh)"
      using d e wf_index_unique [OF wf r d(2)] by (cases "ch_index dh = ch_index ch") auto
    with d reg show ?thesis by auto
  qed
  then show ?thesis using wf reg unfolding PollPoller_wf_def by auto
qed

text \<open>The invariant depends on the map, the descriptors of the entries, and the descriptor and index
  of each channel only.\<close>

lemma wf_cong:
  assumes wf: "PollPoller_wf p" and m: "pp_map q = pp_map p"
    and fds: "map pfd_fd (pp_fds q) = map pfd_fd (pp_fds p)"
    and objs: "\<And>d. map_option (\<lambda>ch. (ch_fd ch, ch_index ch)) (pp_objs q d) =
      map_option (\<lambda>ch. (ch_fd ch, ch_index ch)) (pp_objs p d)"
  shows "PollPoller_wf q"
proof -
  have len: "length (pp_fds q) = length (pp_fds p)" using fds by (metis length_map)
  have pfd: "pfd_for f (pp_fds q ! i) = pfd_for f (pp_fds p ! i)" if "i < length (pp_fds p)" for f i
    using that len fds unfolding pfd_for_def by (metis nth_map)
  have reg: "\<exists>dh'. registered_at q f d dh' \<and> ch_index dh' = ch_index dh"
    if "registered_at p f d dh" for f d dh
    using that objs [of d] m by (auto simp: registered_at_def)
  have one: "0 \<le> f \<and> (\<exists>dh. registered_at q f d dh \<and> ch_index dh < length (pp_fds q) \<and>
      pfd_for f (pp_fds q ! ch_index dh))" if "pp_map q f = Some d" for f d
  proof -
    from that m have "pp_map p f = Some d" by simp
    then obtain dh where d: "0 \<le> f" "registered_at p f d dh" "ch_index dh < length (pp_fds p)"
      "pfd_for f (pp_fds p ! ch_index dh)" by (rule wf_registered [OF wf])
    from reg [OF d(2)] obtain dh' where "registered_at q f d dh'" "ch_index dh' = ch_index dh" by blast
    with d len pfd show ?thesis by auto
  qed
  have two: "\<exists>f c ch. registered_at q f c ch \<and> ch_index ch = i" if i: "i < length (pp_fds q)" for i
  proof -
    from i len have "i < length (pp_fds p)" by simp
    then obtain f d dh where "registered_at p f d dh" "ch_index dh = i" by (rule wf_index [OF wf])
    with reg [of f d dh] show ?thesis by metis
  qed
  show ?thesis using one two len wf unfolding PollPoller_wf_def by auto
qed

lemma wf_enabled_entry:
  assumes wf: "PollPoller_wf p" and i: "i < length (pp_fds p)" "0 \<le> pfd_fd (pp_fds p ! i)"
  obtains c ch where "registered_at p (pfd_fd (pp_fds p ! i)) c ch" "ch_index ch = i"
proof -
  from i(1) obtain f c ch where r: "registered_at p f c ch" "ch_index ch = i" "0 \<le> f" "pfd_for f (pp_fds p ! i)"
    by (rule wf_index [OF wf])
  then have "f = pfd_fd (pp_fds p ! i)" using i(2) by (auto simp: pfd_for_def)
  with r that show ?thesis by blast
qed

lemma entry_of_registered: "registered_at p f c ch \<Longrightarrow> entry_of p f = Some (pp_fds p ! ch_index ch)"
  by (simp add: entry_of_def registered_at_def)

lemma entry_of_frame:
  assumes wf: "PollPoller_wf p" and m: "pp_map q g = pp_map p g"
    and same: "\<And>d dh. registered_at p g d dh \<Longrightarrow> ch_index dh < length (pp_fds p) \<Longrightarrow>
      \<exists>dh'. registered_at q g d dh' \<and> pp_fds q ! ch_index dh' = pp_fds p ! ch_index dh"
  shows "entry_of q g = entry_of p g"
proof (cases "pp_map p g")
  case None
  with m show ?thesis by (simp add: entry_of_def)
next
  case (Some d)
  then obtain dh where d: "registered_at p g d dh" "ch_index dh < length (pp_fds p)"
    by (rule wf_registered [OF wf])
  from same [OF d] obtain dh' where "registered_at q g d dh'"
    "pp_fds q ! ch_index dh' = pp_fds p ! ch_index dh" by blast
  then show ?thesis
    using entry_of_registered [OF d(1)] entry_of_registered [of q g d dh'] by simp
qed

lemma update_registered_spec:
  assumes wf: "PollPoller_wf p" and r: "registered_at p f c ch"
  defines "e \<equiv> \<lparr>pfd_fd = (if Channel_isNoneEvent ch then - f - 1 else f),
                  pfd_events = ch_events ch, pfd_revents = 0\<rparr>"
  shows "PollPoller_updateChannel c p = Inr (p\<lparr>pp_fds := (pp_fds p)[ch_index ch := e]\<rparr>)"
    "PollPoller_wf (p\<lparr>pp_fds := (pp_fds p)[ch_index ch := e]\<rparr>)"
    "entry_of (p\<lparr>pp_fds := (pp_fds p)[ch_index ch := e]\<rparr>) f = Some e"
    "g \<noteq> f \<Longrightarrow> entry_of (p\<lparr>pp_fds := (pp_fds p)[ch_index ch := e]\<rparr>) g = entry_of p g"
proof -
  have m: "pp_map p f = Some c" using r by (simp add: registered_at_def)
  then have i: "ch_index ch < length (pp_fds p)"
    by (rule wf_registered [OF wf]) (use r in \<open>auto simp: registered_at_def\<close>)
  show "PollPoller_updateChannel c p = Inr (p\<lparr>pp_fds := (pp_fds p)[ch_index ch := e]\<rparr>)"
    using r i by (auto simp: PollPoller_updateChannel_def registered_at_def e_def)
  show "PollPoller_wf (p\<lparr>pp_fds := (pp_fds p)[ch_index ch := e]\<rparr>)"
    by (rule wf_replace_entry [OF wf r]) (simp add: e_def pfd_for_def)
  show "entry_of (p\<lparr>pp_fds := (pp_fds p)[ch_index ch := e]\<rparr>) f = Some e"
    using r i by (simp add: entry_of_def registered_at_def)
  show "entry_of (p\<lparr>pp_fds := (pp_fds p)[ch_index ch := e]\<rparr>) g = entry_of p g" if "g \<noteq> f"
  proof (rule entry_of_frame [OF wf])
    fix d dh
    assume d: "registered_at p g d dh" "ch_index dh < length (pp_fds p)"
    then have "ch_index dh \<noteq> ch_index ch" using wf_index_unique [OF wf r d(1)] that by auto
    then show "\<exists>dh'. registered_at (p\<lparr>pp_fds := (pp_fds p)[ch_index ch := e]\<rparr>) g d dh' \<and>
        pp_fds (p\<lparr>pp_fds := (pp_fds p)[ch_index ch := e]\<rparr>) ! ch_index dh' = pp_fds p ! ch_index dh"
      using d by (auto simp: registered_at_def)
  qed simp
qed

lemma update_new_spec:
  assumes wf: "PollPoller_wf p" and o: "pp_objs p c = Some ch" "ch_fd ch = f" "0 \<le> f"
    and new: "pp_map p f = None" and room: "Suc (length (pp_fds p)) < 2 ^ 63"
  defines "e \<equiv> \<lparr>pfd_fd = f, pfd_events = ch_events ch, pfd_revents = 0\<rparr>"
  defines "q \<equiv> p\<lparr>pp_map := (pp_map p)(f \<mapsto> c), pp_fds := pp_fds p @ [e],
                 pp_objs := (pp_objs p)(c \<mapsto> Channel_setIndex (length (pp_fds p)) ch)\<rparr>"
  shows "PollPoller_updateChannel c p = Inr q" "PollPoller_wf q"
    "entry_of q f = Some e" "g \<noteq> f \<Longrightarrow> entry_of q g = entry_of p g"
proof -
  show "PollPoller_updateChannel c p = Inr q"
    using o new by (simp add: PollPoller_updateChannel_def q_def e_def)
  have old: "registered_at q g d dh" if "registered_at p g d dh" for g d dh
    using that o new by (auto simp: registered_at_def q_def)
  have self: "registered_at q f c (Channel_setIndex (length (pp_fds p)) ch)"
    using o by (simp add: registered_at_def q_def Channel_setIndex_def)
  have one: "0 \<le> g \<and> (\<exists>dh. registered_at q g d dh \<and> ch_index dh < length (pp_fds q) \<and>
      pfd_for g (pp_fds q ! ch_index dh))" if m: "pp_map q g = Some d" for g d
  proof (cases "g = f")
    case True
    with m self o(3) show ?thesis
      by (auto simp: q_def e_def pfd_for_def Channel_setIndex_def intro!: exI [where x = "Channel_setIndex (length (pp_fds p)) ch"])
  next
    case False
    with m have "pp_map p g = Some d" by (simp add: q_def)
    then obtain dh where d: "0 \<le> g" "registered_at p g d dh" "ch_index dh < length (pp_fds p)"
      "pfd_for g (pp_fds p ! ch_index dh)" by (rule wf_registered [OF wf])
    from d old [OF d(2)] show ?thesis by (auto simp: q_def nth_append)
  qed
  have two: "\<exists>f c ch. registered_at q f c ch \<and> ch_index ch = i" if i: "i < length (pp_fds q)" for i
  proof (cases "i < length (pp_fds p)")
    case True
    then obtain g d dh where "registered_at p g d dh" "ch_index dh = i" by (rule wf_index [OF wf])
    with old show ?thesis by blast
  next
    case False
    with i have "i = length (pp_fds p)" by (simp add: q_def)
    with self show ?thesis by (metis setIndex_simps(1))
  qed
  show "PollPoller_wf q"
    using one two room unfolding PollPoller_wf_def by (simp add: q_def)
  show "entry_of q f = Some e"
    using entry_of_registered [OF self] by (simp add: q_def Channel_setIndex_def)
  show "entry_of q g = entry_of p g" if "g \<noteq> f"
  proof (rule entry_of_frame [OF wf])
    show "pp_map q g = pp_map p g" using that by (simp add: q_def)
  next
    fix d dh
    assume "registered_at p g d dh" "ch_index dh < length (pp_fds p)"
    then show "\<exists>dh'. registered_at q g d dh' \<and> pp_fds q ! ch_index dh' = pp_fds p ! ch_index dh"
      using old by (auto simp: q_def nth_append)
  qed
qed

lemma owns_registered:
  assumes "owns c f p" "pp_map p f = Some c"
  obtains ch where "registered_at p f c ch"
  using assms by (auto simp: owns_def registered_at_def)

lemma update_spec:
  assumes wf: "PollPoller_wf p" and own: "owns c f p" and room: "Suc (length (pp_fds p)) < 2 ^ 63"
  shows "\<exists>q e. PollPoller_updateChannel c p = Inr q \<and> PollPoller_wf q \<and>
    pp_map q = (pp_map p)(f \<mapsto> c) \<and> length (pp_fds q) \<le> Suc (length (pp_fds p)) \<and>
    (\<forall>d. map_option ch_fd (pp_objs q d) = map_option ch_fd (pp_objs p d)) \<and>
    entry_of q f = Some e \<and> map_option ch_events (pp_objs p c) = Some (pfd_events e) \<and>
    (\<forall>g. g \<noteq> f \<longrightarrow> entry_of q g = entry_of p g)"
proof (cases "pp_map p f")
  case (Some d)
  then have m: "pp_map p f = Some c" using own by (simp add: owns_def)
  then obtain ch where r: "registered_at p f c ch" by (rule owns_registered [OF own])
  note u = update_registered_spec [OF wf r]
  show ?thesis
    by (intro exI conjI, rule u(1), rule u(2)) (use u m r in \<open>auto simp: registered_at_def\<close>)
next
  case None
  obtain ch where o: "pp_objs p c = Some ch" "ch_fd ch = f" "0 \<le> f"
    using own by (auto simp: owns_def)
  note u = update_new_spec [OF wf o None room]
  show ?thesis
    by (intro exI conjI, rule u(1), rule u(2)) (use u o in \<open>auto simp: Channel_setIndex_def\<close>)
qed

lemma remove_last_spec:
  assumes wf: "PollPoller_wf p" and r: "registered_at p f c ch"
    and last: "ch_index ch = length (pp_fds p) - 1"
  defines "q \<equiv> p\<lparr>pp_map := (pp_map p)(f := None), pp_fds := butlast (pp_fds p)\<rparr>"
  shows "PollPoller_removeChannel c p = Inr q" "PollPoller_wf q"
    "g \<noteq> f \<Longrightarrow> entry_of q g = entry_of p g"
proof -
  have "pp_map p f = Some c" using r by (simp add: registered_at_def)
  then have i: "ch_index ch < length (pp_fds p)"
    by (rule wf_registered [OF wf]) (use r in \<open>auto simp: registered_at_def\<close>)
  have len: "length (pp_fds p) < 2 ^ 63" using wf by (simp add: PollPoller_wf_def)
  have "sz_sub (length (pp_fds p)) 1 = length (pp_fds p) - 1"
    using i len by (intro sz_sub_le) auto
  then show "PollPoller_removeChannel c p = Inr q"
    using r i last by (auto simp: PollPoller_removeChannel_def registered_at_def q_def Let_def)
  have keep: "registered_at q g d dh \<and> ch_index dh < length (pp_fds q) \<and>
      pp_fds q ! ch_index dh = pp_fds p ! ch_index dh"
    if "registered_at p g d dh" "g \<noteq> f" "ch_index dh < length (pp_fds p)" for g d dh
  proof -
    have "ch_index dh \<noteq> ch_index ch" using wf_index_unique [OF wf r that(1)] that(2) by auto
    then have "ch_index dh < length (pp_fds p) - 1" using that(3) last by simp
    then show ?thesis using that by (simp add: registered_at_def q_def nth_butlast)
  qed
  have one: "0 \<le> g \<and> (\<exists>dh. registered_at q g d dh \<and> ch_index dh < length (pp_fds q) \<and>
      pfd_for g (pp_fds q ! ch_index dh))" if m: "pp_map q g = Some d" for g d
  proof -
    from m have g: "pp_map p g = Some d" "g \<noteq> f" by (auto simp: q_def split: if_splits)
    from g(1) obtain dh where d: "0 \<le> g" "registered_at p g d dh" "ch_index dh < length (pp_fds p)"
      "pfd_for g (pp_fds p ! ch_index dh)" by (rule wf_registered [OF wf])
    from keep [OF d(2) g(2) d(3)] d show ?thesis by auto
  qed
  have two: "\<exists>f c ch. registered_at q f c ch \<and> ch_index ch = i" if i: "i < length (pp_fds q)" for i
  proof -
    from i have i': "i < length (pp_fds p)" "i \<noteq> ch_index ch" using last by (auto simp: q_def)
    from i'(1) obtain g d dh where d: "registered_at p g d dh" "ch_index dh = i" by (rule wf_index [OF wf])
    then have "g \<noteq> f" using i'(2) r by (auto simp: registered_at_def)
    with keep [OF d(1)] d i'(1) show ?thesis by blast
  qed
  show "PollPoller_wf q" using one two len unfolding PollPoller_wf_def by (simp add: q_def)
  show "entry_of q g = entry_of p g" if "g \<noteq> f"
    by (rule entry_of_frame [OF wf]) (use that keep in \<open>auto simp: q_def\<close>)
qed

lemma sz_last: "xs \<noteq> [] \<Longrightarrow> length xs < 2 ^ 63 \<Longrightarrow> sz_sub (length xs) 1 = length xs - 1"
  by (intro sz_sub_le) (auto simp: Suc_le_eq)

lemma butlast_swap:
  assumes "i < length xs - 1"
  shows "butlast (xs[i := xs ! (length xs - 1), length xs - 1 := xs ! i]) = (butlast xs)[i := last xs]"
proof -
  have "xs \<noteq> []" using assms by auto
  then show ?thesis using assms
    by (simp add: butlast_list_update last_conv_nth)
qed

text \<open>Removing a channel that is not the last one, when the last entry is enabled.\<close>

lemma remove_swap_spec:
  assumes wf: "PollPoller_wf p" and r: "registered_at p f c ch"
    and mid: "ch_index ch \<noteq> length (pp_fds p) - 1" and enabled: "0 \<le> pfd_fd (last (pp_fds p))"
  shows "\<exists>q. PollPoller_removeChannel c p = Inr q \<and> PollPoller_wf q \<and>
    pp_map q = (pp_map p)(f := None) \<and> (\<forall>g. g \<noteq> f \<longrightarrow> entry_of q g = entry_of p g)"
proof -
  let ?n = "length (pp_fds p)" and ?i = "ch_index ch"
  have m: "pp_map p f = Some c" using r by (simp add: registered_at_def)
  then have i: "?i < ?n"
    by (rule wf_registered [OF wf]) (use r in \<open>auto simp: registered_at_def\<close>)
  then have i': "?i < ?n - 1" "pp_fds p \<noteq> []" using mid by auto
  have len: "?n < 2 ^ 63" using wf by (simp add: PollPoller_wf_def)
  have "?n - 1 < ?n" using i by simp
  then obtain f' c' ch' where r': "registered_at p f' c' ch'" "ch_index ch' = ?n - 1"
    and f': "0 \<le> f'" "pfd_for f' (pp_fds p ! (?n - 1))" by (rule wf_index [OF wf])
  have fd': "pfd_fd (pp_fds p ! (?n - 1)) = f'"
    using enabled f' i'(2) by (auto simp: pfd_for_def last_conv_nth)
  have ne: "f' \<noteq> f" "c' \<noteq> c" using r r' mid by (auto simp: registered_at_def)
  define q where "q = p\<lparr>pp_map := (pp_map p)(f := None),
     pp_objs := (pp_objs p)(c' \<mapsto> Channel_setIndex ?i ch'),
     pp_fds := (butlast (pp_fds p))[?i := last (pp_fds p)]\<rparr>"
  have "PollPoller_removeChannel c p = Inr q"
    using r r' ne fd' mid i sz_last [OF i'(2) len] butlast_swap [OF i'(1)]
    by (simp add: PollPoller_removeChannel_def registered_at_def q_def Let_def)
  moreover have self: "registered_at q f' c' (Channel_setIndex ?i ch')"
    using r' ne by (simp add: registered_at_def q_def Channel_setIndex_def)
  have other: "registered_at q g d dh \<and> ch_index dh < length (pp_fds q) \<and>
      pp_fds q ! ch_index dh = pp_fds p ! ch_index dh"
    if d: "registered_at p g d dh" "g \<noteq> f" "g \<noteq> f'" "ch_index dh < ?n" for g d dh
  proof -
    have "ch_index dh \<noteq> ?i" "ch_index dh \<noteq> ?n - 1"
      using wf_index_unique [OF wf r d(1)] wf_index_unique [OF wf r'(1) d(1)] d r'(2) by auto
    moreover have "d \<noteq> c'" using d r' by (auto simp: registered_at_def)
    ultimately show ?thesis using d by (simp add: registered_at_def q_def nth_butlast)
  qed
  have one: "0 \<le> g \<and> (\<exists>dh. registered_at q g d dh \<and> ch_index dh < length (pp_fds q) \<and>
      pfd_for g (pp_fds q ! ch_index dh))" if m': "pp_map q g = Some d" for g d
  proof (cases "g = f'")
    case True
    with m' r' ne have d: "d = c'" by (auto simp: q_def registered_at_def)
    have "pfd_for f' (last (pp_fds p))" using f' i'(2) by (simp add: last_conv_nth)
    then show ?thesis using True d self f'(1) i'(1)
      by (intro conjI exI [where x = "Channel_setIndex ?i ch'"]) (simp_all add: q_def Channel_setIndex_def)
  next
    case False
    from m' have g: "pp_map p g = Some d" "g \<noteq> f" by (auto simp: q_def split: if_splits)
    from g(1) obtain dh where d: "0 \<le> g" "registered_at p g d dh" "ch_index dh < ?n"
      "pfd_for g (pp_fds p ! ch_index dh)" by (rule wf_registered [OF wf])
    from other [OF d(2) g(2) False d(3)] d show ?thesis by auto
  qed
  have two: "\<exists>f c ch. registered_at q f c ch \<and> ch_index ch = j" if j: "j < length (pp_fds q)" for j
  proof (cases "j = ?i")
    case True
    with self show ?thesis by (metis setIndex_simps(1))
  next
    case False
    from j have j': "j < ?n" "j \<noteq> ?n - 1" by (auto simp: q_def)
    from j'(1) obtain g d dh where d: "registered_at p g d dh" "ch_index dh = j" by (rule wf_index [OF wf])
    have "g \<noteq> f" "g \<noteq> f'" using d r r' False j' by (auto simp: registered_at_def)
    with other [OF d(1)] d j'(1) show ?thesis by blast
  qed
  have "PollPoller_wf q" using one two len unfolding PollPoller_wf_def by (simp add: q_def)
  moreover have "entry_of q g = entry_of p g" if "g \<noteq> f" for g
  proof (cases "g = f'")
    case True
    then show ?thesis
      using entry_of_registered [OF self] entry_of_registered [OF r'(1)] r'(2) i' by (simp add: q_def Channel_setIndex_def last_conv_nth)
  next
    case False
    show ?thesis by (rule entry_of_frame [OF wf]) (use that False other in \<open>auto simp: q_def\<close>)
  qed
  moreover have "pp_map q = (pp_map p)(f := None)" by (simp add: q_def)
  ultimately show ?thesis by blast
qed

lemma remove_spec:
  assumes wf: "PollPoller_wf p" and own: "owns c f p" and m: "pp_map p f = Some c" and rem: "removable c p"
  shows "\<exists>q. PollPoller_removeChannel c p = Inr q \<and> PollPoller_wf q \<and>
    pp_map q = (pp_map p)(f := None) \<and> (\<forall>g. g \<noteq> f \<longrightarrow> entry_of q g = entry_of p g)"
proof -
  obtain ch where r: "registered_at p f c ch" using owns_registered [OF own m] .
  show ?thesis
  proof (cases "ch_index ch = length (pp_fds p) - 1")
    case True
    from remove_last_spec [OF wf r True] show ?thesis by auto
  next
    case False
    moreover have "0 \<le> pfd_fd (last (pp_fds p))"
      using rem False r by (simp add: removable_def registered_at_def)
    ultimately show ?thesis by (rule remove_swap_spec [OF wf r])
  qed
qed

lemma remove_null_deref:
  assumes wf: "PollPoller_wf p" and r: "registered_at p f c ch"
    and mid: "ch_index ch \<noteq> length (pp_fds p) - 1" and disabled: "pfd_fd (last (pp_fds p)) < 0"
  shows "PollPoller_removeChannel c p = Inl Null_deref"
proof -
  have m: "pp_map p f = Some c" using r by (simp add: registered_at_def)
  then have i: "ch_index ch < length (pp_fds p)"
    by (rule wf_registered [OF wf]) (use r in \<open>auto simp: registered_at_def\<close>)
  then have ne: "pp_fds p \<noteq> []" "\<not> length (pp_fds p) \<le> length (pp_fds p) - Suc 0" by auto
  have len: "length (pp_fds p) < 2 ^ 63" using wf by (simp add: PollPoller_wf_def)
  have "pp_map p (pfd_fd (last (pp_fds p))) = None"
    using wf disabled by (fastforce simp: PollPoller_wf_def)
  then have "((pp_map p)(f := None)) (pfd_fd (pp_fds p ! (length (pp_fds p) - 1))) = None"
    using ne by (simp add: last_conv_nth)
  then show ?thesis
    using r m mid ne sz_last [OF ne(1) len] by (simp add: PollPoller_removeChannel_def registered_at_def Let_def)
qed

interpretation pp: poller PollPoller_wf owns removable pp_map
    PollPoller_updateChannel PollPoller_removeChannel "\<lambda>p. 2 ^ 63 - 1 - length (pp_fds p)"
proof unfold_locales
  fix p :: "'a poll_poller" and c f
  assume a: "PollPoller_wf p" "owns c f p" "0 < 2 ^ 63 - 1 - length (pp_fds p)"
  then have "Suc (length (pp_fds p)) < 2 ^ 63" by simp
  from update_spec [OF a(1,2) this] obtain q where
    "PollPoller_updateChannel c p = Inr q" "PollPoller_wf q" "pp_map q = (pp_map p)(f \<mapsto> c)"
    "length (pp_fds q) \<le> Suc (length (pp_fds p))"
    "\<forall>d. map_option ch_fd (pp_objs q d) = map_option ch_fd (pp_objs p d)" by blast
  then show "\<exists>q. PollPoller_updateChannel c p = Inr q \<and> PollPoller_wf q \<and>
      pp_map q = (pp_map p)(f \<mapsto> c) \<and>
      2 ^ 63 - 1 - length (pp_fds p) - 1 \<le> 2 ^ 63 - 1 - length (pp_fds q) \<and>
      (\<forall>c' f'. owns c' f' p \<longrightarrow> f' \<noteq> f \<longrightarrow> owns c' f' q)"
    by (auto simp: owns_def simp del: map_option_eq_Some)
next
  fix p :: "'a poll_poller" and c f
  assume "PollPoller_wf p" "owns c f p" "pp_map p f = Some c" "removable c p"
  from remove_spec [OF this] show "\<exists>q. PollPoller_removeChannel c p = Inr q \<and> PollPoller_wf q \<and>
      pp_map q = (pp_map p)(f := None)" by blast
qed

section \<open>Polling\<close>

definition arrived :: "pollfd \<Rightarrow> bool" where
  "arrived e \<longleftrightarrow> sint (pfd_revents e) > 0"

definition active_of :: "'cb poll_poller \<Rightarrow> pollfd list \<Rightarrow> chan_id list" where
  "active_of p es = map (\<lambda>e. the (pp_map p (pfd_fd e))) (filter arrived es)"

lemma setRevents_simps [simp]:
  "ch_fd (Channel_setRevents r ch) = ch_fd ch" "ch_index (Channel_setRevents r ch) = ch_index ch"
  "ch_events (Channel_setRevents r ch) = ch_events ch" "ch_revents (Channel_setRevents r ch) = r"
  "Channel_setRevents r (Channel_setRevents r' ch) = Channel_setRevents r ch"
  by (simp_all add: Channel_setRevents_def)

text \<open>What filling leaves behind: the arrived events are stored in exactly the activated channels.\<close>

definition filled :: "'cb poll_poller \<Rightarrow> pollfd list \<Rightarrow> 'cb poll_poller \<Rightarrow> bool" where
  "filled p es q \<longleftrightarrow> pp_map q = pp_map p \<and> pp_fds q = pp_fds p \<and>
    (\<forall>d. (\<forall>e\<in>set es. arrived e \<longrightarrow> pp_map p (pfd_fd e) \<noteq> Some d) \<longrightarrow> pp_objs q d = pp_objs p d) \<and>
    (\<forall>e\<in>set es. \<forall>d. arrived e \<longrightarrow> pp_map p (pfd_fd e) = Some d \<longrightarrow>
       pp_objs q d = map_option (Channel_setRevents (pfd_revents e)) (pp_objs p d))"

definition fillable :: "'cb poll_poller \<Rightarrow> pollfd list \<Rightarrow> bool" where
  "fillable p es \<longleftrightarrow>
    (\<forall>e\<in>set es. arrived e \<longrightarrow> (\<exists>c ch. pp_map p (pfd_fd e) = Some c \<and> pp_objs p c = Some ch)) \<and>
    (\<forall>e\<in>set es. \<forall>e'\<in>set es. arrived e \<longrightarrow> arrived e' \<longrightarrow>
      pp_map p (pfd_fd e) = pp_map p (pfd_fd e') \<longrightarrow> pfd_revents e = pfd_revents e')"

lemma filled_Cons_arrived:
  assumes f: "fillable p (e # es)" and e: "arrived e" "pp_map p (pfd_fd e) = Some c" "pp_objs p c = Some ch"
    and q: "filled (p\<lparr>pp_objs := (pp_objs p)(c \<mapsto> Channel_setRevents (pfd_revents e) ch)\<rparr>) es q"
  shows "filled p (e # es) q"
proof -
  let ?p = "p\<lparr>pp_objs := (pp_objs p)(c \<mapsto> Channel_setRevents (pfd_revents e) ch)\<rparr>"
  have q4: "pp_objs q d = pp_objs ?p d" if "\<forall>x\<in>set es. arrived x \<longrightarrow> pp_map p (pfd_fd x) \<noteq> Some d" for d
    using q that by (simp add: filled_def)
  have q5: "pp_objs q d = map_option (Channel_setRevents (pfd_revents x)) (pp_objs ?p d)"
    if "x \<in> set es" "arrived x" "pp_map p (pfd_fd x) = Some d" for x d
    using q that by (simp add: filled_def)
  have "pp_objs q d = pp_objs p d"
    if "\<forall>x\<in>set (e # es). arrived x \<longrightarrow> pp_map p (pfd_fd x) \<noteq> Some d" for d
    using that e q4 [of d] by auto
  moreover have "pp_objs q d = map_option (Channel_setRevents (pfd_revents e')) (pp_objs p d)"
    if e': "e' \<in> set (e # es)" "arrived e'" "pp_map p (pfd_fd e') = Some d" for e' d
  proof (cases "\<exists>x\<in>set es. arrived x \<and> pp_map p (pfd_fd x) = Some d")
    case True
    then obtain x where x: "x \<in> set es" "arrived x" "pp_map p (pfd_fd x) = Some d" by blast
    have same: "pfd_revents y = pfd_revents z" if "y \<in> set (e # es)" "z \<in> set (e # es)" "arrived y" "arrived z"
      "pp_map p (pfd_fd y) = pp_map p (pfd_fd z)" for y z
      using f that unfolding fillable_def by blast
    have "pfd_revents x = pfd_revents e'" using same [of x e'] x e' by simp
    then show ?thesis using q5 [OF x] e by (cases "d = c") auto
  next
    case False
    then have "e' = e" "d = c" using e' e by auto
    with False q4 [of d] e show ?thesis by auto
  qed
  ultimately show ?thesis using q unfolding filled_def by simp
qed

lemma fillable_Cons: "fillable p (e # es) \<Longrightarrow> fillable p es"
  unfolding fillable_def by (meson list.set_intros(2))

lemma fillable_upd:
  assumes "fillable p es"
  shows "fillable (p\<lparr>pp_objs := (pp_objs p)(c \<mapsto> ch)\<rparr>) es"
proof -
  let ?p = "p\<lparr>pp_objs := (pp_objs p)(c \<mapsto> ch)\<rparr>"
  have "\<exists>d dh. pp_map ?p (pfd_fd e) = Some d \<and> pp_objs ?p d = Some dh" if "e \<in> set es" "arrived e" for e
  proof -
    from assms that obtain d dh where "pp_map p (pfd_fd e) = Some d" "pp_objs p d = Some dh"
      unfolding fillable_def by meson
    then show ?thesis by simp
  qed
  moreover have "pfd_revents e = pfd_revents e'"
    if "e \<in> set es" "e' \<in> set es" "arrived e" "arrived e'" "pp_map ?p (pfd_fd e) = pp_map ?p (pfd_fd e')" for e e'
  proof -
    from that(5) have "pp_map p (pfd_fd e) = pp_map p (pfd_fd e')" by simp
    with that(1-4) assms show ?thesis unfolding fillable_def by blast
  qed
  ultimately show ?thesis unfolding fillable_def by blast
qed

lemma fill_active_spec:
  "count < r_num \<Longrightarrow> fillable p es \<Longrightarrow>
    \<exists>q. fill_active r_num count es p act = Inr (q, act @ active_of p es) \<and> filled p es q"
proof (induction es arbitrary: p act)
  case Nil
  then show ?case by (simp add: active_of_def filled_def)
next
  case (Cons e es)
  show ?case
  proof (cases "arrived e")
    case False
    have "fillable p es" using Cons.prems(2) by (rule fillable_Cons)
    from Cons.IH [OF Cons.prems(1) this] obtain q where
      q: "fill_active r_num count es p act = Inr (q, act @ active_of p es)" "filled p es q" by blast
    moreover have "filled p (e # es) q" using q(2) False by (simp add: filled_def)
    ultimately show ?thesis using False Cons.prems(1) by (simp add: arrived_def active_of_def)
  next
    case True
    then obtain c ch where c: "pp_map p (pfd_fd e) = Some c" "pp_objs p c = Some ch"
      using Cons.prems(2) unfolding fillable_def by (meson list.set_intros(1))
    let ?p = "p\<lparr>pp_objs := (pp_objs p)(c \<mapsto> Channel_setRevents (pfd_revents e) ch)\<rparr>"
    have "fillable ?p es" using fillable_Cons [OF Cons.prems(2)] by (rule fillable_upd)
    from Cons.IH [OF Cons.prems(1) this, of "act @ [c]"] obtain q where
      q: "fill_active r_num count es ?p (act @ [c]) = Inr (q, (act @ [c]) @ active_of ?p es)" "filled ?p es q"
      by blast
    have "fill_active r_num count (e # es) p act = Inr (q, act @ active_of p (e # es))"
      using q(1) True c Cons.prems(1) by (simp add: arrived_def active_of_def)
    with filled_Cons_arrived [OF Cons.prems(2) True c q(2)] show ?thesis by blast
  qed
qed

lemma poll_contractD:
  assumes "poll_contract sys_poll" "sys_poll fds0 = (r, fds)"
  shows "map pfd_fd fds = map pfd_fd fds0" "e \<in> set fds \<Longrightarrow> arrived e \<Longrightarrow> 0 \<le> pfd_fd e"
proof -
  have eq: "map (\<lambda>e. (pfd_fd e, pfd_events e)) fds = map (\<lambda>e. (pfd_fd e, pfd_events e)) fds0"
    and neg: "\<forall>e\<in>set fds. pfd_fd e < 0 \<longrightarrow> pfd_revents e = 0"
    using assms(1) [unfolded poll_contract_def, THEN spec [of _ fds0], THEN spec [of _ r],
        THEN spec [of _ fds], THEN mp, OF assms(2)] by simp_all
  have "map fst (map (\<lambda>e. (pfd_fd e, pfd_events e)) fds) = map fst (map (\<lambda>e. (pfd_fd e, pfd_events e)) fds0)"
    using eq by simp
  then show "map pfd_fd fds = map pfd_fd fds0" by (simp add: comp_def)
  show "0 \<le> pfd_fd e" if "e \<in> set fds" "arrived e"
    using neg that by (force simp: arrived_def)
qed

definition poll_entries :: "'cb poll_poller \<Rightarrow> bool" where
  "poll_entries p \<longleftrightarrow> PollPoller_wf p \<and> (\<forall>e\<in>set (pp_fds p). arrived e \<longrightarrow> 0 \<le> pfd_fd e)"

lemma arrived_registered:
  assumes "poll_entries p" "i < length (pp_fds p)" "arrived (pp_fds p ! i)"
  obtains c ch where "registered_at p (pfd_fd (pp_fds p ! i)) c ch" "ch_index ch = i"
  using assms wf_enabled_entry [of p i] unfolding poll_entries_def by (metis nth_mem)

lemma poll_entries_fillable:
  assumes p: "poll_entries p"
  shows "fillable p (pp_fds p)"
  unfolding fillable_def
proof (intro conjI ballI impI)
  fix e assume e: "e \<in> set (pp_fds p)" "arrived e"
  then obtain i where i: "i < length (pp_fds p)" "e = pp_fds p ! i" by (metis in_set_conv_nth)
  with e(2) obtain c ch where "registered_at p (pfd_fd e) c ch" by (metis arrived_registered [OF p])
  then show "\<exists>c ch. pp_map p (pfd_fd e) = Some c \<and> pp_objs p c = Some ch"
    by (auto simp: registered_at_def)
  fix e' assume e': "e' \<in> set (pp_fds p)" "arrived e'" "pp_map p (pfd_fd e) = pp_map p (pfd_fd e')"
  from e'(1) obtain j where j: "j < length (pp_fds p)" "e' = pp_fds p ! j" by (metis in_set_conv_nth)
  obtain c ch where 1: "registered_at p (pfd_fd e) c ch" "ch_index ch = i"
    using arrived_registered [OF p i(1)] e(2) i(2) by metis
  obtain c' ch' where 2: "registered_at p (pfd_fd e') c' ch'" "ch_index ch' = j"
    using arrived_registered [OF p j(1)] e'(2) j(2) by metis
  from 1 2 e'(3) have "i = j" by (auto simp: registered_at_def)
  with i j show "pfd_revents e = pfd_revents e'" by simp
qed

lemma active_iff_arrived:
  assumes p: "poll_entries p" and r: "registered_at p f c ch"
  shows "c \<in> set (active_of p (pp_fds p)) \<longleftrightarrow> arrived (pp_fds p ! ch_index ch)"
    and "arrived (pp_fds p ! ch_index ch) \<Longrightarrow> pfd_fd (pp_fds p ! ch_index ch) = f"
    and "ch_index ch < length (pp_fds p)"
proof -
  have wf: "PollPoller_wf p" and m: "pp_map p f = Some c"
    using p r by (auto simp: poll_entries_def registered_at_def)
  from m show i: "ch_index ch < length (pp_fds p)"
    by (rule wf_registered [OF wf]) (use r in \<open>auto simp: registered_at_def\<close>)
  show fd: "pfd_fd (pp_fds p ! ch_index ch) = f" if a: "arrived (pp_fds p ! ch_index ch)"
  proof -
    obtain d dh where "registered_at p (pfd_fd (pp_fds p ! ch_index ch)) d dh" "ch_index dh = ch_index ch"
      using arrived_registered [OF p i a] by metis
    then show ?thesis using wf_index_unique [OF wf r] by metis
  qed
  have "arrived (pp_fds p ! ch_index ch)" if "c \<in> set (active_of p (pp_fds p))"
  proof -
    from that obtain j where j: "j < length (pp_fds p)" "arrived (pp_fds p ! j)"
      "c = the (pp_map p (pfd_fd (pp_fds p ! j)))"
      by (auto simp: active_of_def in_set_conv_nth)
    obtain d dh where d: "registered_at p (pfd_fd (pp_fds p ! j)) d dh" "ch_index dh = j"
      using arrived_registered [OF p j(1,2)] by metis
    then have "d = c" using j(3) by (simp add: registered_at_def)
    then have "j = ch_index ch" using d r by (auto simp: registered_at_def)
    with j show ?thesis by simp
  qed
  moreover have "c \<in> set (active_of p (pp_fds p))" if a: "arrived (pp_fds p ! ch_index ch)"
    using fd [OF a] a i m by (force simp: active_of_def)
  ultimately show "c \<in> set (active_of p (pp_fds p)) \<longleftrightarrow> arrived (pp_fds p ! ch_index ch)" by blast
qed

lemma filledD:
  "filled p es q \<Longrightarrow> e \<in> set es \<Longrightarrow> arrived e \<Longrightarrow> pp_map p (pfd_fd e) = Some d \<Longrightarrow>
    pp_objs q d = map_option (Channel_setRevents (pfd_revents e)) (pp_objs p d)"
  unfolding filled_def by blast

lemma filled_wf:
  assumes "PollPoller_wf p" "filled p es q"
  shows "PollPoller_wf q"
proof (rule wf_cong [OF assms(1)])
  fix d
  show "map_option (\<lambda>ch. (ch_fd ch, ch_index ch)) (pp_objs q d) =
      map_option (\<lambda>ch. (ch_fd ch, ch_index ch)) (pp_objs p d)"
  proof (cases "\<forall>e\<in>set es. arrived e \<longrightarrow> pp_map p (pfd_fd e) \<noteq> Some d")
    case True
    with assms(2) have "pp_objs q d = pp_objs p d" unfolding filled_def by blast
    then show ?thesis by simp
  next
    case False
    then obtain e where "e \<in> set es" "arrived e" "pp_map p (pfd_fd e) = Some d" by blast
    from filledD [OF assms(2) this]
    have "pp_objs q d = map_option (Channel_setRevents (pfd_revents e)) (pp_objs p d)" .
    then show ?thesis by (simp add: option.map_comp comp_def)
  qed
qed (use assms(2) in \<open>simp_all add: filled_def\<close>)

section \<open>Properties\<close>

text \<open>Two channels with descriptors 5 and 6: both enabled, and both disabled again, as when two
  connections are closed in one round of the event loop.\<close>

definition example_objs :: "chan_id \<Rightarrow> unit channel option" where
  "example_objs = [0 \<mapsto> Channel_new 5, 1 \<mapsto> Channel_new 6]"

definition reading_channel :: "fd \<Rightarrow> nat \<Rightarrow> unit channel" where
  "reading_channel f i = (Channel_new f)\<lparr>ch_events := kReadEvent, ch_index := i\<rparr>"

definition open_poller :: "unit poll_poller" where
  "open_poller = \<lparr>pp_objs = [0 \<mapsto> reading_channel 5 0, 1 \<mapsto> reading_channel 6 1],
     pp_map = [5 \<mapsto> 0, 6 \<mapsto> 1],
     pp_fds = [\<lparr>pfd_fd = 5, pfd_events = kReadEvent, pfd_revents = 0\<rparr>,
               \<lparr>pfd_fd = 6, pfd_events = kReadEvent, pfd_revents = 0\<rparr>]\<rparr>"

definition closed_poller :: "unit poll_poller" where
  "closed_poller = open_poller\<lparr>
     pp_objs := [0 \<mapsto> (reading_channel 5 0)\<lparr>ch_events := 0\<rparr>, 1 \<mapsto> (reading_channel 6 1)\<lparr>ch_events := 0\<rparr>],
     pp_fds := [\<lparr>pfd_fd = -6, pfd_events = 0, pfd_revents = 0\<rparr>,
                \<lparr>pfd_fd = -7, pfd_events = 0, pfd_revents = 0\<rparr>]\<rparr>"

lemmas example_defs = example_objs_def reading_channel_def open_poller_def closed_poller_def
  Channel_new_def Channel_setIndex_def

lemma open_poller_reached:
  "res_fold Channel_enableReading [0, 1] (PollPoller_new example_objs) = Inr open_poller"
  by (simp add: example_defs Channel_enableReading_def change_events_def Channel_update_def
      PollPoller_updateChannel_def PollPoller_new_def enable_reading_def poll_bits fun_eq_iff)

lemma closed_poller_reached:
  "res_fold Channel_disableAll [0, 1] open_poller = Inr closed_poller"
  by (simp add: example_defs Channel_disableAll_def change_events_def Channel_update_def
      PollPoller_updateChannel_def disable_all_def poll_bits fun_eq_iff Channel_isNoneEvent_def)

lemma open_poller_wf: "PollPoller_wf open_poller"
  by (auto simp: PollPoller_wf_def example_defs registered_at_def pfd_for_def less_Suc_eq split: if_splits)
    (rule exI [of _ 6], simp)

lemma closed_poller_wf: "PollPoller_wf closed_poller"
  by (auto simp: PollPoller_wf_def example_defs registered_at_def pfd_for_def less_Suc_eq split: if_splits)
    (rule exI [of _ 6], simp)

lemma open_poller_owns: "owns 0 5 open_poller" "owns 1 6 open_poller"
  by (simp_all add: owns_def example_defs)





text \<open>Removing a registered channel that is not the last of the vector dereferences a null pointer
  whenever the last entry is disabled: its descriptor is stored negated there, the lookup under the
  negated descriptor finds nothing.\<close>

theorem PollPoller_removeChannel_crashes:
  assumes "PollPoller_wf p" "registered_at p f c ch"
    "ch_index ch \<noteq> length (pp_fds p) - 1" "pfd_fd (last (pp_fds p)) < 0"
  shows "PollPoller_removeChannel c p = Inl Null_deref"
  using assms by (rule remove_null_deref)

theorem PollPoller_removeChannel_crashes_witness:
  "res_bind (res_fold Channel_enableReading [0, 1] (PollPoller_new example_objs))
     (\<lambda>p. res_bind (res_fold Channel_disableAll [0, 1] p) (PollPoller_removeChannel 0)) = Inl Null_deref"
proof -
  have "registered_at closed_poller 5 0 ((reading_channel 5 0)\<lparr>ch_events := 0\<rparr>)"
    by (simp add: registered_at_def example_defs)
  from PollPoller_removeChannel_crashes [OF closed_poller_wf this]
  have "PollPoller_removeChannel 0 closed_poller = Inl Null_deref" by (simp add: example_defs)
  then show ?thesis by (simp only: open_poller_reached closed_poller_reached res_bind_Inr)
qed

text \<open>C13: When poll reports arrived events, exactly the registered channels whose entry has events
  become active, in the order of the vector, each with its arrived events stored, and the poller
  stays consistent; the counter that should end the scan early never changes this.\<close>

theorem PollPoller_poll_activates:
  assumes wf: "PollPoller_wf p" and sys: "poll_contract sys_poll" "sys_poll (pp_fds p) = (r, fds)" "0 < r"
  shows "\<exists>q. PollPoller_poll sys_poll now p [] = Inr (now, q, active_of p fds) \<and> PollPoller_wf q \<and>
    (\<forall>f c ch. registered_at p f c ch \<longrightarrow>
       (c \<in> set (active_of p fds) \<longleftrightarrow> arrived (fds ! ch_index ch)) \<and>
       (arrived (fds ! ch_index ch) \<longrightarrow>
          map_option ch_revents (pp_objs q c) = Some (pfd_revents (fds ! ch_index ch))))"
proof -
  let ?p = "p\<lparr>pp_fds := fds\<rparr>"
  note d = poll_contractD [OF sys(1,2)]
  have "PollPoller_wf ?p" by (rule wf_cong [OF wf]) (simp_all add: d)
  then have p: "poll_entries ?p" using d(2) by (simp add: poll_entries_def)
  have same: "active_of ?p fds = active_of p fds" "\<And>f c ch. registered_at ?p f c ch = registered_at p f c ch"
    by (simp_all add: active_of_def registered_at_def)
  have "fillable ?p fds" using poll_entries_fillable [OF p] by simp
  from fill_active_spec [OF sys(3) this, of "[]"] obtain q where
    q: "fill_active r 0 fds ?p [] = Inr (q, active_of p fds)" "filled ?p fds q"
    using same by auto
  have "PollPoller_poll sys_poll now p [] = Inr (now, q, active_of p fds)"
    using q(1) sys by (simp add: PollPoller_poll_def)
  moreover have "PollPoller_wf q" using \<open>PollPoller_wf ?p\<close> q(2) by (rule filled_wf)
  moreover have "(c \<in> set (active_of p fds) \<longleftrightarrow> arrived (fds ! ch_index ch)) \<and>
      (arrived (fds ! ch_index ch) \<longrightarrow>
         map_option ch_revents (pp_objs q c) = Some (pfd_revents (fds ! ch_index ch)))"
    if r: "registered_at p f c ch" for f c ch
  proof -
    have r': "registered_at ?p f c ch" using r same by simp
    note a = active_iff_arrived [OF p r']
    have "map_option ch_revents (pp_objs q c) = Some (pfd_revents (fds ! ch_index ch))"
      if "arrived (fds ! ch_index ch)"
    proof -
      have "pp_objs q c = map_option (Channel_setRevents (pfd_revents (fds ! ch_index ch))) (pp_objs ?p c)"
        by (rule filledD [OF q(2)]) (use a that r' in \<open>simp_all add: registered_at_def\<close>)
      then show ?thesis using r by (simp add: registered_at_def)
    qed
    with a(1) same show ?thesis by simp
  qed
  ultimately show ?thesis by blast
qed

text \<open>A poll that reports POLLIN on every non-negative descriptor.\<close>

definition example_poll :: "pollfd list \<Rightarrow> int \<times> pollfd list" where
  "example_poll fds =
     (let fds' = map (\<lambda>e. e\<lparr>pfd_revents := (if pfd_fd e < 0 then 0 else POLLIN)\<rparr>) fds in
      (int (length (filter (\<lambda>e. pfd_revents e \<noteq> 0) fds')), fds'))"

theorem PollPoller_poll_activates_witness:
  "\<exists>q. PollPoller_poll example_poll 99 open_poller [] = Inr (99, q, [0, 1]) \<and>
     map_option ch_revents (pp_objs q 1) = Some POLLIN"
proof -
  have c: "poll_contract example_poll"
    by (auto simp: poll_contract_def example_poll_def Let_def comp_def)
  let ?fds = "map (\<lambda>e. e\<lparr>pfd_revents := POLLIN\<rparr>) (pp_fds open_poller)"
  have s: "example_poll (pp_fds open_poller) = (2, ?fds)"
    by (simp add: example_poll_def open_poller_def POLLIN_def)
  have r: "registered_at open_poller 6 1 (reading_channel 6 1)"
    by (simp add: registered_at_def example_defs)
  have a: "arrived (?fds ! 1)" "pfd_revents (?fds ! 1) = POLLIN" "ch_index (reading_channel 6 1) = 1"
    "active_of open_poller ?fds = [0, 1]"
    by (simp_all add: arrived_def example_defs POLLIN_def active_of_def)
  from PollPoller_poll_activates [OF open_poller_wf c s, of 99] obtain q where
    "PollPoller_poll example_poll 99 open_poller [] = Inr (99, q, active_of open_poller ?fds)"
    "map_option ch_revents (pp_objs q 1) = Some (pfd_revents (?fds ! 1))"
    using r a by fastforce
  with a show ?thesis by auto
qed

end
