(* ===== verification/Timer_Queue.thy ===== *)
theory Timer_Queue
  imports Bounce_Prelude "HOL-Library.Multiset"
begin

text \<open>
  Timers and the timer queue: \<^verbatim>\<open>bounce/timer.h\<close>, \<^verbatim>\<open>bounce/timer.cc\<close>,
  \<^verbatim>\<open>bounce/timer_queue.h\<close>, \<^verbatim>\<open>bounce/timer_queue.cc\<close>. Timers are objects in a
  store; the two multimaps (timers that fire once and timers that repeat) are lists of
  expiration and timer in the order of the keys, equal keys in the order of insertion. The
  operations work on every record that extends that of the queue, such as the event loop, which is
  what a callback sees. Times are integers in nanoseconds. What a callback does to the queue is a parameter. The argument of the
  last \<^verbatim>\<open>timerfd_settime\<close> call is part of the state. Shown here: the invariant of the queue,
  which timers fire and in which order, what repeating timers become, deletion, the arming of the
  timer descriptor, and two situations in which timers fire too early or not at all.
\<close>

section \<open>Timers\<close>

record 'cb timer =
  tm_expiration :: time
  tm_duration :: int
  tm_cb :: 'cb

definition Timer_new :: "time \<Rightarrow> int \<Rightarrow> 'cb \<Rightarrow> 'cb timer" where
  "Timer_new t d cb = \<lparr>tm_expiration = t, tm_duration = d, tm_cb = cb\<rparr>"

definition Timer_repeat :: "'cb timer \<Rightarrow> bool" where
  "Timer_repeat t \<longleftrightarrow> tm_duration t \<noteq> 0"

definition Timer_timerUpdate :: "'cb timer \<Rightarrow> time \<times> 'cb timer" where
  "Timer_timerUpdate t =
     (let t' = (if tm_duration t \<noteq> 0 then t\<lparr>tm_expiration := tm_expiration t + tm_duration t\<rparr> else t)
      in (tm_expiration t', t'))"

section \<open>Multimaps\<close>

text \<open>\<^verbatim>\<open>std::multimap\<close>: insertion puts an entry behind the entries with an equal key.\<close>

definition mm_insert :: "time \<Rightarrow> 'v \<Rightarrow> (time \<times> 'v) list \<Rightarrow> (time \<times> 'v) list" where
  "mm_insert k v xs = takeWhile (\<lambda>(k', _). k' \<le> k) xs @ (k, v) # dropWhile (\<lambda>(k', _). k' \<le> k) xs"

definition mm_upto :: "time \<Rightarrow> (time \<times> 'v) list \<Rightarrow> (time \<times> 'v) list" where
  "mm_upto k xs = takeWhile (\<lambda>(k', _). k' \<le> k) xs"

definition mm_upper_bound :: "time \<Rightarrow> (time \<times> 'v) list \<Rightarrow> (time \<times> 'v) list" where
  "mm_upper_bound k xs = dropWhile (\<lambda>(k', _). k' \<le> k) xs"

definition mm_lower_bound :: "time \<Rightarrow> (time \<times> 'v) list \<Rightarrow> (time \<times> 'v) list" where
  "mm_lower_bound k xs = dropWhile (\<lambda>(k', _). k' < k) xs"

text \<open>Iterators name the entry they point at, by its timer; \<open>None\<close> is the end.\<close>

fun mm_first :: "(time \<times> 'v) list \<Rightarrow> 'v option" where
  "mm_first [] = None"
| "mm_first ((k, v) # xs) = Some v"

fun mm_next :: "'v \<Rightarrow> (time \<times> 'v) list \<Rightarrow> 'v option" where
  "mm_next v [] = None"
| "mm_next v ((k, w) # xs) = (if w = v then mm_first xs else mm_next v xs)"

fun mm_from :: "'v option \<Rightarrow> (time \<times> 'v) list \<Rightarrow> (time \<times> 'v) list" where
  "mm_from it [] = []"
| "mm_from it ((k, v) # xs) = (if it = Some v then (k, v) # xs else mm_from it xs)"

section \<open>State of the queue\<close>

type_synonym timer_id = nat

record 'cb timer_queue =
  tq_timers :: "timer_id \<Rightarrow> 'cb timer"
  tq_once :: "(time \<times> timer_id) list"
  tq_repeat :: "(time \<times> timer_id) list"
  tq_min :: time
  tq_settime :: "(time \<times> int \<times> int) option"
  tq_fired :: "timer_id list"

text \<open>\<open>tq_settime\<close> holds the clock at the last call of \<^verbatim>\<open>timerfd_settime\<close> and the seconds and
  nanoseconds passed to it; \<open>tq_fired\<close> records the executed timers.\<close>

definition TimePoint_max :: time where
  "TimePoint_max = 2 ^ 63 - 1"

definition NanoSecondsPerSecond :: int where
  "NanoSecondsPerSecond = 1000000000"

definition TimerQueue_new :: "(timer_id \<Rightarrow> 'cb timer) \<Rightarrow> 'cb timer_queue" where
  "TimerQueue_new tms = \<lparr>tq_timers = tms, tq_once = [], tq_repeat = [], tq_min = TimePoint_max,
     tq_settime = None, tq_fired = []\<rparr>"

section \<open>Operations\<close>

definition expiration_of_first :: "('cb, 'z) timer_queue_scheme \<Rightarrow> (time \<times> timer_id) list \<Rightarrow> time" where
  "expiration_of_first q xs = (case xs of [] \<Rightarrow> TimePoint_max | (k, t) # _ \<Rightarrow> tm_expiration (tq_timers q t))"

definition TimerQueue_resetTimerfd :: "time \<Rightarrow> ('cb, 'z) timer_queue_scheme \<Rightarrow> ('cb, 'z) timer_queue_scheme" where
  "TimerQueue_resetTimerfd now q =
     (let once_expiration = expiration_of_first q (tq_once q);
          repeat_expiration = expiration_of_first q (tq_repeat q);
          q = q\<lparr>tq_min := if once_expiration < repeat_expiration then once_expiration else repeat_expiration\<rparr>
      in if tq_min q \<noteq> TimePoint_max then
           (let diff = tq_min q - now;
                diff = (if diff < 0 then 10 else diff)
            in q\<lparr>tq_settime := Some (now, diff sdiv NanoSecondsPerSecond, diff smod NanoSecondsPerSecond)\<rparr>)
         else q)"

definition TimerQueue_addTimerInLoop :: "time \<Rightarrow> timer_id \<Rightarrow> ('cb, 'z) timer_queue_scheme \<Rightarrow> ('cb, 'z) timer_queue_scheme" where
  "TimerQueue_addTimerInLoop now t q =
     (let tm = tq_timers q t;
          q = (if \<not> Timer_repeat tm then q\<lparr>tq_once := mm_insert (tm_expiration tm) t (tq_once q)\<rparr>
               else q\<lparr>tq_repeat := mm_insert (tm_expiration tm) t (tq_repeat q)\<rparr>)
      in if tm_expiration tm < tq_min q then TimerQueue_resetTimerfd now q else q)"

fun delete_scan :: "(timer_id \<Rightarrow> 'cb timer) \<Rightarrow> timer_id \<Rightarrow> (time \<times> timer_id) list \<Rightarrow> (time \<times> timer_id) list" where
  "delete_scan tms t [] = []"
| "delete_scan tms t ((k, u) # xs) =
     (if tm_expiration (tms u) > tm_expiration (tms t) then (k, u) # xs
      else if u = t then xs
      else (k, u) # delete_scan tms t xs)"

definition TimerQueue_deleteTimerInLoop :: "timer_id \<Rightarrow> ('cb, 'z) timer_queue_scheme \<Rightarrow> ('cb, 'z) timer_queue_scheme" where
  "TimerQueue_deleteTimerInLoop t q =
     (let e = tm_expiration (tq_timers q t) in
      q\<lparr>tq_repeat := takeWhile (\<lambda>(k, _). k < e) (tq_repeat q) @
                    delete_scan (tq_timers q) t (mm_lower_bound e (tq_repeat q))\<rparr>)"

definition Timer_execCallback ::
  "('cb \<Rightarrow> ('cb, 'z) timer_queue_scheme \<Rightarrow> ('cb, 'z) timer_queue_scheme) \<Rightarrow> timer_id \<Rightarrow> ('cb, 'z) timer_queue_scheme \<Rightarrow> ('cb, 'z) timer_queue_scheme" where
  "Timer_execCallback exec t q = exec (tm_cb (tq_timers q t)) (q\<lparr>tq_fired := tq_fired q @ [t]\<rparr>)"

text \<open>
  The loop over the expired repeating timers. A callback may insert timers into the map that is
  being iterated, so the loop may not end; \<open>None\<close> stands for that. An iterator that runs past the
  end or whose entry is gone is the error \<open>Null_deref\<close>.
\<close>

partial_function (option) repeat_loop ::
  "('cb \<Rightarrow> ('cb, 'z) timer_queue_scheme \<Rightarrow> ('cb, 'z) timer_queue_scheme) \<Rightarrow> timer_id option \<Rightarrow> timer_id option \<Rightarrow> timer_id list \<Rightarrow>
   ('cb, 'z) timer_queue_scheme \<Rightarrow> (('cb, 'z) timer_queue_scheme \<times> timer_id list) res option" where
  "repeat_loop exec upper_it it to_update q =
     (if it = upper_it then Some (Inr (q, to_update))
      else case it of
        None \<Rightarrow> Some (Inl Null_deref)
      | Some t \<Rightarrow>
          (let q' = Timer_execCallback exec t q in
           if t \<notin> snd ` set (tq_repeat q') then Some (Inl Null_deref)
           else repeat_loop exec upper_it (mm_next t (tq_repeat q')) (to_update @ [t]) q'))"

definition reinsert :: "timer_id \<Rightarrow> ('cb, 'z) timer_queue_scheme \<Rightarrow> ('cb, 'z) timer_queue_scheme" where
  "reinsert t q =
     (let (new_time, tm) = Timer_timerUpdate (tq_timers q t) in
      q\<lparr>tq_timers := (tq_timers q)(t := tm), tq_repeat := mm_insert new_time t (tq_repeat q)\<rparr>)"

definition fire_once :: "('cb \<Rightarrow> ('cb, 'z) timer_queue_scheme \<Rightarrow> ('cb, 'z) timer_queue_scheme) \<Rightarrow> time \<Rightarrow> ('cb, 'z) timer_queue_scheme \<Rightarrow> ('cb, 'z) timer_queue_scheme" where
  "fire_once exec now q =
     (let to_delete = mm_upto now (tq_once q) in
      fold (\<lambda>(k, t). Timer_execCallback exec t) to_delete (q\<lparr>tq_once := mm_upper_bound now (tq_once q)\<rparr>))"

definition finish_repeat :: "time \<Rightarrow> timer_id option \<Rightarrow> timer_id list \<Rightarrow> ('cb, 'z) timer_queue_scheme \<Rightarrow> ('cb, 'z) timer_queue_scheme" where
  "finish_repeat now2 upper_it to_update q =
     TimerQueue_resetTimerfd now2 (fold reinsert to_update (q\<lparr>tq_repeat := mm_from upper_it (tq_repeat q)\<rparr>))"

text \<open>\<open>now\<close> is the clock at the start, \<open>now2\<close> the clock when the descriptor is reset.\<close>

definition TimerQueue_handleRead ::
  "('cb \<Rightarrow> ('cb, 'z) timer_queue_scheme \<Rightarrow> ('cb, 'z) timer_queue_scheme) \<Rightarrow> time \<Rightarrow> time \<Rightarrow> ('cb, 'z) timer_queue_scheme \<Rightarrow> ('cb, 'z) timer_queue_scheme res option" where
  "TimerQueue_handleRead exec now now2 q =
     (let q1 = fire_once exec now q;
          upper_it = mm_first (mm_upper_bound now (tq_repeat q1))
      in map_option (map_sum id (\<lambda>(q2, to_update). finish_repeat now2 upper_it to_update q2))
           (repeat_loop exec upper_it (mm_first (tq_repeat q1)) [] q1))"

text \<open>Adding from the loop thread is immediate, otherwise it is a task for the loop; deleting is
  always a task. The result is the changed queue and the tasks to be queued.\<close>

datatype timer_task = Add_timer timer_id | Delete_timer timer_id

definition TimerQueue_addTimer ::
  "bool \<Rightarrow> time \<Rightarrow> timer_id \<Rightarrow> time \<Rightarrow> int \<Rightarrow> 'cb \<Rightarrow> ('cb, 'z) timer_queue_scheme \<Rightarrow> ('cb, 'z) timer_queue_scheme \<times> timer_task list" where
  "TimerQueue_addTimer in_loop now t expiration duration cb q =
     (let q = q\<lparr>tq_timers := (tq_timers q)(t := Timer_new expiration duration cb)\<rparr> in
      if in_loop then (TimerQueue_addTimerInLoop now t q, []) else (q, [Add_timer t]))"

definition TimerQueue_deleteTimer :: "timer_id \<Rightarrow> timer_task list" where
  "TimerQueue_deleteTimer t = [Delete_timer t]"

section \<open>Invariant\<close>

definition entries_wf :: "(timer_id \<Rightarrow> 'cb timer) \<Rightarrow> bool \<Rightarrow> (time \<times> timer_id) list \<Rightarrow> bool" where
  "entries_wf tms rep xs \<longleftrightarrow> sorted (map fst xs) \<and>
     (\<forall>(k, t)\<in>set xs. tm_expiration (tms t) = k \<and> Timer_repeat (tms t) = rep)"

definition TimerQueue_wf :: "('cb, 'z) timer_queue_scheme \<Rightarrow> bool" where
  "TimerQueue_wf q \<longleftrightarrow> entries_wf (tq_timers q) False (tq_once q) \<and>
     entries_wf (tq_timers q) True (tq_repeat q) \<and>
     distinct (map snd (tq_once q)) \<and> distinct (map snd (tq_repeat q))"

definition pending :: "('cb, 'z) timer_queue_scheme \<Rightarrow> (time \<times> timer_id) set" where
  "pending q = set (tq_once q) \<union> set (tq_repeat q)"

text \<open>The queue wakes up in time: the armed minimum is not later than any pending timer.\<close>

definition covered :: "('cb, 'z) timer_queue_scheme \<Rightarrow> bool" where
  "covered q \<longleftrightarrow> (\<forall>(k, t)\<in>pending q. k < TimePoint_max \<longrightarrow> tq_min q \<le> k)"

text \<open>Callbacks that may add timers that fire once, and touch nothing else of the queue.\<close>

definition benign :: "('cb \<Rightarrow> ('cb, 'z) timer_queue_scheme \<Rightarrow> ('cb, 'z) timer_queue_scheme) \<Rightarrow> bool" where
  "benign exec \<longleftrightarrow> (\<forall>cb q. TimerQueue_wf q \<longrightarrow>
     TimerQueue_wf (exec cb q) \<and> tq_repeat (exec cb q) = tq_repeat q \<and> tq_fired (exec cb q) = tq_fired q \<and>
     (\<forall>(k, t)\<in>set (tq_repeat q). tq_timers (exec cb q) t = tq_timers q t) \<and>
     mset (tq_once q) \<subseteq># mset (tq_once (exec cb q)))"

section \<open>Ordered multimaps\<close>

locale ordered_multimap =
  fixes insert :: "'k::linorder \<Rightarrow> 'v \<Rightarrow> 'm \<Rightarrow> 'm"
    and upto :: "'k \<Rightarrow> 'm \<Rightarrow> 'm"
    and above :: "'k \<Rightarrow> 'm \<Rightarrow> 'm"
    and entries :: "'m \<Rightarrow> ('k \<times> 'v) list"
    and ok :: "'m \<Rightarrow> bool"
  assumes ok_sorted: "ok m \<Longrightarrow> sorted (map fst (entries m))"
    and insert_entries: "ok m \<Longrightarrow> mset (entries (insert k v m)) = add_mset (k, v) (mset (entries m))"
    and insert_ok: "ok m \<Longrightarrow> ok (insert k v m)"
    and split: "entries m = entries (upto k m) @ entries (above k m)"
    and upto_le: "ok m \<Longrightarrow> (k', v) \<in> set (entries (upto k m)) \<Longrightarrow> k' \<le> k"
    and above_gr: "ok m \<Longrightarrow> (k', v) \<in> set (entries (above k m)) \<Longrightarrow> k < k'"
begin

lemma upto_filter:
  assumes "ok m"
  shows "entries (upto k m) = filter (\<lambda>(k', v). k' \<le> k) (entries m)"
    and "entries (above k m) = filter (\<lambda>(k', v). k < k') (entries m)"
proof -
  have u: "filter (\<lambda>(k', v). k' \<le> k) (entries (upto k m)) = entries (upto k m)"
    "filter (\<lambda>(k', v). k < k') (entries (above k m)) = entries (above k m)"
    using upto_le [OF assms] above_gr [OF assms] by (auto simp: filter_id_conv)
  have n: "filter (\<lambda>(k', v). k' \<le> k) (entries (above k m)) = []"
    "filter (\<lambda>(k', v). k < k') (entries (upto k m)) = []"
    using upto_le [OF assms] above_gr [OF assms] by (fastforce simp: filter_empty_conv)+
  show "entries (upto k m) = filter (\<lambda>(k', v). k' \<le> k) (entries m)"
    "entries (above k m) = filter (\<lambda>(k', v). k < k') (entries m)"
    by (simp_all add: split [of m k] u n)
qed

lemma insert_set: "ok m \<Longrightarrow> set (entries (insert k v m)) = Set.insert (k, v) (set (entries m))"
  using arg_cong [OF insert_entries, of m set_mset k v] by simp

end

lemma mm_parts: "mm_upto k xs @ mm_upper_bound k xs = xs"
  by (simp add: mm_upto_def mm_upper_bound_def)

lemma mm_insert_eq: "mm_insert k v xs = mm_upto k xs @ (k, v) # mm_upper_bound k xs"
  by (simp add: mm_insert_def mm_upto_def mm_upper_bound_def)

lemma mm_upto_le: "(k', v) \<in> set (mm_upto k xs) \<Longrightarrow> k' \<le> k"
  by (auto simp: mm_upto_def dest: set_takeWhileD)

lemma mm_upper_bound_gr:
  assumes "sorted (map fst xs)" "(k', v) \<in> set (mm_upper_bound k xs)"
  shows "k < k'"
  using assms by (induction xs) (auto simp: mm_upper_bound_def split: if_splits)

lemma sorted_mm_insert:
  assumes "sorted (map fst xs)"
  shows "sorted (map fst (mm_insert k v xs))"
proof -
  have s: "sorted (map fst (mm_upto k xs @ mm_upper_bound k xs))" using assms mm_parts by metis
  show ?thesis unfolding mm_insert_eq
    using s mm_upto_le [of _ _ k xs] mm_upper_bound_gr [OF assms, of _ _ k]
    by (fastforce simp: sorted_append)
qed

interpretation mm: ordered_multimap mm_insert mm_upto mm_upper_bound "\<lambda>xs. xs" "\<lambda>xs. sorted (map fst xs)"
proof unfold_locales
  fix m :: "(int \<times> 'a) list" and k v
  show "mset (mm_insert k v m) = add_mset (k, v) (mset m)"
    using arg_cong [OF mm_parts, of mset k m] by (simp add: mm_insert_eq)
qed (auto simp: sorted_mm_insert mm_parts mm_upto_le mm_upper_bound_gr)

section \<open>Adding, deleting and arming\<close>

lemma entries_wf_insert:
  assumes "entries_wf tms r xs" "Timer_repeat (tms t) = r" "tm_expiration (tms t) = k"
  shows "entries_wf tms r (mm_insert k t xs)"
  using assms mm.insert_set [of xs k t] by (auto simp: entries_wf_def sorted_mm_insert)

lemma distinct_mm_insert:
  "distinct (map snd (mm_insert k t xs)) \<longleftrightarrow> t \<notin> snd ` set xs \<and> distinct (map snd xs)"
proof -
  have "distinct (map snd (mm_upto k xs @ mm_upper_bound k xs)) = distinct (map snd xs)"
    "set (mm_upto k xs) \<union> set (mm_upper_bound k xs) = set xs"
    using mm_parts [of k xs] by (metis, metis set_append)
  then show ?thesis by (auto simp: mm_insert_eq)
qed

lemma expiration_of_first_wf:
  assumes "entries_wf (tq_timers q) r xs"
  shows "expiration_of_first q xs = (case xs of [] \<Rightarrow> TimePoint_max | (k, t) # _ \<Rightarrow> k)"
    and "(k, t) \<in> set xs \<Longrightarrow> expiration_of_first q xs \<le> k"
proof -
  show eq: "expiration_of_first q xs = (case xs of [] \<Rightarrow> TimePoint_max | (k, t) # _ \<Rightarrow> k)"
    using assms by (auto simp: expiration_of_first_def entries_wf_def split: list.splits)
  show "expiration_of_first q xs \<le> k" if "(k, t) \<in> set xs"
    using assms that unfolding eq by (cases xs) (force simp: entries_wf_def)+
qed

lemma reset_fields [simp]:
  "tq_timers (TimerQueue_resetTimerfd now q) = tq_timers q"
  "tq_once (TimerQueue_resetTimerfd now q) = tq_once q"
  "tq_repeat (TimerQueue_resetTimerfd now q) = tq_repeat q"
  "tq_fired (TimerQueue_resetTimerfd now q) = tq_fired q"
  "pending (TimerQueue_resetTimerfd now q) = pending q"
  by (simp_all add: TimerQueue_resetTimerfd_def Let_def pending_def)

lemma reset_wf [simp]: "TimerQueue_wf (TimerQueue_resetTimerfd now q) = TimerQueue_wf q"
  by (simp add: TimerQueue_wf_def)

lemma reset_min:
  "tq_min (TimerQueue_resetTimerfd now q) =
     min (expiration_of_first q (tq_once q)) (expiration_of_first q (tq_repeat q))"
  by (simp add: TimerQueue_resetTimerfd_def Let_def min_def expiration_of_first_def)

lemma reset_min_wf:
  assumes "TimerQueue_wf q" "\<forall>(k, t)\<in>pending q. k \<le> TimePoint_max"
  shows "tq_min (TimerQueue_resetTimerfd now q) = Min (insert TimePoint_max (fst ` pending q))"
proof -
  have w: "entries_wf (tq_timers q) False (tq_once q)" "entries_wf (tq_timers q) True (tq_repeat q)"
    using assms by (auto simp: TimerQueue_wf_def)
  note o = expiration_of_first_wf [OF w(1)] and r = expiration_of_first_wf [OF w(2)]
  show ?thesis unfolding reset_min
  proof (rule Min_eqI [symmetric])
    fix y assume "y \<in> insert TimePoint_max (fst ` pending q)"
    moreover have "expiration_of_first q (tq_once q) \<le> TimePoint_max"
      using assms(2) unfolding o(1) by (auto simp: pending_def split: list.splits)
    ultimately show "min (expiration_of_first q (tq_once q)) (expiration_of_first q (tq_repeat q)) \<le> y"
      using o(2) r(2) by (force simp: pending_def min_le_iff_disj)
  next
    show "min (expiration_of_first q (tq_once q)) (expiration_of_first q (tq_repeat q))
        \<in> insert TimePoint_max (fst ` pending q)"
      unfolding o(1) r(1) by (force simp: pending_def min_def split: list.splits)
  qed (simp add: pending_def)
qed

lemma reset_covered:
  assumes "TimerQueue_wf q"
  shows "covered (TimerQueue_resetTimerfd now q)"
proof -
  have w: "entries_wf (tq_timers q) False (tq_once q)" "entries_wf (tq_timers q) True (tq_repeat q)"
    using assms by (auto simp: TimerQueue_wf_def)
  then show ?thesis
    using expiration_of_first_wf(2) [OF w(1)] expiration_of_first_wf(2) [OF w(2)]
    by (auto simp: covered_def reset_min pending_def min_le_iff_disj)
qed

lemma reset_settime:
  assumes "tq_min (TimerQueue_resetTimerfd now q) = m" "m \<noteq> TimePoint_max"
  shows "\<exists>s n. tq_settime (TimerQueue_resetTimerfd now q) = Some (now, s, n) \<and>
    0 \<le> s \<and> 0 \<le> n \<and> n < NanoSecondsPerSecond \<and>
    s * NanoSecondsPerSecond + n = (if m < now then 10 else m - now)"
proof -
  define d where "d = (if m < now then 10 else m - now)"
  have d: "0 \<le> d" by (simp add: d_def)
  have "tq_settime (TimerQueue_resetTimerfd now q) =
      Some (now, d sdiv NanoSecondsPerSecond, d smod NanoSecondsPerSecond)"
    using assms by (auto simp: TimerQueue_resetTimerfd_def Let_def d_def expiration_of_first_def)
  moreover have "d sdiv NanoSecondsPerSecond = d div NanoSecondsPerSecond"
    "d smod NanoSecondsPerSecond = d mod NanoSecondsPerSecond"
    using d by (cases "d = 0"; simp add: NanoSecondsPerSecond_def signed_divide_int_eq_divide_int
        signed_modulo_int_eq_modulo_int)+
  ultimately show ?thesis using d unfolding d_def [symmetric]
    by (auto simp: NanoSecondsPerSecond_def pos_imp_zdiv_nonneg_iff)
qed

text \<open>The queue right after the insertion, before the descriptor is reset.\<close>

definition inserted :: "timer_id \<Rightarrow> ('cb, 'z) timer_queue_scheme \<Rightarrow> ('cb, 'z) timer_queue_scheme" where
  "inserted t q =
     (let tm = tq_timers q t in
      if \<not> Timer_repeat tm then q\<lparr>tq_once := mm_insert (tm_expiration tm) t (tq_once q)\<rparr>
      else q\<lparr>tq_repeat := mm_insert (tm_expiration tm) t (tq_repeat q)\<rparr>)"

lemma addTimerInLoop_eq:
  "TimerQueue_addTimerInLoop now t q =
     (if tm_expiration (tq_timers q t) < tq_min q then TimerQueue_resetTimerfd now (inserted t q)
      else inserted t q)"
  by (simp add: TimerQueue_addTimerInLoop_def inserted_def Let_def)

lemma inserted_wf:
  assumes "TimerQueue_wf q" "t \<notin> snd ` pending q"
  shows "TimerQueue_wf (inserted t q)"
  using assms
  by (auto simp: inserted_def Let_def TimerQueue_wf_def pending_def distinct_mm_insert intro!: entries_wf_insert)

lemma inserted_pending:
  assumes "TimerQueue_wf q"
  shows "pending (inserted t q) = insert (tm_expiration (tq_timers q t), t) (pending q)"
  using assms mm.insert_set [of "tq_once q" _ t] mm.insert_set [of "tq_repeat q" _ t]
  by (auto simp: inserted_def Let_def pending_def TimerQueue_wf_def entries_wf_def)

lemma inserted_fields [simp]:
  "tq_timers (inserted t q) = tq_timers q" "tq_min (inserted t q) = tq_min q"
  "tq_fired (inserted t q) = tq_fired q"
  by (simp_all add: inserted_def Let_def)

lemma add_spec:
  assumes "TimerQueue_wf q" "t \<notin> snd ` pending q"
  shows "TimerQueue_wf (TimerQueue_addTimerInLoop now t q)"
    "pending (TimerQueue_addTimerInLoop now t q) =
       insert (tm_expiration (tq_timers q t), t) (pending q)"
    "covered q \<Longrightarrow> covered (TimerQueue_addTimerInLoop now t q)"
proof -
  show "TimerQueue_wf (TimerQueue_addTimerInLoop now t q)"
    using inserted_wf [OF assms] by (simp add: addTimerInLoop_eq)
  show "pending (TimerQueue_addTimerInLoop now t q) =
      insert (tm_expiration (tq_timers q t), t) (pending q)"
    using inserted_pending [OF assms(1)] by (simp add: addTimerInLoop_eq)
  show "covered (TimerQueue_addTimerInLoop now t q)" if "covered q"
    using that reset_covered [OF inserted_wf [OF assms]] inserted_pending [OF assms(1)]
    by (auto simp: addTimerInLoop_eq covered_def)
qed

lemma delete_scan_spec:
  assumes "entries_wf tms r xs" "distinct (map snd xs)" "\<forall>(k, u)\<in>set xs. tm_expiration (tms t) \<le> k"
  shows "delete_scan tms t xs = filter (\<lambda>(k, u). u \<noteq> t) xs"
  using assms
proof (induction xs)
  case (Cons x xs)
  obtain k u where x: "x = (k, u)" by (cases x)
  have k: "tm_expiration (tms u) = k" using Cons.prems(1) x by (simp add: entries_wf_def)
  show ?case
  proof (cases "k > tm_expiration (tms t)")
    case True
    have "u' \<noteq> t" if m: "(k', u') \<in> set (x # xs)" for k' u'
    proof -
      have "k \<le> k'" using m Cons.prems(1) x by (force simp: entries_wf_def)
      moreover have "tm_expiration (tms u') = k'" using m Cons.prems(1) by (auto simp: entries_wf_def)
      ultimately show ?thesis using True by auto
    qed
    then have "filter (\<lambda>(k, u). u \<noteq> t) (x # xs) = x # xs" by (auto simp: filter_id_conv)
    then show ?thesis using True x k by simp
  next
    case False
    have "entries_wf tms r xs" using Cons.prems(1) by (auto simp: entries_wf_def)
    then have IH: "delete_scan tms t xs = filter (\<lambda>(k, u). u \<noteq> t) xs" using Cons by simp
    have "filter (\<lambda>(k, u). u \<noteq> t) xs = xs" if "u = t"
      using that Cons.prems(2) x by (force simp: filter_id_conv)
    then show ?thesis using False x k IH by auto
  qed
qed simp

lemma delete_spec:
  assumes "TimerQueue_wf q"
  shows "TimerQueue_deleteTimerInLoop t q =
    q\<lparr>tq_repeat := filter (\<lambda>(k, u). u \<noteq> t) (tq_repeat q)\<rparr>"
proof -
  let ?e = "tm_expiration (tq_timers q t)" and ?xs = "tq_repeat q"
  let ?pre = "takeWhile (\<lambda>(k, _). k < ?e) ?xs" and ?suf = "mm_lower_bound ?e ?xs"
  have parts: "?xs = ?pre @ ?suf" by (simp add: mm_lower_bound_def)
  have w: "entries_wf (tq_timers q) True ?xs" "distinct (map snd ?xs)"
    using assms by (auto simp: TimerQueue_wf_def)
  have "\<forall>(k, u)\<in>set ?pre. u \<noteq> t"
    using w(1) by (auto simp: entries_wf_def dest!: set_takeWhileD)
  then have pre: "filter (\<lambda>(k, u). u \<noteq> t) ?pre = ?pre" by (auto simp: filter_id_conv)
  have ge: "\<forall>(k, u)\<in>set ?suf. ?e \<le> k"
  proof (cases "?suf")
    case (Cons x xs)
    then have "?e \<le> fst x" by (auto simp: mm_lower_bound_def dropWhile_eq_Cons_conv)
    moreover have "sorted (map fst (?pre @ ?suf))" using w(1) parts by (simp add: entries_wf_def)
    ultimately show ?thesis using Cons by (force simp: sorted_append)
  qed simp
  have "entries_wf (tq_timers q) True (?pre @ ?suf)" "distinct (map snd (?pre @ ?suf))"
    using w parts by simp_all
  then have "entries_wf (tq_timers q) True ?suf" "distinct (map snd ?suf)"
    by (auto simp: entries_wf_def sorted_append)
  then have "delete_scan (tq_timers q) t ?suf = filter (\<lambda>(k, u). u \<noteq> t) ?suf"
    using ge by (rule delete_scan_spec)
  moreover have "filter (\<lambda>(k, u). u \<noteq> t) ?xs =
      filter (\<lambda>(k, u). u \<noteq> t) ?pre @ filter (\<lambda>(k, u). u \<noteq> t) ?suf"
    by (subst parts) (simp only: filter_append)
  ultimately show ?thesis using pre by (simp add: TimerQueue_deleteTimerInLoop_def Let_def)
qed

lemma delete_wf:
  assumes "TimerQueue_wf q"
  shows "TimerQueue_wf (TimerQueue_deleteTimerInLoop t q)"
    "covered q \<Longrightarrow> covered (TimerQueue_deleteTimerInLoop t q)"
  using assms by (auto simp: delete_spec TimerQueue_wf_def entries_wf_def sorted_filter distinct_map_filter
      covered_def pending_def)

section \<open>Firing\<close>

definition kept :: "('cb, 'z) timer_queue_scheme \<Rightarrow> timer_id list \<Rightarrow> ('cb, 'z) timer_queue_scheme \<Rightarrow> bool" where
  "kept q fired q' \<longleftrightarrow> TimerQueue_wf q' \<and> tq_repeat q' = tq_repeat q \<and> tq_fired q' = tq_fired q @ fired \<and>
     (\<forall>(k, t)\<in>set (tq_repeat q). tq_timers q' t = tq_timers q t) \<and> mset (tq_once q) \<subseteq># mset (tq_once q')"

lemma kept_trans: "kept q f1 q1 \<Longrightarrow> kept q1 f2 q2 \<Longrightarrow> kept q (f1 @ f2) q2"
  unfolding kept_def by (fastforce intro: subset_mset.order_trans)

lemma execCallback_kept:
  assumes "benign exec" "TimerQueue_wf q"
  shows "kept q [t] (Timer_execCallback exec t q)"
proof -
  have "TimerQueue_wf (q\<lparr>tq_fired := tq_fired q @ [t]\<rparr>)" using assms(2) by (simp add: TimerQueue_wf_def)
  from assms(1) [unfolded benign_def, THEN spec, THEN spec, THEN mp, OF this, of "tm_cb (tq_timers q t)"]
  show ?thesis by (simp add: kept_def Timer_execCallback_def)
qed

lemma fold_execCallback_kept:
  assumes "benign exec"
  shows "TimerQueue_wf q \<Longrightarrow> kept q (map snd xs) (fold (\<lambda>(k, t). Timer_execCallback exec t) xs q)"
proof (induction xs arbitrary: q)
  case Nil
  then show ?case by (simp add: kept_def)
next
  case (Cons x xs)
  obtain k t where x: "x = (k, t)" by (cases x)
  have 1: "kept q [t] (Timer_execCallback exec t q)" using execCallback_kept [OF assms Cons.prems] .
  then have "kept (Timer_execCallback exec t q) (map snd xs)
      (fold (\<lambda>(k, t). Timer_execCallback exec t) xs (Timer_execCallback exec t q))"
    by (intro Cons.IH) (simp add: kept_def)
  from kept_trans [OF 1 this] show ?case by (simp add: x)
qed

lemma fire_once_kept:
  assumes "benign exec" "TimerQueue_wf q"
  shows "kept (q\<lparr>tq_once := mm_upper_bound now (tq_once q)\<rparr>) (map snd (mm_upto now (tq_once q)))
    (fire_once exec now q)"
proof -
  have p: "tq_once q = mm_upto now (tq_once q) @ mm_upper_bound now (tq_once q)" by (simp add: mm_parts)
  have "TimerQueue_wf (q\<lparr>tq_once := mm_upper_bound now (tq_once q)\<rparr>)"
    using assms(2) arg_cong [OF p, of "\<lambda>xs. sorted (map fst xs)"] arg_cong [OF p, of set]
      arg_cong [OF p, of "\<lambda>xs. distinct (map snd xs)"]
    by (auto simp: TimerQueue_wf_def entries_wf_def sorted_append)
  from fold_execCallback_kept [OF assms(1) this] show ?thesis by (simp add: fire_once_def)
qed

lemma mm_first_notin: "t \<notin> snd ` set xs \<Longrightarrow> mm_first xs \<noteq> Some t"
  by (cases xs) auto

lemma mm_next_split: "t \<notin> snd ` set pre \<Longrightarrow> mm_next t (pre @ (k, t) # xs) = mm_first xs"
  by (induction pre) auto

lemma mm_from_split: "distinct (map snd (pre @ xs)) \<Longrightarrow> mm_from (mm_first xs) (pre @ xs) = xs"
proof (induction pre)
  case Nil
  then show ?case by (cases xs) auto
next
  case (Cons x pre)
  then have "mm_first xs \<noteq> Some (snd x)" by (intro mm_first_notin) auto
  with Cons show ?case by (cases x) auto
qed

lemma repeat_loop_spec:
  assumes "benign exec"
  shows "TimerQueue_wf q \<Longrightarrow> tq_repeat q = pre @ mid @ post \<Longrightarrow>
    \<exists>q'. repeat_loop exec (mm_first post) (mm_first (mid @ post)) acc q =
        Some (Inr (q', acc @ map snd mid)) \<and> kept q (map snd mid) q'"
proof (induction mid arbitrary: pre acc q)
  case Nil
  then show ?case by (subst repeat_loop.simps) (simp add: kept_def)
next
  case (Cons x mid)
  obtain k t where x: "x = (k, t)" by (cases x)
  let ?q = "Timer_execCallback exec t q"
  have k1: "kept q [t] ?q" using execCallback_kept [OF assms Cons.prems(1)] .
  have rep: "tq_repeat ?q = (pre @ [x]) @ mid @ post" and wf: "TimerQueue_wf ?q"
    using k1 Cons.prems(2) by (simp_all add: kept_def)
  obtain q' where q': "repeat_loop exec (mm_first post) (mm_first (mid @ post)) (acc @ [t]) ?q =
      Some (Inr (q', (acc @ [t]) @ map snd mid))" "kept ?q (map snd mid) q'"
    using Cons.IH [OF wf rep] by blast
  have d: "distinct (map snd (tq_repeat q))" using Cons.prems(1) by (simp add: TimerQueue_wf_def)
  then have "mm_first post \<noteq> Some t" "t \<notin> snd ` set pre"
    using Cons.prems(2) x by (auto intro!: mm_first_notin)
  moreover from this(2) have "mm_next t (tq_repeat ?q) = mm_first (mid @ post)"
    using rep x mm_next_split [of t pre k "mid @ post"] by simp
  moreover have "t \<in> snd ` set (tq_repeat ?q)" using rep x by force
  ultimately have "repeat_loop exec (mm_first post) (mm_first ((x # mid) @ post)) acc q =
      Some (Inr (q', acc @ map snd (x # mid)))"
    by (subst repeat_loop.simps) (use x q'(1) in \<open>auto simp: Let_def\<close>)
  with kept_trans [OF k1 q'(2)] show ?case using x by auto
qed

section \<open>Repeating\<close>

definition next_time :: "('cb, 'z) timer_queue_scheme \<Rightarrow> timer_id \<Rightarrow> time \<times> timer_id" where
  "next_time q t = (tm_expiration (tq_timers q t) + tm_duration (tq_timers q t), t)"

lemma reinsert_repeating:
  assumes "Timer_repeat (tq_timers q t)"
  shows "reinsert t q =
    q\<lparr>tq_timers := (tq_timers q)(t := (tq_timers q t)\<lparr>tm_expiration := fst (next_time q t)\<rparr>),
      tq_repeat := mm_insert (fst (next_time q t)) t (tq_repeat q)\<rparr>"
  using assms by (simp add: reinsert_def Timer_timerUpdate_def Timer_repeat_def next_time_def)

lemma entries_wf_upd:
  assumes "entries_wf tms r xs" "t \<notin> snd ` set xs"
  shows "entries_wf (tms(t := x)) r xs"
proof -
  have "\<forall>(k, u)\<in>set xs. u \<noteq> t" using assms(2) by force
  with assms(1) show ?thesis by (fastforce simp: entries_wf_def)
qed

lemma reinsert_wf:
  assumes wf: "TimerQueue_wf q" and t: "Timer_repeat (tq_timers q t)" "t \<notin> snd ` set (tq_repeat q)"
  shows "TimerQueue_wf (reinsert t q)"
proof -
  let ?tms = "(tq_timers q)(t := (tq_timers q t)\<lparr>tm_expiration := fst (next_time q t)\<rparr>)"
  have w: "entries_wf (tq_timers q) False (tq_once q)" "entries_wf (tq_timers q) True (tq_repeat q)"
    using wf by (simp_all add: TimerQueue_wf_def)
  have "t \<notin> snd ` set (tq_once q)" using w(1) t(1) by (auto simp: entries_wf_def)
  then have "entries_wf ?tms False (tq_once q)" "entries_wf ?tms True (tq_repeat q)"
    using w t(2) by (auto intro: entries_wf_upd)
  moreover have "Timer_repeat (?tms t)" "tm_expiration (?tms t) = fst (next_time q t)"
    using t(1) by (simp_all add: Timer_repeat_def)
  ultimately show ?thesis using wf t(2)
    by (auto simp: reinsert_repeating [OF t(1)] TimerQueue_wf_def distinct_mm_insert intro!: entries_wf_insert)
qed

lemma fold_reinsert_spec:
  assumes "TimerQueue_wf q" "\<forall>t\<in>set ts. Timer_repeat (tq_timers q t) \<and> t \<notin> snd ` set (tq_repeat q)" "distinct ts"
  shows "TimerQueue_wf (fold reinsert ts q) \<and>
    mset (tq_repeat (fold reinsert ts q)) = mset (tq_repeat q) + mset (map (next_time q) ts) \<and>
    tq_once (fold reinsert ts q) = tq_once q \<and> tq_fired (fold reinsert ts q) = tq_fired q"
  using assms
proof (induction ts arbitrary: q)
  case (Cons t ts)
  have t: "Timer_repeat (tq_timers q t)" "t \<notin> snd ` set (tq_repeat q)" using Cons.prems(2) by auto
  let ?q = "reinsert t q"
  note eq = reinsert_repeating [OF t(1)]
  have s: "sorted (map fst (tq_repeat q))" using Cons.prems(1) by (simp add: TimerQueue_wf_def entries_wf_def)
  have "\<forall>u\<in>set ts. Timer_repeat (tq_timers ?q u) \<and> u \<notin> snd ` set (tq_repeat ?q)"
    using Cons.prems(2,3) mm.insert_set [OF s] by (auto simp: eq)
  moreover have "distinct ts" using Cons.prems(3) by simp
  ultimately have IH: "TimerQueue_wf (fold reinsert ts ?q) \<and>
      mset (tq_repeat (fold reinsert ts ?q)) = mset (tq_repeat ?q) + mset (map (next_time ?q) ts) \<and>
      tq_once (fold reinsert ts ?q) = tq_once ?q \<and> tq_fired (fold reinsert ts ?q) = tq_fired ?q"
    using Cons.IH [OF reinsert_wf [OF Cons.prems(1) t]] by blast
  have "image_mset (next_time ?q) (mset ts) = image_mset (next_time q) (mset ts)"
    using Cons.prems(3) by (intro image_mset_cong) (auto simp: eq next_time_def)
  moreover have "mset (tq_repeat ?q) = add_mset (next_time q t) (mset (tq_repeat q))"
    using mm.insert_entries [OF s] by (simp add: eq next_time_def)
  moreover have "tq_once ?q = tq_once q" "tq_fired ?q = tq_fired q" by (simp_all add: eq)
  ultimately show ?case using IH by simp
qed simp

lemma handleRead_spec:
  assumes b: "benign exec" and wf: "TimerQueue_wf q"
  shows "\<exists>q'. TimerQueue_handleRead exec now now2 q = Some (Inr q') \<and> TimerQueue_wf q' \<and> covered q' \<and>
    tq_fired q' = tq_fired q @ map snd (mm_upto now (tq_once q)) @ map snd (mm_upto now (tq_repeat q)) \<and>
    mset (mm_upper_bound now (tq_once q)) \<subseteq># mset (tq_once q') \<and>
    mset (tq_repeat q') = mset (mm_upper_bound now (tq_repeat q)) +
      mset (map (next_time q) (map snd (mm_upto now (tq_repeat q))))"
proof -
  let ?due = "mm_upto now (tq_repeat q)" and ?later = "mm_upper_bound now (tq_repeat q)"
  let ?q1 = "fire_once exec now q"
  have k1: "kept (q\<lparr>tq_once := mm_upper_bound now (tq_once q)\<rparr>) (map snd (mm_upto now (tq_once q))) ?q1"
    using fire_once_kept [OF b wf] .
  have rep1: "tq_repeat ?q1 = [] @ ?due @ ?later" and wf1: "TimerQueue_wf ?q1"
    using k1 by (simp_all add: kept_def mm_parts)
  obtain q2 where q2: "repeat_loop exec (mm_first ?later) (mm_first (?due @ ?later)) [] ?q1 =
      Some (Inr (q2, map snd ?due))" and k2: "kept ?q1 (map snd ?due) q2"
    using repeat_loop_spec [OF b wf1 rep1, of "[]"] unfolding append_Nil by blast
  have wf2: "TimerQueue_wf q2" and rep2: "tq_repeat q2 = ?due @ ?later"
    using k2 rep1 by (simp_all add: kept_def)
  let ?q3 = "q2\<lparr>tq_repeat := mm_from (mm_first ?later) (tq_repeat q2)\<rparr>"
  have d: "distinct (map snd (?due @ ?later))" using wf2 rep2 by (simp add: TimerQueue_wf_def)
  have rep3: "tq_repeat ?q3 = ?later" using mm_from_split [OF d] rep2 by simp
  have wf3: "TimerQueue_wf ?q3"
    using wf2 rep2 rep3 d by (auto simp: TimerQueue_wf_def entries_wf_def sorted_append)
  have tms: "tq_timers q2 t = tq_timers q t" if "t \<in> snd ` set (tq_repeat q)" for t
    using that k1 k2 rep1 by (fastforce simp: kept_def mm_parts)
  have "\<forall>t\<in>set (map snd ?due). Timer_repeat (tq_timers ?q3 t) \<and> t \<notin> snd ` set (tq_repeat ?q3)"
    using wf2 rep2 d unfolding rep3 by (auto simp: TimerQueue_wf_def entries_wf_def)
  then have f: "TimerQueue_wf (fold reinsert (map snd ?due) ?q3) \<and>
      mset (tq_repeat (fold reinsert (map snd ?due) ?q3)) = mset ?later + mset (map (next_time ?q3) (map snd ?due)) \<and>
      tq_once (fold reinsert (map snd ?due) ?q3) = tq_once ?q3 \<and> tq_fired (fold reinsert (map snd ?due) ?q3) = tq_fired ?q3"
    using fold_reinsert_spec [OF wf3, of "map snd ?due"] d rep3 by simp
  have nt: "map (next_time ?q3) (map snd ?due) = map (next_time q) (map snd ?due)"
  proof -
    have "set ?due \<subseteq> set (tq_repeat q)" by (auto simp: mm_upto_def dest: set_takeWhileD)
    then have "tq_timers q2 t = tq_timers q t" if "t \<in> snd ` set ?due" for t using that tms by blast
    then show ?thesis by (auto simp: next_time_def)
  qed
  have "TimerQueue_handleRead exec now now2 q =
      Some (Inr (finish_repeat now2 (mm_first ?later) (map snd ?due) q2))"
    using q2 rep1 by (simp add: TimerQueue_handleRead_def mm_parts Let_def k1 [unfolded kept_def])
  moreover have "covered (finish_repeat now2 (mm_first ?later) (map snd ?due) q2)"
    unfolding finish_repeat_def by (rule reset_covered) (use f in simp)
  ultimately show ?thesis
    using f k1 k2 unfolding finish_repeat_def nt
    by (auto simp: kept_def intro: subset_mset.order_trans)
qed

section \<open>Properties\<close>

text \<open>A queue with a timer that fires once at 50 and timers that repeat from 30 every 20 and from 90
  every 40. The example callbacks add a timer that fires once, or nothing.\<close>

definition example_timers :: "timer_id \<Rightarrow> bool timer" where
  "example_timers = (\<lambda>t. Timer_new 0 0 False)
     (1 := Timer_new 50 0 False, 2 := Timer_new 30 20 False, 3 := Timer_new 90 40 False)"

definition example_queue :: "bool timer_queue" where
  "example_queue = fold (TimerQueue_addTimerInLoop 10) [1, 2, 3] (TimerQueue_new example_timers)"

lemma example_queue_eq:
  "example_queue = \<lparr>tq_timers = example_timers, tq_once = [(50, 1)], tq_repeat = [(30, 2), (90, 3)],
     tq_min = 30, tq_settime = Some (10, 0, 20), tq_fired = []\<rparr>"
  by (simp add: example_queue_def TimerQueue_new_def TimerQueue_addTimerInLoop_def example_timers_def
      Timer_new_def Timer_repeat_def mm_insert_def TimerQueue_resetTimerfd_def expiration_of_first_def
      TimePoint_max_def NanoSecondsPerSecond_def signed_divide_int_def signed_modulo_int_def)

lemma example_queue_wf: "TimerQueue_wf example_queue"
  by (simp add: example_queue_eq TimerQueue_wf_def entries_wf_def example_timers_def Timer_new_def Timer_repeat_def)

definition no_callback :: "bool \<Rightarrow> bool timer_queue \<Rightarrow> bool timer_queue" where
  "no_callback cb q = q"

lemma no_callback_benign: "benign no_callback"
  by (simp add: benign_def no_callback_def)




lemma example_queue_covered: "covered example_queue"
  by (simp add: example_queue_eq covered_def pending_def)


text \<open>Deleting a timer in the loop removes exactly that timer from the repeating timers and changes
  nothing else, whether it is there or not; the early exit of the scan never stops before it. The
  queue stays consistent and armed in time.\<close>

theorem TimerQueue_deleteTimerInLoop_correct:
  assumes "TimerQueue_wf q"
  shows "TimerQueue_deleteTimerInLoop t q = q\<lparr>tq_repeat := filter (\<lambda>(k, u). u \<noteq> t) (tq_repeat q)\<rparr> \<and>
    TimerQueue_wf (TimerQueue_deleteTimerInLoop t q) \<and>
    (covered q \<longrightarrow> covered (TimerQueue_deleteTimerInLoop t q))"
  using delete_spec [OF assms] delete_wf [OF assms] by simp

theorem TimerQueue_deleteTimerInLoop_correct_witness:
  "tq_repeat (TimerQueue_deleteTimerInLoop 3 example_queue) = [(30, 2)]"
  using TimerQueue_deleteTimerInLoop_correct [OF example_queue_wf, of 3] by (simp add: example_queue_eq)

text \<open>C17: Resetting the descriptor of a consistent queue sets the minimum to the earliest pending
  expiration and arms the descriptor with exactly the time until then, split into seconds and
  nanoseconds, or with ten nanoseconds when the expiration has passed; when the earliest timer
  expires at this very instant, it passes zero seconds and zero nanoseconds, which disarms the
  descriptor, and the timer does not fire.\<close>

theorem TimerQueue_resetTimerfd_arms:
  assumes "TimerQueue_wf q" "pending q \<noteq> {}" "\<forall>(k, t)\<in>pending q. k < TimePoint_max"
  shows "\<exists>m s n. tq_min (TimerQueue_resetTimerfd now q) = m \<and> m = Min (fst ` pending q) \<and>
    tq_settime (TimerQueue_resetTimerfd now q) = Some (now, s, n) \<and>
    0 \<le> s \<and> 0 \<le> n \<and> n < NanoSecondsPerSecond \<and>
    s * NanoSecondsPerSecond + n = (if m < now then 10 else m - now) \<and>
    ((s, n) = (0, 0) \<longleftrightarrow> m = now)"
proof -
  let ?m = "Min (fst ` pending q)"
  have fin: "finite (fst ` pending q)" "fst ` pending q \<noteq> {}" using assms(2) by (simp_all add: pending_def)
  have "?m \<in> fst ` pending q" using fin by (rule Min_in)
  then have less: "?m < TimePoint_max" using assms(3) by auto
  have "\<forall>(k, t)\<in>pending q. k \<le> TimePoint_max" using assms(3) by auto
  from reset_min_wf [OF assms(1) this, of now] have m: "tq_min (TimerQueue_resetTimerfd now q) = ?m"
    by (simp only: Min_insert [OF fin] min_absorb2 [OF less_imp_le [OF less]])
  obtain s n where sn: "tq_settime (TimerQueue_resetTimerfd now q) = Some (now, s, n)" "0 \<le> s" "0 \<le> n"
    "n < NanoSecondsPerSecond" "s * NanoSecondsPerSecond + n = (if ?m < now then 10 else ?m - now)"
    using reset_settime [OF m] less by auto
  have "(s, n) = (0, 0) \<longleftrightarrow> s * NanoSecondsPerSecond + n = 0"
    using sn(2-3) by (auto simp: NanoSecondsPerSecond_def)
  then have "(s, n) = (0, 0) \<longleftrightarrow> ?m = now" using sn(5) by auto
  with m sn show ?thesis by blast
qed

theorem TimerQueue_resetTimerfd_arms_witness:
  "tq_settime (TimerQueue_resetTimerfd 30 example_queue) = Some (30, 0, 0)"
proof -
  have "pending example_queue \<noteq> {}" "\<forall>(k, t)\<in>pending example_queue. k < TimePoint_max"
    "Min (fst ` pending example_queue) = 30"
    by (simp_all add: example_queue_eq pending_def TimePoint_max_def)
  with TimerQueue_resetTimerfd_arms [OF example_queue_wf, of 30] show ?thesis by auto
qed

text \<open>A repeating timer whose callback adds another repeating timer from the loop thread makes that
  timer fire in the same round, long before its expiration, when no later repeating timer is
  pending: the end iterator taken before the loop also ends the grown map. Here timer 1 is due at 10,
  its callback adds timer 2 for time 1000, and both are executed at time 10.\<close>

theorem TimerQueue_handleRead_fires_early:
  "let add = (\<lambda>cb q. if cb then TimerQueue_addTimerInLoop 10 2 q else q);
       tms = (\<lambda>t. Timer_new 0 0 False)(1 := Timer_new 10 1000 True, 2 := Timer_new 1000 1000 False);
       q = TimerQueue_addTimerInLoop 0 1 (TimerQueue_new tms)
   in TimerQueue_wf q \<and> map_option (map_sum id tq_fired) (TimerQueue_handleRead add 10 10 q) = Some (Inr [1, 2])"
  by (simp add: Let_def TimerQueue_wf_def entries_wf_def TimerQueue_new_def TimerQueue_addTimerInLoop_def
      Timer_new_def Timer_repeat_def mm_insert_def TimerQueue_resetTimerfd_def expiration_of_first_def
      TimerQueue_handleRead_def fire_once_def mm_upto_def mm_upper_bound_def repeat_loop.simps
      Timer_execCallback_def finish_repeat_def reinsert_def Timer_timerUpdate_def)

end
