(* ===== verification/Event_Loop.thy ===== *)
theory Event_Loop
  imports Poll_Poller Timer_Queue
begin

text \<open>
  The event loop: \<^verbatim>\<open>bounce/event_loop.h\<close>, \<^verbatim>\<open>bounce/event_loop.cc\<close>. The record of a loop
  extends that of its timer queue; the poller is a field. The counter of the
  \<^verbatim>\<open>eventfd\<close> that wakes the loop up is part of the state. Functors and the handlers of the
  channels are names, and what they do to the loop and to the rest of the program (the extension of
  the record) is given by the parameters of the operations. Shown here: what a new loop has
  registered, that a round started by the wake-up descriptor runs the queued tasks, and that a task
  queued by a running task is left behind without a wake-up.
\<close>

section \<open>State\<close>

text \<open>The callbacks of the channels of a loop: the two the loop installs itself and the handlers of
  its clients. The tasks: the bound calls of the timer queue and functors of clients.\<close>

datatype 'h loop_cb = Weakup | Timer_read | Handler 'h

datatype 'f task = Timer_op timer_task | Functor 'f

record ('f, 'h) event_loop = "'f timer_queue" +
  el_looping :: bool
  el_stop :: bool
  el_doing :: bool
  el_thread :: nat
  el_poller :: "'h loop_cb poll_poller"
  el_active :: "chan_id list"
  el_cur :: "chan_id option"
  el_tasks :: "'f task list"
  el_weakup_fd :: fd
  el_counter :: nat

section \<open>Construction\<close>

text \<open>Create a channel object with a read callback and enable reading on it, as the constructors of
  the timer queue and of the loop do.\<close>

definition open_read_channel :: "chan_id \<Rightarrow> fd \<Rightarrow> 'cb \<Rightarrow> 'cb poll_poller \<Rightarrow> 'cb poll_poller res" where
  "open_read_channel c f cb p =
     Channel_enableReading c (p\<lparr>pp_objs := (pp_objs p)(c \<mapsto> Channel_setReadCallback cb (Channel_new f))\<rparr>)"

text \<open>The descriptors are the results of \<^verbatim>\<open>timerfd_create\<close> and \<^verbatim>\<open>eventfd\<close>; \<open>tc\<close> and
  \<open>wc\<close> name the two channel objects.\<close>

definition EventLoop_new ::
  "nat \<Rightarrow> chan_id \<Rightarrow> fd \<Rightarrow> chan_id \<Rightarrow> fd \<Rightarrow> (chan_id \<Rightarrow> 'h loop_cb channel option) \<Rightarrow> (timer_id \<Rightarrow> 'f timer) \<Rightarrow>
   ('f, 'h) event_loop res" where
  "EventLoop_new tid tc timer_fd wc weakup_fd objs tms =
     res_bind (open_read_channel tc timer_fd Timer_read (PollPoller_new objs)) (\<lambda>p.
     if weakup_fd = -1 then Inl (Process_exit (-1))
     else res_bind (open_read_channel wc weakup_fd Weakup p) (\<lambda>p.
       Inr (timer_queue.extend (TimerQueue_new tms)
         (event_loop.fields False False False tid p [] None [] weakup_fd 0))))"

section \<open>Tasks\<close>

text \<open>Writing one to a non-blocking \<^verbatim>\<open>eventfd\<close> adds one to its counter, or fails when the
  counter is at its maximum; reading sets it to zero, or fails when it is zero.\<close>

definition eventfd_write :: "('f, 'h, 'z) event_loop_scheme \<Rightarrow> ('f, 'h, 'z) event_loop_scheme" where
  "eventfd_write l = (if el_counter l < 2 ^ 64 - 2 then l\<lparr>el_counter := el_counter l + 1\<rparr> else l)"

definition EventLoop_weakupCallback :: "('f, 'h, 'z) event_loop_scheme \<Rightarrow> ('f, 'h, 'z) event_loop_scheme" where
  "EventLoop_weakupCallback l = l\<lparr>el_counter := 0\<rparr>"

text \<open>The two atomic parts of queueing: the insertion under the mutex, and the wake-up.\<close>

definition push_task :: "'f task \<Rightarrow> ('f, 'h, 'z) event_loop_scheme \<Rightarrow> ('f, 'h, 'z) event_loop_scheme" where
  "push_task f l = l\<lparr>el_tasks := el_tasks l @ [f]\<rparr>"

definition wake_up :: "nat \<Rightarrow> ('f, 'h, 'z) event_loop_scheme \<Rightarrow> ('f, 'h, 'z) event_loop_scheme" where
  "wake_up tid l = (if tid \<noteq> el_thread l \<and> \<not> el_doing l then eventfd_write l else l)"

definition EventLoop_queueTaskInThread ::
  "nat \<Rightarrow> 'f task \<Rightarrow> ('f, 'h, 'z) event_loop_scheme \<Rightarrow> ('f, 'h, 'z) event_loop_scheme" where
  "EventLoop_queueTaskInThread tid f l = wake_up tid (push_task f l)"

definition EventLoop_doTaskInThread ::
  "('f task \<Rightarrow> ('f, 'h, 'z) event_loop_scheme \<Rightarrow> ('f, 'h, 'z) event_loop_scheme res) \<Rightarrow> nat \<Rightarrow> 'f task \<Rightarrow>
   ('f, 'h, 'z) event_loop_scheme \<Rightarrow> ('f, 'h, 'z) event_loop_scheme res" where
  "EventLoop_doTaskInThread run tid f l =
     (if el_thread l = tid then run f l else Inr (EventLoop_queueTaskInThread tid f l))"

text \<open>What running a task does: a bound call of the timer queue, with the clock it reads when it
  adds a timer, or a functor.\<close>

fun run_task ::
  "('f \<Rightarrow> ('f, 'h, 'z) event_loop_scheme \<Rightarrow> ('f, 'h, 'z) event_loop_scheme res) \<Rightarrow> (timer_id \<Rightarrow> time) \<Rightarrow> 'f task \<Rightarrow>
   ('f, 'h, 'z) event_loop_scheme \<Rightarrow> ('f, 'h, 'z) event_loop_scheme res" where
  "run_task run clock (Timer_op (Add_timer t)) l = Inr (TimerQueue_addTimerInLoop (clock t) t l)"
| "run_task run clock (Timer_op (Delete_timer t)) l = Inr (TimerQueue_deleteTimerInLoop t l)"
| "run_task run clock (Functor f) l = run f l"

text \<open>The atomic parts of draining the tasks: the flag, the swap under the mutex, the flag again.\<close>

definition begin_tasks :: "('f, 'h, 'z) event_loop_scheme \<Rightarrow> ('f, 'h, 'z) event_loop_scheme" where
  "begin_tasks l = l\<lparr>el_doing := True\<rparr>"

definition swap_tasks :: "('f, 'h, 'z) event_loop_scheme \<Rightarrow> 'f task list \<times> ('f, 'h, 'z) event_loop_scheme" where
  "swap_tasks l = (el_tasks l, l\<lparr>el_tasks := []\<rparr>)"

definition end_tasks :: "('f, 'h, 'z) event_loop_scheme \<Rightarrow> ('f, 'h, 'z) event_loop_scheme" where
  "end_tasks l = l\<lparr>el_doing := False\<rparr>"

definition EventLoop_doTheTasks ::
  "('f task \<Rightarrow> ('f, 'h, 'z) event_loop_scheme \<Rightarrow> ('f, 'h, 'z) event_loop_scheme res) \<Rightarrow>
   ('f, 'h, 'z) event_loop_scheme \<Rightarrow> ('f, 'h, 'z) event_loop_scheme res" where
  "EventLoop_doTheTasks run l =
     (let (tmp_vec, l) = swap_tasks (begin_tasks l)
      in res_bind (res_fold run tmp_vec l) (\<lambda>l. Inr (end_tasks l)))"

section \<open>Channels and timers\<close>

definition EventLoop_updateChannel ::
  "chan_id \<Rightarrow> ('f, 'h, 'z) event_loop_scheme \<Rightarrow> ('f, 'h, 'z) event_loop_scheme res" where
  "EventLoop_updateChannel c l = map_sum id (\<lambda>p. l\<lparr>el_poller := p\<rparr>) (PollPoller_updateChannel c (el_poller l))"

definition EventLoop_removeChannel ::
  "chan_id \<Rightarrow> ('f, 'h, 'z) event_loop_scheme \<Rightarrow> ('f, 'h, 'z) event_loop_scheme res" where
  "EventLoop_removeChannel c l = map_sum id (\<lambda>p. l\<lparr>el_poller := p\<rparr>) (PollPoller_removeChannel c (el_poller l))"

text \<open>Adding a timer from the thread \<open>tid\<close> at time \<open>now\<close>; \<open>t\<close> is the new timer object.\<close>

definition EventLoop_addTimer ::
  "nat \<Rightarrow> time \<Rightarrow> timer_id \<Rightarrow> time \<Rightarrow> int \<Rightarrow> 'f \<Rightarrow> ('f, 'h, 'z) event_loop_scheme \<Rightarrow> ('f, 'h, 'z) event_loop_scheme" where
  "EventLoop_addTimer tid now t expiration duration cb l =
     (let (l, ops) = TimerQueue_addTimer (el_thread l = tid) now t expiration duration cb l
      in fold (\<lambda>x. EventLoop_queueTaskInThread tid (Timer_op x)) ops l)"

definition EventLoop_runAt ::
  "nat \<Rightarrow> time \<Rightarrow> timer_id \<Rightarrow> time \<Rightarrow> 'f \<Rightarrow> ('f, 'h, 'z) event_loop_scheme \<Rightarrow> ('f, 'h, 'z) event_loop_scheme" where
  "EventLoop_runAt tid now t expiration cb = EventLoop_addTimer tid now t expiration 0 cb"

definition EventLoop_runAfter ::
  "nat \<Rightarrow> time \<Rightarrow> time \<Rightarrow> timer_id \<Rightarrow> int \<Rightarrow> 'f \<Rightarrow> ('f, 'h, 'z) event_loop_scheme \<Rightarrow> ('f, 'h, 'z) event_loop_scheme" where
  "EventLoop_runAfter tid now now2 t delay cb = EventLoop_addTimer tid now2 t (now + delay) 0 cb"

definition EventLoop_runEvery ::
  "nat \<Rightarrow> time \<Rightarrow> time \<Rightarrow> timer_id \<Rightarrow> int \<Rightarrow> 'f \<Rightarrow> ('f, 'h, 'z) event_loop_scheme \<Rightarrow>
   timer_id \<times> ('f, 'h, 'z) event_loop_scheme" where
  "EventLoop_runEvery tid now now2 t interval cb l = (t, EventLoop_addTimer tid now2 t (now + interval) interval cb l)"

definition EventLoop_deleteTimer ::
  "nat \<Rightarrow> timer_id \<Rightarrow> ('f, 'h, 'z) event_loop_scheme \<Rightarrow> ('f, 'h, 'z) event_loop_scheme" where
  "EventLoop_deleteTimer tid t l =
     fold (\<lambda>x. EventLoop_queueTaskInThread tid (Timer_op x)) (TimerQueue_deleteTimer t) l"

section \<open>The loop\<close>

text \<open>What the callbacks do: timer callbacks, functors of tasks and handlers of channels.\<close>

record ('f, 'h, 's) env =
  env_timer :: "'f \<Rightarrow> 's \<Rightarrow> 's"
  env_run :: "'f \<Rightarrow> 's \<Rightarrow> 's res"
  env_call :: "'h \<Rightarrow> time option \<Rightarrow> 's \<Rightarrow> 's res"

text \<open>What the system gives in one round: the result of \<^verbatim>\<open>poll\<close>, the time \<^verbatim>\<open>poll\<close>
  returns, the clock at the start and at the end of a timer round, and the clock read when the task
  that adds a given timer runs.\<close>

record loop_input =
  in_poll :: "pollfd list \<Rightarrow> int \<times> pollfd list"
  in_time :: time
  in_now :: time
  in_now2 :: time
  in_clock :: "timer_id \<Rightarrow> time"

definition loop_call ::
  "('f, 'h, ('f, 'h, 'z) event_loop_scheme) env \<Rightarrow> loop_input \<Rightarrow> 'h loop_cb \<Rightarrow> time option \<Rightarrow>
   ('f, 'h, 'z) event_loop_scheme \<Rightarrow> ('f, 'h, 'z) event_loop_scheme res" where
  "loop_call env inp cb tm l =
     (case cb of
        Weakup \<Rightarrow> Inr (EventLoop_weakupCallback l)
      | Timer_read \<Rightarrow> of_partial (TimerQueue_handleRead (env_timer env) (in_now inp) (in_now2 inp) l)
      | Handler h \<Rightarrow> env_call env h tm l)"

text \<open>One active channel. A callback that destroys its own channel destroys the function object
  that is being executed and the members read after it; that is an error.\<close>

definition handle_active ::
  "('f, 'h, ('f, 'h, 'z) event_loop_scheme) env \<Rightarrow> loop_input \<Rightarrow> time \<Rightarrow> chan_id \<Rightarrow>
   ('f, 'h, 'z) event_loop_scheme \<Rightarrow> ('f, 'h, 'z) event_loop_scheme res" where
  "handle_active env inp recv_time c l =
     (let l = l\<lparr>el_cur := Some c\<rparr> in
      if pp_objs (el_poller l) c = None then Inl Null_deref
      else Channel_handleChannel (\<lambda>s. the (pp_objs (el_poller s) c))
        (\<lambda>cb tm s. res_bind (loop_call env inp cb tm s) (\<lambda>s'.
           if pp_objs (el_poller s') c = None then Inl Null_deref else Inr s'))
        recv_time l)"

definition EventLoop_round ::
  "('f, 'h, ('f, 'h, 'z) event_loop_scheme) env \<Rightarrow> loop_input \<Rightarrow>
   ('f, 'h, 'z) event_loop_scheme \<Rightarrow> ('f, 'h, 'z) event_loop_scheme res" where
  "EventLoop_round env inp l =
     (let l = l\<lparr>el_active := []\<rparr> in
      res_bind (PollPoller_poll (in_poll inp) (in_time inp) (el_poller l) (el_active l)) (\<lambda>(recv_time, p, active).
      res_bind (res_fold (handle_active env inp recv_time) active (l\<lparr>el_poller := p, el_active := active\<rparr>)) (\<lambda>l.
      EventLoop_doTheTasks (run_task (env_run env) (in_clock inp)) (l\<lparr>el_cur := None\<rparr>))))"

text \<open>The rounds of a loop for which the system has given the listed inputs.\<close>

fun loop_rounds ::
  "('f, 'h, ('f, 'h, 'z) event_loop_scheme) env \<Rightarrow> loop_input list \<Rightarrow>
   ('f, 'h, 'z) event_loop_scheme \<Rightarrow> ('f, 'h, 'z) event_loop_scheme res" where
  "loop_rounds env [] l = Inr l"
| "loop_rounds env (inp # inps) l =
     (if el_stop l then Inr l else res_bind (EventLoop_round env inp l) (loop_rounds env inps))"

definition EventLoop_loop ::
  "('f, 'h, ('f, 'h, 'z) event_loop_scheme) env \<Rightarrow> nat \<Rightarrow> loop_input list \<Rightarrow>
   ('f, 'h, 'z) event_loop_scheme \<Rightarrow> ('f, 'h, 'z) event_loop_scheme res" where
  "EventLoop_loop env tid inps l = loop_rounds env inps (l\<lparr>el_looping := True, el_thread := tid\<rparr>)"

section \<open>Invariant\<close>

text \<open>The wake-up channel is registered, enabled for reading and calls back the loop.\<close>

definition weakup_registered :: "('f, 'h, 'z) event_loop_scheme \<Rightarrow> chan_id \<Rightarrow> bool" where
  "weakup_registered l wc \<longleftrightarrow> (\<exists>ch. registered_at (el_poller l) (el_weakup_fd l) wc ch \<and>
     ch_read_cb ch = Some Weakup \<and>
     pfd_fd (pp_fds (el_poller l) ! ch_index ch) = el_weakup_fd l \<and>
     pfd_events (pp_fds (el_poller l) ! ch_index ch) = kReadEvent)"

definition EventLoop_wf :: "('f, 'h, 'z) event_loop_scheme \<Rightarrow> bool" where
  "EventLoop_wf l \<longleftrightarrow> PollPoller_wf (el_poller l) \<and> TimerQueue_wf l \<and> covered l \<and> el_counter l < 2 ^ 64 - 1 \<and>
     (\<exists>wc. weakup_registered l wc)"

text \<open>What \<^verbatim>\<open>poll\<close> finds when no descriptor but the wake-up descriptor can be ready: that one
  is readable as soon as its counter is not zero.\<close>

definition quiet_fds :: "('f, 'h, 'z) event_loop_scheme \<Rightarrow> pollfd list" where
  "quiet_fds l = map (\<lambda>e. e\<lparr>pfd_revents :=
     if pfd_fd e = el_weakup_fd l \<and> 0 < el_counter l then pfd_events e AND POLLIN else 0\<rparr>) (pp_fds (el_poller l))"

definition quiet_poll :: "('f, 'h, 'z) event_loop_scheme \<Rightarrow> pollfd list \<Rightarrow> int \<times> pollfd list" where
  "quiet_poll l fds = (int (length (filter (\<lambda>e. pfd_revents e \<noteq> 0) (quiet_fds l))), quiet_fds l)"

section \<open>Lemmas\<close>

lemma filter_unique:
  assumes "i < length xs" "\<And>j. j < length xs \<Longrightarrow> P (xs ! j) \<longleftrightarrow> j = i"
  shows "filter P xs = [xs ! i]"
proof -
  have "xs = take i xs @ xs ! i # drop (Suc i) xs" using assms(1) by (rule id_take_nth_drop)
  then have "filter P xs = filter P (take i xs) @ filter P (xs ! i # drop (Suc i) xs)"
    by (metis filter_append)
  moreover have "filter P (take i xs) = []"
    using assms by (auto simp: filter_empty_conv in_set_conv_nth)
  moreover have "filter P (drop (Suc i) xs) = []"
    using assms by (auto simp: filter_empty_conv in_set_conv_nth)
  ultimately show ?thesis using assms by simp
qed

lemma weakup_entry_unique:
  assumes "PollPoller_wf p" "registered_at p f c ch" "pfd_fd (pp_fds p ! ch_index ch) = f"
    "j < length (pp_fds p)" "0 \<le> f"
  shows "pfd_fd (pp_fds p ! j) = f \<longleftrightarrow> j = ch_index ch"
proof
  assume j: "pfd_fd (pp_fds p ! j) = f"
  with assms obtain d dh where "registered_at p f d dh" "ch_index dh = j"
    by (metis wf_enabled_entry)
  with assms(2) show "j = ch_index ch" by (auto simp: registered_at_def)
qed (use assms in simp)

text \<open>After a \<^verbatim>\<open>poll\<close> that found only the wake-up descriptor ready, its channel is the only
  active one.\<close>

lemma quiet_poll_active:
  assumes wf: "EventLoop_wf l" and w: "weakup_registered l wc" and c: "0 < el_counter l"
  shows "\<exists>p ch. PollPoller_poll (quiet_poll l) t (el_poller l) [] = Inr (t, p, [wc]) \<and> PollPoller_wf p \<and>
    pp_map p = pp_map (el_poller l) \<and> pp_objs p wc = Some ch \<and> ch_revents ch = POLLIN \<and> ch_read_cb ch = Some Weakup"
proof -
  let ?lp = "el_poller l" and ?f = "el_weakup_fd l"
  obtain ch where ch: "registered_at ?lp ?f wc ch" "ch_read_cb ch = Some Weakup"
    and e: "pfd_fd (pp_fds ?lp ! ch_index ch) = ?f" "pfd_events (pp_fds ?lp ! ch_index ch) = kReadEvent"
    using w unfolding weakup_registered_def by blast
  have wf0: "PollPoller_wf ?lp" using wf by (simp add: EventLoop_wf_def)
  have m: "pp_map ?lp ?f = Some wc" using ch by (simp add: registered_at_def)
  obtain f0: "0 \<le> ?f" and i: "ch_index ch < length (pp_fds ?lp)"
    by (rule wf_registered [OF wf0 m]) (use ch in \<open>auto simp: registered_at_def\<close>)
  let ?fds = "quiet_fds l" and ?p = "?lp\<lparr>pp_fds := quiet_fds l\<rparr>"
  have len: "length ?fds = length (pp_fds ?lp)" by (simp add: quiet_fds_def)
  have i': "ch_index ch < length ?fds" using i by (simp only: len)
  have bit: "kReadEvent AND POLLIN = POLLIN" "POLLIN \<noteq> 0" "sint POLLIN = 1" by (simp_all add: poll_bits)
  have ready: "pfd_revents (?fds ! j) = (if j = ch_index ch then POLLIN else 0)" if "j < length ?fds" for j
    using that weakup_entry_unique [OF wf0 ch(1) e(1) _ f0, of j] c e(2) bit by (simp add: quiet_fds_def)
  have arr: "filter arrived ?fds = [?fds ! ch_index ch]"
  proof (rule filter_unique)
    show "arrived (?fds ! j) \<longleftrightarrow> j = ch_index ch" if "j < length ?fds" for j
      using ready [OF that] bit by (simp add: arrived_def)
  qed (rule i')
  have cnt: "filter (\<lambda>e. pfd_revents e \<noteq> 0) ?fds = [?fds ! ch_index ch]"
  proof (rule filter_unique)
    show "pfd_revents (?fds ! j) \<noteq> 0 \<longleftrightarrow> j = ch_index ch" if "j < length ?fds" for j
      using ready [OF that] bit by simp
  qed (rule i')
  have fd: "pfd_fd (?fds ! ch_index ch) = ?f" using i e by (simp add: quiet_fds_def)
  have wf1: "PollPoller_wf ?p" by (rule wf_cong [OF wf0]) (simp_all add: quiet_fds_def comp_def)
  have "{x \<in> set ?fds. arrived x} = {?fds ! ch_index ch}"
    unfolding set_filter [symmetric] arr by simp
  then have "x = ?fds ! ch_index ch" if "x \<in> set ?fds" "arrived x" for x using that by blast
  then have "\<forall>x\<in>set ?fds. arrived x \<longrightarrow> 0 \<le> pfd_fd x" using fd f0 by auto
  then have "poll_entries ?p" using wf1 by (simp add: poll_entries_def)
  then have "fillable ?p (pp_fds ?p)" by (rule poll_entries_fillable)
  then have "fillable ?p ?fds" by simp
  from fill_active_spec [OF _ this, of 0 1 "[]"] obtain q where
    q: "fill_active 1 0 ?fds ?p [] = Inr (q, active_of ?p ?fds)" "filled ?p ?fds q" by auto
  have act: "active_of ?p ?fds = [wc]" using arr fd m by (simp add: active_of_def)
  have poll: "PollPoller_poll (quiet_poll l) t ?lp [] = Inr (t, q, [wc])"
    using q(1) act cnt by (simp add: PollPoller_poll_def quiet_poll_def res_bind_def)
  have rev: "pfd_revents (?fds ! ch_index ch) = POLLIN" using ready [OF i'] by simp
  have mem: "?fds ! ch_index ch \<in> set ?fds" "arrived (?fds ! ch_index ch)"
    using i' rev bit by (simp_all add: arrived_def)
  have "pp_objs q wc = map_option (Channel_setRevents POLLIN) (pp_objs ?lp wc)"
    using filledD [OF q(2) mem] fd m rev by simp
  then have "pp_objs q wc = Some (Channel_setRevents POLLIN ch)"
    using ch(1) by (simp add: registered_at_def)
  moreover have "ch_read_cb (Channel_setRevents POLLIN ch) = Some Weakup"
    using ch(2) by (simp add: Channel_setRevents_def)
  moreover have "PollPoller_wf q" "pp_map q = pp_map ?lp"
    using filled_wf [OF wf1 q(2)] q(2) by (simp_all add: filled_def)
  ultimately show ?thesis using poll by simp
qed

lemma handle_active_weakup:
  assumes "pp_objs (el_poller l) wc = Some ch" "ch_revents ch = POLLIN" "ch_read_cb ch = Some Weakup"
  shows "handle_active env inp t wc l = Inr (EventLoop_weakupCallback (l\<lparr>el_cur := Some wc\<rparr>))"
  using assms
  by (simp add: handle_active_def Channel_handleChannel_def res_bind_def poll_bits call_if_set_def
      loop_call_def EventLoop_weakupCallback_def)

lemmas task_parts = EventLoop_queueTaskInThread_def push_task_def wake_up_def eventfd_write_def begin_tasks_def
  swap_tasks_def end_tasks_def EventLoop_weakupCallback_def

lemma quiet_round:
  assumes wf: "EventLoop_wf l" and c: "0 < el_counter l" and inp: "in_poll inp = quiet_poll l"
  shows "\<exists>p wc. PollPoller_wf p \<and> pp_map p = pp_map (el_poller l) \<and>
    EventLoop_round env inp l =
      res_bind (res_fold (run_task (env_run env) (in_clock inp)) (el_tasks l)
        (l\<lparr>el_poller := p, el_active := [wc], el_counter := 0, el_cur := None, el_doing := True, el_tasks := []\<rparr>))
        (\<lambda>l. Inr (end_tasks l))"
proof -
  obtain wc where w: "weakup_registered l wc" using wf by (auto simp: EventLoop_wf_def)
  from quiet_poll_active [OF wf w c, of "in_time inp"] obtain p ch where
    p: "PollPoller_poll (quiet_poll l) (in_time inp) (el_poller l) [] = Inr (in_time inp, p, [wc])"
      "PollPoller_wf p" "pp_map p = pp_map (el_poller l)"
    and ch: "pp_objs p wc = Some ch" "ch_revents ch = POLLIN" "ch_read_cb ch = Some Weakup" by blast
  let ?l = "l\<lparr>el_active := [], el_poller := p, el_active := [wc]\<rparr>"
  have h: "handle_active env inp (in_time inp) wc ?l = Inr (EventLoop_weakupCallback (?l\<lparr>el_cur := Some wc\<rparr>))"
    by (rule handle_active_weakup) (use ch in simp_all)
  have "EventLoop_round env inp l =
      res_bind (res_fold (run_task (env_run env) (in_clock inp)) (el_tasks l)
        (l\<lparr>el_poller := p, el_active := [wc], el_counter := 0, el_cur := None, el_doing := True, el_tasks := []\<rparr>))
        (\<lambda>l. Inr (end_tasks l))"
    using p(1) h inp
    by (simp add: EventLoop_round_def res_bind_def EventLoop_doTheTasks_def EventLoop_weakupCallback_def
        swap_tasks_def begin_tasks_def)
  with p(2,3) show ?thesis by blast
qed

lemma queueTask_simps:
  "el_tasks (EventLoop_queueTaskInThread tid f l) = el_tasks l @ [f]"
  "el_poller (EventLoop_queueTaskInThread tid f l) = el_poller l"
  "el_weakup_fd (EventLoop_queueTaskInThread tid f l) = el_weakup_fd l"
  "tid \<noteq> el_thread l \<Longrightarrow> \<not> el_doing l \<Longrightarrow> 0 < el_counter (EventLoop_queueTaskInThread tid f l)"
  by (simp_all add: EventLoop_queueTaskInThread_def wake_up_def push_task_def eventfd_write_def)

lemma queueTask_wf: "EventLoop_wf l \<Longrightarrow> EventLoop_wf (EventLoop_queueTaskInThread tid f l)"
  by (simp add: EventLoop_wf_def weakup_registered_def EventLoop_queueTaskInThread_def wake_up_def push_task_def
      eventfd_write_def TimerQueue_wf_def covered_def pending_def)

definition new_loop ::
  "nat \<Rightarrow> chan_id \<Rightarrow> fd \<Rightarrow> chan_id \<Rightarrow> fd \<Rightarrow> (chan_id \<Rightarrow> 'h loop_cb channel option) \<Rightarrow> (timer_id \<Rightarrow> 'f timer) \<Rightarrow>
   ('f, 'h) event_loop" where
  "new_loop tid tc tfd wc wfd objs tms =
     (let ch = (\<lambda>cb f i. (Channel_setIndex i (Channel_setReadCallback cb (Channel_new f)))\<lparr>ch_events := kReadEvent\<rparr>);
          e = (\<lambda>f. \<lparr>pfd_fd = f, pfd_events = kReadEvent, pfd_revents = 0\<rparr>)
      in timer_queue.extend (TimerQueue_new tms) (event_loop.fields False False False tid
        \<lparr>pp_objs = objs(tc \<mapsto> ch Timer_read tfd 0, wc \<mapsto> ch Weakup wfd 1),
         pp_map = [tfd \<mapsto> tc, wfd \<mapsto> wc], pp_fds = [e tfd, e wfd]\<rparr> [] None [] wfd 0))"

lemmas new_loop_defs = new_loop_def timer_queue.defs event_loop.defs TimerQueue_new_def

lemma new_loop_fields [simp]:
  "pp_map (el_poller (new_loop tid tc tfd wc wfd objs tms)) = [tfd \<mapsto> tc, wfd \<mapsto> wc]"
  "pp_fds (el_poller (new_loop tid tc tfd wc wfd objs tms)) =
     [\<lparr>pfd_fd = tfd, pfd_events = kReadEvent, pfd_revents = 0\<rparr>, \<lparr>pfd_fd = wfd, pfd_events = kReadEvent, pfd_revents = 0\<rparr>]"
  "tc \<noteq> wc \<Longrightarrow> map_option ch_read_cb (pp_objs (el_poller (new_loop tid tc tfd wc wfd objs tms)) tc) = Some (Some Timer_read)"
  "el_tasks (new_loop tid tc tfd wc wfd objs tms) = []" "pending (new_loop tid tc tfd wc wfd objs tms) = {}"
  "el_thread (new_loop tid tc tfd wc wfd objs tms) = tid" "\<not> el_stop (new_loop tid tc tfd wc wfd objs tms)"
  "\<not> el_doing (new_loop tid tc tfd wc wfd objs tms)" "el_counter (new_loop tid tc tfd wc wfd objs tms) = 0"
  "tq_fired (new_loop tid tc tfd wc wfd objs tms) = []"
  by (simp_all add: new_loop_defs pending_def Channel_setIndex_def Channel_setReadCallback_def Let_def)

lemma new_loop_spec:
  fixes tid :: nat and objs :: "chan_id \<Rightarrow> 'h loop_cb channel option" and tms :: "timer_id \<Rightarrow> 'f timer"
  assumes "tc \<noteq> wc" "tfd \<noteq> wfd" "0 \<le> tfd" "0 \<le> wfd"
  defines "l \<equiv> new_loop tid tc tfd wc wfd objs tms"
  shows "EventLoop_new tid tc tfd wc wfd objs tms = Inr l" "EventLoop_wf l" "weakup_registered l wc"
    "(EventLoop_new tid tc tfd wc (-1) objs tms :: ('f, 'h) event_loop res) = Inl (Process_exit (-1))"
proof -
  note defs = EventLoop_new_def open_read_channel_def Channel_enableReading_def change_events_def Channel_update_def
    PollPoller_updateChannel_def PollPoller_new_def Channel_setIndex_def Channel_setReadCallback_def Channel_new_def
    res_bind_def enable_reading_def
  show "EventLoop_new tid tc tfd wc wfd objs tms = Inr l"
    "(EventLoop_new tid tc tfd wc (-1) objs tms :: ('f, 'h) event_loop res) = Inl (Process_exit (-1))"
    using assms(1-4) by (simp_all add: defs l_def new_loop_def)
  have "PollPoller_wf (el_poller l)"
    using assms(1-4) by (auto simp: l_def new_loop_defs PollPoller_wf_def registered_at_def pfd_for_def less_Suc_eq
        Channel_setIndex_def Channel_setReadCallback_def Channel_new_def split: if_splits)
  moreover show "weakup_registered l wc"
    by (simp add: weakup_registered_def registered_at_def l_def new_loop_defs Channel_setIndex_def
        Channel_setReadCallback_def Channel_new_def)
  ultimately show "EventLoop_wf l"
    by (auto simp: EventLoop_wf_def TimerQueue_wf_def covered_def pending_def entries_wf_def l_def new_loop_defs)
qed

section \<open>Properties\<close>

text \<open>A new loop whose system calls succeeded is well-formed: its poller holds exactly the timer
  descriptor and the wake-up descriptor, both enabled for reading with the callbacks of the timer
  queue and of the loop, nothing is queued and the timer queue is empty. When \<^verbatim>\<open>eventfd\<close>
  fails the process exits.\<close>

theorem EventLoop_new_correct:
  assumes "tc \<noteq> wc" "tfd \<noteq> wfd" "0 \<le> tfd" "0 \<le> wfd"
  shows "(\<exists>l. EventLoop_new tid tc tfd wc wfd objs tms = Inr l \<and> EventLoop_wf l \<and>
      pp_map (el_poller l) = [tfd \<mapsto> tc, wfd \<mapsto> wc] \<and> weakup_registered l wc \<and>
      pp_fds (el_poller l) = [\<lparr>pfd_fd = tfd, pfd_events = kReadEvent, pfd_revents = 0\<rparr>,
                              \<lparr>pfd_fd = wfd, pfd_events = kReadEvent, pfd_revents = 0\<rparr>] \<and>
      map_option ch_read_cb (pp_objs (el_poller l) tc) = Some (Some Timer_read) \<and>
      el_tasks l = [] \<and> pending l = {} \<and> el_thread l = tid \<and> \<not> el_stop l) \<and>
    EventLoop_new tid tc tfd wc (-1) objs tms = Inl (Process_exit (-1))"
proof -
  note spec = new_loop_spec [OF assms, of tid objs tms]
  show ?thesis
    by (intro conjI exI [of _ "new_loop tid tc tfd wc wfd objs tms"] spec)
      (use assms(1) in \<open>simp_all del: map_option_eq_Some\<close>)
qed

theorem EventLoop_new_correct_witness:
  "\<exists>l. EventLoop_new 7 0 3 1 4 Map.empty (\<lambda>_. Timer_new 0 0 0) = Inr (l :: (nat, nat) event_loop) \<and>
    pp_map (el_poller l) = [3 \<mapsto> 0, 4 \<mapsto> 1]"
  using EventLoop_new_correct [of 0 1 3 4 7 Map.empty "\<lambda>_. Timer_new 0 0 (0::nat)"] by auto

text \<open>C11: A task queued from another thread while the loop is not draining tasks is run by the next
  round, which the wake-up descriptor starts even when nothing else happens: that round resets the
  counter, and then runs exactly the tasks queued before and the new one, in the order of queueing,
  each on the state the one before left.\<close>

theorem EventLoop_queued_task_runs:
  assumes "EventLoop_wf l" "tid \<noteq> el_thread l" "\<not> el_doing l"
    and "in_poll inp = quiet_poll (EventLoop_queueTaskInThread tid f l)"
  shows "\<exists>p wc. PollPoller_wf p \<and> pp_map p = pp_map (el_poller l) \<and>
    EventLoop_round env inp (EventLoop_queueTaskInThread tid f l) =
      res_bind (res_fold (run_task (env_run env) (in_clock inp)) (el_tasks l @ [f])
        (l\<lparr>el_poller := p, el_active := [wc], el_counter := 0, el_cur := None, el_doing := True, el_tasks := []\<rparr>))
        (\<lambda>l. Inr (end_tasks l))"
proof -
  let ?l = "EventLoop_queueTaskInThread tid f l"
  have "?l\<lparr>el_poller := p, el_active := [wc], el_counter := 0, el_cur := None, el_doing := True, el_tasks := []\<rparr> =
      l\<lparr>el_poller := p, el_active := [wc], el_counter := 0, el_cur := None, el_doing := True, el_tasks := []\<rparr>" for p wc
    by (simp add: EventLoop_queueTaskInThread_def wake_up_def push_task_def eventfd_write_def)
  with quiet_round [OF queueTask_wf [OF assms(1)] queueTask_simps(4) [OF assms(2,3)] assms(4), of env]
  show ?thesis by (simp add: queueTask_simps)
qed

text \<open>An example: a new loop of thread 7 whose functors are recorded when they run.\<close>

definition example_loop :: "(nat, nat) event_loop" where
  "example_loop = new_loop 7 0 3 1 4 Map.empty (\<lambda>_. Timer_new 0 0 0)"

definition record_env :: "(nat, nat, (nat, nat) event_loop) env" where
  "record_env = \<lparr>env_timer = (\<lambda>f l. l), env_run = (\<lambda>f l. Inr (l\<lparr>tq_fired := tq_fired l @ [f]\<rparr>)), env_call = (\<lambda>h t l. Inr l)\<rparr>"

lemma example_loop_wf: "EventLoop_wf example_loop"
  unfolding example_loop_def by (rule new_loop_spec) simp_all

theorem EventLoop_queued_task_runs_witness:
  "let l = EventLoop_queueTaskInThread 8 (Functor 42) example_loop;
       inp = \<lparr>in_poll = quiet_poll l, in_time = 0, in_now = 0, in_now2 = 0, in_clock = (\<lambda>_. 0)\<rparr>
   in map_sum id tq_fired (EventLoop_round record_env inp l) = Inr [42]"
proof -
  let ?l = "EventLoop_queueTaskInThread 8 (Functor 42) example_loop"
  let ?inp = "\<lparr>in_poll = quiet_poll ?l, in_time = 0, in_now = 0, in_now2 = 0, in_clock = (\<lambda>_. 0)\<rparr>"
  have "8 \<noteq> el_thread example_loop" "\<not> el_doing example_loop" "el_tasks example_loop = []" "tq_fired example_loop = []"
    by (simp_all add: example_loop_def)
  with EventLoop_queued_task_runs [OF example_loop_wf, of 8 ?inp "Functor 42" record_env]
  show ?thesis by (auto simp: res_bind_def record_env_def end_tasks_def)
qed

text \<open>A task that queues a task while the loop drains its tasks, from the loop thread or through
  any other thread, leaves that task behind: it is in the vector, but the wake-up descriptor is not
  written. With nothing else to do, \<^verbatim>\<open>poll\<close> then finds no ready descriptor and the loop
  blocks with the task pending.\<close>

theorem EventLoop_nested_task_not_woken:
  assumes "el_tasks l = [g]" "run g = (\<lambda>l. Inr (EventLoop_queueTaskInThread tid f l))" "el_counter l = 0"
  shows "\<exists>l'. EventLoop_doTheTasks run l = Inr l' \<and> el_tasks l' = [f] \<and> el_counter l' = 0 \<and> \<not> el_doing l' \<and>
    fst (quiet_poll l' fds) = 0"
  using assms
  by (simp add: EventLoop_doTheTasks_def swap_tasks_def begin_tasks_def end_tasks_def res_bind_def quiet_poll_def
      EventLoop_queueTaskInThread_def push_task_def wake_up_def quiet_fds_def filter_empty_conv)

theorem EventLoop_nested_task_not_woken_witness:
  "\<exists>l. EventLoop_doTheTasks (\<lambda>x l. Inr (EventLoop_queueTaskInThread 7 (Functor 2) l)) (push_task (Functor 1) example_loop) = Inr l \<and>
     el_tasks l = [Functor 2] \<and> fst (quiet_poll l []) = 0"
proof -
  have "el_tasks (push_task (Functor 1) example_loop) = [Functor 1]" "el_counter (push_task (Functor 1) example_loop) = 0"
    by (simp_all add: example_loop_def push_task_def)
  from EventLoop_nested_task_not_woken [OF this(1) _ this(2), of "\<lambda>x l. Inr (EventLoop_queueTaskInThread 7 (Functor 2) l)" 7 "Functor 2" "[]"]
  show ?thesis by auto
qed

end
