(* ===== verification/Tcp_Connection.thy ===== *)
theory Tcp_Connection
  imports Buffer Event_Loop "HOL-Library.Sublist"
begin

text \<open>
  Connections: \<^verbatim>\<open>bounce/tcp_connection.h\<close>, \<^verbatim>\<open>bounce/tcp_connection.cc\<close> and the
  functions of \<^verbatim>\<open>bounce/socket.h\<close> they use. The state is that of an event loop together
  with the connections that belong to it, and, per descriptor, the bytes the kernel has taken for
  sending and whether the sending side was shut down. The tasks and the channel handlers of the
  loop are the bound member functions of the sources. The system calls are parameters, and so is
  what the callbacks of the program do. Shown here: no byte of the sent messages is lost, repeated
  or reordered; the sending side is shut down only when everything was sent; what each state change
  does; and what goes wrong without a connection callback and when a thread closes a connection
  that the loop is closing.
\<close>

section \<open>State\<close>

datatype connect_state = connecting | connected | disconnecting | disconnected

type_synonym conn_id = nat

text \<open>The callbacks of the program are names of type \<open>'u\<close>; \<open>None\<close> is an empty
  \<^verbatim>\<open>std::function\<close>. Addresses are the bytes of a \<^verbatim>\<open>sockaddr_in6\<close>.\<close>

record 'u tcp_connection =
  tc_state :: connect_state
  tc_fd :: fd
  tc_chan :: chan_id
  tc_in :: buffer
  tc_out :: buffer
  tc_local :: "byte list"
  tc_peer :: "byte list"
  tc_connect_cb :: "'u option"
  tc_message_cb :: "'u option"
  tc_write_cb :: "'u option"
  tc_close_cb :: "'u option"
  tc_error_cb :: "'u option"

text \<open>Bound functions that are queued as tasks, and bound functions that are channel callbacks. The
  last two handlers belong to the acceptor and to the connector.\<close>

datatype 'u conn_task =
    Send_in_loop conn_id "byte list"
  | Shutdown_in_loop conn_id
  | Force_close_in_loop conn_id
  | Connect_complete conn_id
  | Destroy_connection conn_id
  | Call_back 'u conn_id

datatype handler =
    On_read conn_id
  | On_write conn_id
  | On_close conn_id
  | On_error conn_id
  | On_accept
  | On_connect fd "byte list"

record 'u world = "('u conn_task, handler) event_loop" +
  w_conns :: "conn_id \<Rightarrow> 'u tcp_connection option"
  w_wire :: "fd \<Rightarrow> byte list"
  w_shut :: "fd \<Rightarrow> bool"

text \<open>The system calls used by a connection: \<^verbatim>\<open>send\<close> gives its result and
  \<^verbatim>\<open>errno\<close>, \<^verbatim>\<open>readv\<close> what it delivers, and \<^verbatim>\<open>getsockopt\<close> its result
  and the option value or \<^verbatim>\<open>errno\<close>. The program gives what its callbacks do.\<close>

record ('u, 'w) conn_env =
  sys_send :: "fd \<Rightarrow> byte list \<Rightarrow> 'w \<Rightarrow> int \<times> errno"
  sys_readv :: "fd \<Rightarrow> 'w \<Rightarrow> nat list \<Rightarrow> readv_result"
  sys_getsockopt :: "fd \<Rightarrow> 'w \<Rightarrow> int \<times> int \<times> errno"
  user_call :: "'u \<Rightarrow> conn_id \<Rightarrow> time option \<Rightarrow> 'w \<Rightarrow> 'w res"

definition EWOULDBLOCK :: errno where "EWOULDBLOCK = 11"
definition EPIPE :: errno where "EPIPE = 32"
definition ECONNRESET :: errno where "ECONNRESET = 104"

section \<open>Access to a connection\<close>

text \<open>A dangling pointer to a connection, or to its channel, is an error.\<close>

definition with_conn ::
  "conn_id \<Rightarrow> ('u, 'z) world_scheme \<Rightarrow> ('u tcp_connection \<Rightarrow> 'a res) \<Rightarrow> 'a res" where
  "with_conn c w f = (case w_conns w c of None \<Rightarrow> Inl Null_deref | Some k \<Rightarrow> f k)"

definition with_chan ::
  "chan_id \<Rightarrow> ('u, 'z) world_scheme \<Rightarrow> (handler loop_cb channel \<Rightarrow> 'a res) \<Rightarrow> 'a res" where
  "with_chan x w f = (case pp_objs (el_poller w) x of None \<Rightarrow> Inl Null_deref | Some ch \<Rightarrow> f ch)"

definition set_conn :: "conn_id \<Rightarrow> 'u tcp_connection \<Rightarrow> ('u, 'z) world_scheme \<Rightarrow> ('u, 'z) world_scheme" where
  "set_conn c k w = w\<lparr>w_conns := (w_conns w)(c \<mapsto> k)\<rparr>"

text \<open>An operation of a channel of the loop.\<close>

definition chan_op ::
  "(handler loop_cb poll_poller \<Rightarrow> handler loop_cb poll_poller res) \<Rightarrow> ('u, 'z) world_scheme \<Rightarrow>
   ('u, 'z) world_scheme res" where
  "chan_op f w = map_sum id (\<lambda>p. w\<lparr>el_poller := p\<rparr>) (f (el_poller w))"

text \<open>Calling a callback: guarded by a test, or not.\<close>

definition call_guarded ::
  "('u, ('u, 'z) world_scheme) conn_env \<Rightarrow> 'u option \<Rightarrow> conn_id \<Rightarrow> time option \<Rightarrow> ('u, 'z) world_scheme \<Rightarrow>
   ('u, 'z) world_scheme res" where
  "call_guarded env cb c t w = (case cb of None \<Rightarrow> Inr w | Some u \<Rightarrow> user_call env u c t w)"

definition call_unguarded ::
  "('u, ('u, 'z) world_scheme) conn_env \<Rightarrow> 'u option \<Rightarrow> conn_id \<Rightarrow> time option \<Rightarrow> ('u, 'z) world_scheme \<Rightarrow>
   ('u, 'z) world_scheme res" where
  "call_unguarded env cb c t w = (case cb of None \<Rightarrow> Inl Bad_function_call | Some u \<Rightarrow> user_call env u c t w)"

text \<open>Queueing the write-complete callback, when there is one, from the loop thread.\<close>

definition queue_write_cb :: "'u tcp_connection \<Rightarrow> conn_id \<Rightarrow> ('u, 'z) world_scheme \<Rightarrow> ('u, 'z) world_scheme" where
  "queue_write_cb k c w =
     (case tc_write_cb k of None \<Rightarrow> w
      | Some u \<Rightarrow> EventLoop_queueTaskInThread (el_thread w) (Functor (Call_back u c)) w)"

definition Socket_shutdownWrite :: "fd \<Rightarrow> ('u, 'z) world_scheme \<Rightarrow> ('u, 'z) world_scheme" where
  "Socket_shutdownWrite f w = w\<lparr>w_shut := (w_shut w)(f := True)\<rparr>"

section \<open>Construction\<close>

text \<open>A new connection \<open>c\<close> with channel object \<open>x\<close>; both buffers have the configured size.\<close>

definition TcpConnection_new ::
  "conn_id \<Rightarrow> chan_id \<Rightarrow> fd \<Rightarrow> byte list \<Rightarrow> byte list \<Rightarrow> int \<Rightarrow> ('u, 'z) world_scheme \<Rightarrow> ('u, 'z) world_scheme res" where
  "TcpConnection_new c x f local_addr peer_addr init w =
     res_bind (Buffer_new init) (\<lambda>b.
       let ch = Channel_setErrorCallback (Handler (On_error c)) (Channel_setCloseCallback (Handler (On_close c))
                 (Channel_setWriteCallback (Handler (On_write c)) (Channel_setReadCallback (Handler (On_read c))
                   (Channel_new f))));
           p = el_poller w
       in Inr (set_conn c \<lparr>tc_state = connecting, tc_fd = f, tc_chan = x, tc_in = b, tc_out = b,
            tc_local = local_addr, tc_peer = peer_addr, tc_connect_cb = None, tc_message_cb = None, tc_write_cb = None,
            tc_close_cb = None, tc_error_cb = None\<rparr>
          (w\<lparr>el_poller := p\<lparr>pp_objs := (pp_objs p)(x \<mapsto> ch)\<rparr>\<rparr>)))"

definition TcpConnection_setConnectCallback :: "'u option \<Rightarrow> 'u tcp_connection \<Rightarrow> 'u tcp_connection" where
  "TcpConnection_setConnectCallback cb k = k\<lparr>tc_connect_cb := cb\<rparr>"

definition TcpConnection_setMessageCallback :: "'u option \<Rightarrow> 'u tcp_connection \<Rightarrow> 'u tcp_connection" where
  "TcpConnection_setMessageCallback cb k = k\<lparr>tc_message_cb := cb\<rparr>"

definition TcpConnection_setWriteCompleteCallback :: "'u option \<Rightarrow> 'u tcp_connection \<Rightarrow> 'u tcp_connection" where
  "TcpConnection_setWriteCompleteCallback cb k = k\<lparr>tc_write_cb := cb\<rparr>"

definition TcpConnection_setCloseCallback :: "'u option \<Rightarrow> 'u tcp_connection \<Rightarrow> 'u tcp_connection" where
  "TcpConnection_setCloseCallback cb k = k\<lparr>tc_close_cb := cb\<rparr>"

definition TcpConnection_setErrorCallback :: "'u option \<Rightarrow> 'u tcp_connection \<Rightarrow> 'u tcp_connection" where
  "TcpConnection_setErrorCallback cb k = k\<lparr>tc_error_cb := cb\<rparr>"

section \<open>Operations on the loop thread\<close>

definition TcpConnection_connectComplete ::
  "('u, ('u, 'z) world_scheme) conn_env \<Rightarrow> conn_id \<Rightarrow> ('u, 'z) world_scheme \<Rightarrow> ('u, 'z) world_scheme res" where
  "TcpConnection_connectComplete env c w = with_conn c w (\<lambda>k.
     res_bind (chan_op (Channel_enableReading (tc_chan k)) (set_conn c (k\<lparr>tc_state := connected\<rparr>) w)) (\<lambda>w.
     call_unguarded env (tc_connect_cb k) c None w))"

definition TcpConnection_destroyConnection ::
  "('u, ('u, 'z) world_scheme) conn_env \<Rightarrow> conn_id \<Rightarrow> ('u, 'z) world_scheme \<Rightarrow> ('u, 'z) world_scheme res" where
  "TcpConnection_destroyConnection env c w = with_conn c w (\<lambda>k.
     res_bind (if tc_state k = connected
               then call_guarded env (tc_connect_cb k) c None (set_conn c (k\<lparr>tc_state := disconnected\<rparr>) w)
               else Inr w) (\<lambda>w.
     chan_op (Channel_remove (tc_chan k)) w))"

definition TcpConnection_sendInLoop ::
  "('u, ('u, 'z) world_scheme) conn_env \<Rightarrow> conn_id \<Rightarrow> byte list \<Rightarrow> ('u, 'z) world_scheme \<Rightarrow> ('u, 'z) world_scheme res" where
  "TcpConnection_sendInLoop env c message w = with_conn c w (\<lambda>k.
     if tc_state k = disconnected then Inr w
     else with_chan (tc_chan k) w (\<lambda>ch.
       let (wrote_bytes, send_bytes, send_error, w) =
         (if \<not> Channel_isWriting ch \<and> Buffer_readableBytes (tc_out k) = 0 then
            (let (ret, err) = sys_send env (ch_fd ch) message w;
                 w = w\<lparr>w_wire := (w_wire w)(ch_fd ch := w_wire w (ch_fd ch) @ take (nat ret) message)\<rparr>
             in if ret = int (length message) then (ret, 0, False, queue_write_cb k c w)
                else if ret > 0 then (ret, length message - nat ret, False, w)
                else (0, length message, err \<noteq> EWOULDBLOCK \<and> (err = EPIPE \<or> err = ECONNRESET), w))
          else (0, length message, False, w))
       in if \<not> send_error \<and> send_bytes > 0 then
            res_bind (Buffer_append (take send_bytes (drop (nat wrote_bytes) message)) (tc_out k)) (\<lambda>b.
              let w = set_conn c (k\<lparr>tc_out := b\<rparr>) w
              in if \<not> Channel_isWriting ch then chan_op (Channel_enableWriting (tc_chan k)) w else Inr w)
          else Inr w))"

definition TcpConnection_shutdownInLoop :: "conn_id \<Rightarrow> ('u, 'z) world_scheme \<Rightarrow> ('u, 'z) world_scheme res" where
  "TcpConnection_shutdownInLoop c w = with_conn c w (\<lambda>k. with_chan (tc_chan k) w (\<lambda>ch.
     Inr (if \<not> Channel_isWriting ch then Socket_shutdownWrite (tc_fd k) w else w)))"

definition TcpConnection_handleClose ::
  "('u, ('u, 'z) world_scheme) conn_env \<Rightarrow> conn_id \<Rightarrow> ('u, 'z) world_scheme \<Rightarrow> ('u, 'z) world_scheme res" where
  "TcpConnection_handleClose env c w = with_conn c w (\<lambda>k.
     res_bind (chan_op (Channel_disableAll (tc_chan k)) (set_conn c (k\<lparr>tc_state := disconnected\<rparr>) w)) (\<lambda>w.
     res_bind (call_guarded env (tc_connect_cb k) c None w) (\<lambda>w.
     with_conn c w (\<lambda>k. call_unguarded env (tc_close_cb k) c None w))))"

definition TcpConnection_forceCloseInLoop ::
  "('u, ('u, 'z) world_scheme) conn_env \<Rightarrow> conn_id \<Rightarrow> ('u, 'z) world_scheme \<Rightarrow> ('u, 'z) world_scheme res" where
  "TcpConnection_forceCloseInLoop env c w = with_conn c w (\<lambda>k.
     if tc_state k \<noteq> disconnected then TcpConnection_handleClose env c w else Inr w)"

section \<open>Channel handlers\<close>

definition TcpConnection_handleRead ::
  "('u, ('u, 'z) world_scheme) conn_env \<Rightarrow> conn_id \<Rightarrow> time \<Rightarrow> ('u, 'z) world_scheme \<Rightarrow> ('u, 'z) world_scheme res" where
  "TcpConnection_handleRead env c t w = with_conn c w (\<lambda>k.
     res_bind (Buffer_readFd (sys_readv env (tc_fd k) w) (tc_in k)) (\<lambda>(ret, err, b).
       let w = set_conn c (k\<lparr>tc_in := b\<rparr>) w
       in if ret > 0 then call_guarded env (tc_message_cb k) c (Some t) w
          else if ret = 0 then TcpConnection_handleClose env c w
          else Inr w))"

definition TcpConnection_handleWrite ::
  "('u, ('u, 'z) world_scheme) conn_env \<Rightarrow> conn_id \<Rightarrow> ('u, 'z) world_scheme \<Rightarrow> ('u, 'z) world_scheme res" where
  "TcpConnection_handleWrite env c w = with_conn c w (\<lambda>k. with_chan (tc_chan k) w (\<lambda>ch.
     if Channel_isWriting ch then
       (let data = take (Buffer_readableBytes (tc_out k)) (Buffer_peek (tc_out k));
            (ret, err) = sys_send env (ch_fd ch) data w;
            w = w\<lparr>w_wire := (w_wire w)(ch_fd ch := w_wire w (ch_fd ch) @ take (nat ret) data)\<rparr>
        in if ret > 0 then
             (let b = Buffer_retrieve (nat ret) (tc_out k); w = set_conn c (k\<lparr>tc_out := b\<rparr>) w
              in if Buffer_readableBytes b = 0 then
                   res_bind (chan_op (Channel_disableWriting (tc_chan k)) w) (\<lambda>w.
                     let w = queue_write_cb k c w
                     in if tc_state k = disconnecting then TcpConnection_shutdownInLoop c w else Inr w)
                 else Inr w)
           else Inr w)
     else Inr w))"

definition TcpConnection_getSocketError ::
  "('u, ('u, 'z) world_scheme) conn_env \<Rightarrow> fd \<Rightarrow> ('u, 'z) world_scheme \<Rightarrow> int" where
  "TcpConnection_getSocketError env f w =
     (let (ret, optval, err) = sys_getsockopt env f w in if ret < 0 then err else optval)"

text \<open>The error that \<^verbatim>\<open>handleError\<close> looks up is only logged.\<close>

definition TcpConnection_handleError ::
  "('u, ('u, 'z) world_scheme) conn_env \<Rightarrow> conn_id \<Rightarrow> ('u, 'z) world_scheme \<Rightarrow> ('u, 'z) world_scheme res" where
  "TcpConnection_handleError env c w = with_conn c w (\<lambda>k. call_guarded env (tc_error_cb k) c None w)"

section \<open>Tasks and dispatch\<close>

fun conn_run ::
  "('u, ('u, 'z) world_scheme) conn_env \<Rightarrow> 'u conn_task \<Rightarrow> ('u, 'z) world_scheme \<Rightarrow> ('u, 'z) world_scheme res" where
  "conn_run env (Send_in_loop c message) w = TcpConnection_sendInLoop env c message w"
| "conn_run env (Shutdown_in_loop c) w = TcpConnection_shutdownInLoop c w"
| "conn_run env (Force_close_in_loop c) w = TcpConnection_forceCloseInLoop env c w"
| "conn_run env (Connect_complete c) w = TcpConnection_connectComplete env c w"
| "conn_run env (Destroy_connection c) w = TcpConnection_destroyConnection env c w"
| "conn_run env (Call_back u c) w = user_call env u c None w"

text \<open>The handlers that the constructor binds to the channel of a connection.\<close>

fun conn_call ::
  "('u, ('u, 'z) world_scheme) conn_env \<Rightarrow> handler \<Rightarrow> time option \<Rightarrow> ('u, 'z) world_scheme \<Rightarrow> ('u, 'z) world_scheme res" where
  "conn_call env (On_read c) t w = TcpConnection_handleRead env c (case t of Some x \<Rightarrow> x | None \<Rightarrow> 0) w"
| "conn_call env (On_write c) t w = TcpConnection_handleWrite env c w"
| "conn_call env (On_close c) t w = TcpConnection_handleClose env c w"
| "conn_call env (On_error c) t w = TcpConnection_handleError env c w"
| "conn_call env _ t w = Inr w"

text \<open>Running a functor in the thread of the loop, or queueing it there, from thread \<open>tid\<close>.\<close>

definition conn_do ::
  "('u, ('u, 'z) world_scheme) conn_env \<Rightarrow> nat \<Rightarrow> 'u conn_task \<Rightarrow> ('u, 'z) world_scheme \<Rightarrow> ('u, 'z) world_scheme res" where
  "conn_do env tid f w = EventLoop_doTaskInThread (\<lambda>_. conn_run env f) tid (Functor f) w"

section \<open>Operations from any thread\<close>

definition TcpConnection_send ::
  "('u, ('u, 'z) world_scheme) conn_env \<Rightarrow> nat \<Rightarrow> conn_id \<Rightarrow> byte list \<Rightarrow> ('u, 'z) world_scheme \<Rightarrow> ('u, 'z) world_scheme res" where
  "TcpConnection_send env tid c message w = with_conn c w (\<lambda>k.
     if tc_state k = connected then conn_do env tid (Send_in_loop c message) w else Inr w)"

text \<open>Sending a buffer takes all its bytes first; the buffer that is left is part of the result.\<close>

definition TcpConnection_send_buffer ::
  "('u, ('u, 'z) world_scheme) conn_env \<Rightarrow> nat \<Rightarrow> conn_id \<Rightarrow> buffer \<Rightarrow> ('u, 'z) world_scheme \<Rightarrow>
   (buffer \<times> ('u, 'z) world_scheme) res" where
  "TcpConnection_send_buffer env tid c b w = with_conn c w (\<lambda>k.
     if tc_state k = connected then
       res_bind (Buffer_readAllAsString b) (\<lambda>(message, b).
       res_bind (conn_do env tid (Send_in_loop c message) w) (\<lambda>w. Inr (b, w)))
     else Inr (b, w))"

text \<open>\<^verbatim>\<open>shutdown\<close> and \<^verbatim>\<open>forceClose\<close> test the state and then store another one; the
  two accesses are separate atomic steps.\<close>

definition state_open :: "conn_id \<Rightarrow> ('u, 'z) world_scheme \<Rightarrow> bool" where
  "state_open c w \<longleftrightarrow> (case w_conns w c of None \<Rightarrow> False | Some k \<Rightarrow> tc_state k \<noteq> disconnected)"

definition store_disconnecting :: "conn_id \<Rightarrow> ('u, 'z) world_scheme \<Rightarrow> ('u, 'z) world_scheme res" where
  "store_disconnecting c w = with_conn c w (\<lambda>k. Inr (set_conn c (k\<lparr>tc_state := disconnecting\<rparr>) w))"

definition TcpConnection_shutdown ::
  "('u, ('u, 'z) world_scheme) conn_env \<Rightarrow> nat \<Rightarrow> conn_id \<Rightarrow> ('u, 'z) world_scheme \<Rightarrow> ('u, 'z) world_scheme res" where
  "TcpConnection_shutdown env tid c w =
     (if state_open c w then res_bind (store_disconnecting c w) (conn_do env tid (Shutdown_in_loop c)) else Inr w)"

definition TcpConnection_forceClose ::
  "('u, ('u, 'z) world_scheme) conn_env \<Rightarrow> nat \<Rightarrow> conn_id \<Rightarrow> ('u, 'z) world_scheme \<Rightarrow> ('u, 'z) world_scheme res" where
  "TcpConnection_forceClose env tid c w =
     (if state_open c w then res_bind (store_disconnecting c w) (conn_do env tid (Force_close_in_loop c)) else Inr w)"

section \<open>Invariant\<close>

text \<open>The channel of a connection is registered under its descriptor, and watches for writability
  exactly while bytes wait in the output buffer.\<close>

definition conn_ok :: "conn_id \<Rightarrow> 'u tcp_connection \<Rightarrow> handler loop_cb channel \<Rightarrow> ('u, 'z) world_scheme \<Rightarrow> bool" where
  "conn_ok c k ch w \<longleftrightarrow> w_conns w c = Some k \<and> PollPoller_wf (el_poller w) \<and>
     registered_at (el_poller w) (tc_fd k) (tc_chan k) ch \<and> Buffer_wf (tc_in k) \<and> Buffer_wf (tc_out k) \<and>
     tc_state k \<noteq> disconnected \<and> (Channel_isWriting ch \<longleftrightarrow> Buffer_contents (tc_out k) \<noteq> [])"

definition conn_wf :: "conn_id \<Rightarrow> ('u, 'z) world_scheme \<Rightarrow> bool" where
  "conn_wf c w \<longleftrightarrow> (\<exists>k ch. conn_ok c k ch w)"

text \<open>The bytes a connection has taken: those given to the kernel and those waiting.\<close>

definition conn_stream :: "conn_id \<Rightarrow> ('u, 'z) world_scheme \<Rightarrow> byte list" where
  "conn_stream c w = (case w_conns w c of None \<Rightarrow> [] | Some k \<Rightarrow> w_wire w (tc_fd k) @ Buffer_contents (tc_out k))"

definition conn_waiting :: "conn_id \<Rightarrow> ('u, 'z) world_scheme \<Rightarrow> byte list" where
  "conn_waiting c w = (case w_conns w c of None \<Rightarrow> [] | Some k \<Rightarrow> Buffer_contents (tc_out k))"

text \<open>The documented behaviour of \<^verbatim>\<open>send\<close>: it takes at most the given bytes.\<close>

definition send_contract :: "('u, ('u, 'z) world_scheme) conn_env \<Rightarrow> bool" where
  "send_contract env \<longleftrightarrow> (\<forall>f bs w. fst (sys_send env f bs w) \<le> int (length bs))"

text \<open>The send reports that the connection is gone.\<close>

definition send_fatal :: "int \<times> errno \<Rightarrow> byte list \<Rightarrow> bool" where
  "send_fatal r bs \<longleftrightarrow> fst r \<le> 0 \<and> fst r \<noteq> int (length bs) \<and> snd r \<in> {EPIPE, ECONNRESET}"

section \<open>Lemmas\<close>

lemma with_conn_Some [simp]: "w_conns w c = Some k \<Longrightarrow> with_conn c w f = f k"
  by (simp add: with_conn_def)

lemma with_chan_Some [simp]: "pp_objs (el_poller w) x = Some ch \<Longrightarrow> with_chan x w f = f ch"
  by (simp add: with_chan_def)

lemma set_conn_simps [simp]:
  "w_conns (set_conn c k w) = (w_conns w)(c \<mapsto> k)" "el_poller (set_conn c k w) = el_poller w"
  "w_wire (set_conn c k w) = w_wire w" "w_shut (set_conn c k w) = w_shut w"
  "el_thread (set_conn c k w) = el_thread w" "el_tasks (set_conn c k w) = el_tasks w"
  by (simp_all add: set_conn_def)

lemma queueTask_world [simp]:
  "w_conns (EventLoop_queueTaskInThread tid f w) = w_conns w" "w_wire (EventLoop_queueTaskInThread tid f w) = w_wire w"
  "w_shut (EventLoop_queueTaskInThread tid f w) = w_shut w" "el_poller (EventLoop_queueTaskInThread tid f w) = el_poller w"
  "el_thread (EventLoop_queueTaskInThread tid f w) = el_thread w"
  by (simp_all add: EventLoop_queueTaskInThread_def wake_up_def push_task_def eventfd_write_def)

lemma queue_write_cb_simps [simp]:
  "w_conns (queue_write_cb k c w) = w_conns w" "w_wire (queue_write_cb k c w) = w_wire w"
  "w_shut (queue_write_cb k c w) = w_shut w" "el_poller (queue_write_cb k c w) = el_poller w"
  by (simp_all add: queue_write_cb_def split: option.split)

lemma shutdownWrite_simps [simp]:
  "w_conns (Socket_shutdownWrite f w) = w_conns w" "w_wire (Socket_shutdownWrite f w) = w_wire w"
  "w_shut (Socket_shutdownWrite f w) = (w_shut w)(f := True)" "el_poller (Socket_shutdownWrite f w) = el_poller w"
  by (simp_all add: Socket_shutdownWrite_def)

text \<open>Changing the events of a registered channel keeps the poller well-formed and touches no other
  channel.\<close>

lemma change_events_spec:
  fixes g :: "events \<Rightarrow> events"
  assumes "PollPoller_wf p" "registered_at p f x ch"
  defines "ch' \<equiv> ch\<lparr>ch_events := g (ch_events ch)\<rparr>"
  shows "\<exists>q. change_events g x p = Inr q \<and> PollPoller_wf q \<and> registered_at q f x ch' \<and>
    pp_map q = pp_map p \<and> pp_objs q = (pp_objs p)(x \<mapsto> ch') \<and> (\<exists>e. pp_fds q = (pp_fds p)[ch_index ch := e])"
proof -
  let ?p = "p\<lparr>pp_objs := (pp_objs p)(x \<mapsto> ch')\<rparr>"
  have x: "pp_objs p x = Some ch" using assms by (simp add: registered_at_def)
  have wf: "PollPoller_wf ?p"
    by (rule wf_cong [OF assms(1)]) (use x in \<open>auto simp: ch'_def\<close>)
  have r: "registered_at ?p f x ch'" using assms(2) by (simp add: registered_at_def ch'_def)
  note u = update_registered_spec(1,2) [OF wf r]
  have "change_events g x p = PollPoller_updateChannel x ?p"
    using x by (simp add: change_events_def Channel_update_def ch'_def)
  then show ?thesis using u r by (auto simp: registered_at_def ch'_def)
qed

text \<open>What sending and writing leave alone: everything of the connection but its output buffer, the
  other connections, the bytes of other descriptors and the registrations.\<close>

definition conn_frame ::
  "conn_id \<Rightarrow> 'u tcp_connection \<Rightarrow> ('u, 'z) world_scheme \<Rightarrow> 'u tcp_connection \<Rightarrow> ('u, 'z) world_scheme \<Rightarrow> bool" where
  "conn_frame c k w k' w' \<longleftrightarrow> k' = k\<lparr>tc_out := tc_out k'\<rparr> \<and> (\<forall>d. d \<noteq> c \<longrightarrow> w_conns w' d = w_conns w d) \<and>
     (\<forall>f. f \<noteq> tc_fd k \<longrightarrow> w_wire w' f = w_wire w f) \<and> pp_map (el_poller w') = pp_map (el_poller w)"

lemma frame_fields:
  assumes "conn_frame c k w k' w'"
  shows "tc_fd k' = tc_fd k" "tc_state k' = tc_state k" "tc_chan k' = tc_chan k" "tc_in k' = tc_in k"
proof -
  have k': "k' = k\<lparr>tc_out := tc_out k'\<rparr>" using assms by (simp add: conn_frame_def)
  show "tc_fd k' = tc_fd k" "tc_state k' = tc_state k" "tc_chan k' = tc_chan k" "tc_in k' = tc_in k"
    by (subst k', simp)+
qed

lemma isWriting_upd [simp]:
  "Channel_isWriting (ch\<lparr>ch_events := enable_writing e\<rparr>)"
  "\<not> Channel_isWriting (ch\<lparr>ch_events := disable_writing e\<rparr>)"
  by (simp_all add: Channel_isWriting_def)

lemma enqueue_spec:
  assumes ok: "conn_ok c k ch w" and rest: "rest \<noteq> []" and room: "length (storage (tc_out k)) + length rest \<le> max_size"
  shows "\<exists>w' k' ch'. res_bind (Buffer_append rest (tc_out k)) (\<lambda>b.
      let w = set_conn c (k\<lparr>tc_out := b\<rparr>) w
      in if \<not> Channel_isWriting ch then chan_op (Channel_enableWriting (tc_chan k)) w else Inr w) = Inr w' \<and>
    conn_ok c k' ch' w' \<and> conn_frame c k w k' w' \<and> w_shut w' = w_shut w \<and> w_wire w' = w_wire w \<and>
    Buffer_contents (tc_out k') = Buffer_contents (tc_out k) @ rest \<and>
    length (storage (tc_out k')) \<le> length (storage (tc_out k)) + length rest"
proof -
  have "Buffer_wf (tc_out k)" using ok by (simp add: conn_ok_def)
  with append_spec [OF this, of rest] room obtain b where b: "Buffer_append rest (tc_out k) = Inr b" "Buffer_wf b"
    "Buffer_contents b = Buffer_contents (tc_out k) @ rest" "length (storage b) \<le> length (storage (tc_out k)) + length rest"
    by auto
  let ?k = "k\<lparr>tc_out := b\<rparr>" and ?w = "set_conn c (k\<lparr>tc_out := b\<rparr>) w"
  have wf: "PollPoller_wf (el_poller ?w)" and r: "registered_at (el_poller ?w) (tc_fd k) (tc_chan k) ch"
    using ok by (simp_all add: conn_ok_def)
  obtain q where q: "change_events enable_writing (tc_chan k) (el_poller ?w) = Inr q" "PollPoller_wf q"
      "registered_at q (tc_fd k) (tc_chan k) (ch\<lparr>ch_events := enable_writing (ch_events ch)\<rparr>)"
      "pp_map q = pp_map (el_poller ?w)"
    using change_events_spec [OF wf r, of enable_writing] by auto
  let ?w' = "if \<not> Channel_isWriting ch then ?w\<lparr>el_poller := q\<rparr> else ?w"
  let ?ch' = "if \<not> Channel_isWriting ch then ch\<lparr>ch_events := enable_writing (ch_events ch)\<rparr> else ch"
  have "conn_ok c ?k ?ch' ?w'" using ok b rest q by (auto simp: conn_ok_def)
  moreover have "conn_frame c k w ?k ?w'" using q(4) by (auto simp: conn_frame_def)
  moreover have "(let w = ?w in if \<not> Channel_isWriting ch then chan_op (Channel_enableWriting (tc_chan k)) w else Inr w) = Inr ?w'"
    using q(1) by (simp add: chan_op_def Channel_enableWriting_def)
  ultimately show ?thesis
    using b by (intro exI [of _ ?w'] exI [of _ ?k] exI [of _ ?ch']) simp
qed

lemma conn_ok_wire:
  "conn_ok c k ch w \<Longrightarrow> conn_ok c k ch (w\<lparr>w_wire := g\<rparr>)"
  by (simp add: conn_ok_def)

lemma conn_stream_ok: "conn_ok c k ch w \<Longrightarrow> conn_stream c w = w_wire w (tc_fd k) @ Buffer_contents (tc_out k)"
  by (simp add: conn_ok_def conn_stream_def)

text \<open>The result of sending: a connection in order whose stream has grown by the message, unless the
  kernel was tried and reported the connection gone.\<close>

definition sent ::
  "('u, ('u, 'z) world_scheme) conn_env \<Rightarrow> conn_id \<Rightarrow> byte list \<Rightarrow> 'u tcp_connection \<Rightarrow> ('u, 'z) world_scheme \<Rightarrow>
   'u tcp_connection \<Rightarrow> ('u, 'z) world_scheme \<Rightarrow> bool" where
  "sent env c message k w k' w' \<longleftrightarrow> conn_frame c k w k' w' \<and> w_shut w' = w_shut w \<and>
     length (storage (tc_out k')) \<le> length (storage (tc_out k)) + length message \<and>
     conn_stream c w' = conn_stream c w @
       (if Buffer_contents (tc_out k) = [] \<and> send_fatal (sys_send env (tc_fd k) message w) message then [] else message)"

lemma sendInLoop_busy:
  assumes ok: "conn_ok c k ch w" and room: "length (storage (tc_out k)) + length message \<le> max_size"
    and busy: "Buffer_contents (tc_out k) \<noteq> []"
  shows "\<exists>w' k' ch'. TcpConnection_sendInLoop env c message w = Inr w' \<and> conn_ok c k' ch' w' \<and> sent env c message k w k' w'"
proof (cases "message = []")
  case True
  have "TcpConnection_sendInLoop env c message w = Inr w"
    using ok busy True by (simp add: TcpConnection_sendInLoop_def conn_ok_def registered_at_def)
  moreover have "sent env c message k w k w" using True by (simp add: sent_def conn_frame_def)
  ultimately show ?thesis using ok by blast
next
  case False
  have "TcpConnection_sendInLoop env c message w =
      res_bind (Buffer_append message (tc_out k)) (\<lambda>b. let w = set_conn c (k\<lparr>tc_out := b\<rparr>) w
      in if \<not> Channel_isWriting ch then chan_op (Channel_enableWriting (tc_chan k)) w else Inr w)"
    using ok busy False by (simp add: TcpConnection_sendInLoop_def conn_ok_def registered_at_def)
  with enqueue_spec [OF ok False room] obtain w' k' ch' where
    "TcpConnection_sendInLoop env c message w = Inr w'" "conn_ok c k' ch' w'" "conn_frame c k w k' w'" "w_shut w' = w_shut w"
    "w_wire w' = w_wire w" "Buffer_contents (tc_out k') = Buffer_contents (tc_out k) @ message"
    "length (storage (tc_out k')) \<le> length (storage (tc_out k)) + length message"
    by auto
  moreover from this have "sent env c message k w k' w'"
    using ok busy by (simp add: sent_def conn_stream_ok frame_fields)
  ultimately show ?thesis by blast
qed

text \<open>Sending with an idle connection: the result of the system call decides.\<close>

lemma sendInLoop_idle_eq:
  assumes ok: "conn_ok c k ch w" and idle: "Buffer_contents (tc_out k) = []"
    and r: "sys_send env (tc_fd k) message w = (ret, err)" "ret \<le> int (length message)"
  defines "w1 \<equiv> w\<lparr>w_wire := (w_wire w)(tc_fd k := w_wire w (tc_fd k) @ take (nat ret) message)\<rparr>"
  shows "TcpConnection_sendInLoop env c message w =
    (if ret = int (length message) then Inr (queue_write_cb k c w1)
     else if send_fatal (ret, err) message \<or> message = [] then Inr w1
     else res_bind (Buffer_append (drop (nat ret) message) (tc_out k)) (\<lambda>b. let w = set_conn c (k\<lparr>tc_out := b\<rparr>) w1
        in if \<not> Channel_isWriting ch then chan_op (Channel_enableWriting (tc_chan k)) w else Inr w))"
  using ok idle r
  by (auto simp: TcpConnection_sendInLoop_def conn_ok_def registered_at_def w1_def send_fatal_def EWOULDBLOCK_def
      EPIPE_def ECONNRESET_def Let_def)

lemma sendInLoop_idle:
  assumes ok: "conn_ok c k ch w" and room: "length (storage (tc_out k)) + length message \<le> max_size"
    and idle: "Buffer_contents (tc_out k) = []" and con: "send_contract env"
  shows "\<exists>w' k' ch'. TcpConnection_sendInLoop env c message w = Inr w' \<and> conn_ok c k' ch' w' \<and> sent env c message k w k' w'"
proof -
  obtain ret err where r: "sys_send env (tc_fd k) message w = (ret, err)" by fastforce
  have le: "ret \<le> int (length message)" using con r unfolding send_contract_def by (metis fst_conv)
  let ?w1 = "w\<lparr>w_wire := (w_wire w)(tc_fd k := w_wire w (tc_fd k) @ take (nat ret) message)\<rparr>"
  note eq = sendInLoop_idle_eq [OF ok idle r le]
  have ok1: "conn_ok c k ch ?w1" using ok by (rule conn_ok_wire)
  consider (all) "ret = int (length message)"
    | (gone) "ret \<noteq> int (length message)" "send_fatal (ret, err) message \<or> message = []"
    | (part) "ret \<noteq> int (length message)" "\<not> send_fatal (ret, err) message" "message \<noteq> []" by blast
  then show ?thesis
  proof cases
    case all
    let ?w' = "queue_write_cb k c ?w1"
    have "conn_ok c k ch ?w'" using ok1 by (simp add: conn_ok_def)
    moreover have "sent env c message k w k ?w'"
      using ok all r \<open>conn_ok c k ch ?w'\<close> idle by (simp add: sent_def conn_frame_def conn_stream_ok send_fatal_def)
    ultimately show ?thesis using eq all by auto
  next
    case gone
    have "ret \<le> 0" using gone le by (auto simp: send_fatal_def)
    then have "sent env c message k w k ?w1"
      using gone r idle ok ok1 by (auto simp: sent_def conn_frame_def conn_stream_ok)
    then show ?thesis using eq gone ok1 by auto
  next
    case part
    have "nat ret < length message" using part le by (cases "0 \<le> ret") auto
    then have rest: "drop (nat ret) message \<noteq> []" by simp
    have "length (storage (tc_out k)) + length (drop (nat ret) message) \<le> max_size" using room by simp
    from enqueue_spec [OF ok1 rest this] eq part obtain w' k' ch' where w':
      "TcpConnection_sendInLoop env c message w = Inr w'" "conn_ok c k' ch' w'" "conn_frame c k ?w1 k' w'" "w_shut w' = w_shut w"
      "w_wire w' = w_wire ?w1" "Buffer_contents (tc_out k') = Buffer_contents (tc_out k) @ drop (nat ret) message"
      "length (storage (tc_out k')) \<le> length (storage (tc_out k)) + length (drop (nat ret) message)"
      by auto
    have "conn_frame c k w k' w'" and "tc_fd k' = tc_fd k"
      using w'(3) frame_fields [OF w'(3)] by (auto simp: conn_frame_def)
    then have "sent env c message k w k' w'"
      using w' ok part idle r by (simp add: sent_def conn_stream_ok)
    with w' show ?thesis by blast
  qed
qed

lemma sendInLoop_spec:
  assumes "conn_ok c k ch w" "length (storage (tc_out k)) + length message \<le> max_size" "send_contract env"
  shows "\<exists>w' k' ch'. TcpConnection_sendInLoop env c message w = Inr w' \<and> conn_ok c k' ch' w' \<and> sent env c message k w k' w'"
  using sendInLoop_busy [OF assms(1,2)] sendInLoop_idle [OF assms(1,2) _ assms(3)] by blast

lemma peek_contents: "Buffer_wf b \<Longrightarrow> take (Buffer_readableBytes b) (Buffer_peek b) = Buffer_contents b"
  using length_contents [of b] by (simp add: Buffer_peek_def) (simp add: Buffer_contents_def)

text \<open>Writing what waits: the result of the system call on the waiting bytes, as long as there are any.\<close>

definition flush_result ::
  "('u, ('u, 'z) world_scheme) conn_env \<Rightarrow> 'u tcp_connection \<Rightarrow> ('u, 'z) world_scheme \<Rightarrow> nat" where
  "flush_result env k w = (if Buffer_contents (tc_out k) = [] then 0
     else nat (fst (sys_send env (tc_fd k) (Buffer_contents (tc_out k)) w)))"

definition flushed ::
  "('u, ('u, 'z) world_scheme) conn_env \<Rightarrow> conn_id \<Rightarrow> 'u tcp_connection \<Rightarrow> ('u, 'z) world_scheme \<Rightarrow>
   'u tcp_connection \<Rightarrow> ('u, 'z) world_scheme \<Rightarrow> bool" where
  "flushed env c k w k' w' \<longleftrightarrow> conn_frame c k w k' w' \<and> conn_stream c w' = conn_stream c w \<and>
     length (storage (tc_out k')) = length (storage (tc_out k)) \<and>
     Buffer_contents (tc_out k') = drop (flush_result env k w) (Buffer_contents (tc_out k)) \<and>
     w_shut w' = (if Buffer_contents (tc_out k) \<noteq> [] \<and> Buffer_contents (tc_out k') = [] \<and> tc_state k = disconnecting
       then (w_shut w)(tc_fd k := True) else w_shut w)"

lemma handleWrite_spec:
  assumes ok: "conn_ok c k ch w" and con: "send_contract env"
  shows "\<exists>w' k' ch'. TcpConnection_handleWrite env c w = Inr w' \<and> conn_ok c k' ch' w' \<and> flushed env c k w k' w'"
proof (cases "Buffer_contents (tc_out k) = []")
  case True
  have "TcpConnection_handleWrite env c w = Inr w"
    using ok True by (simp add: TcpConnection_handleWrite_def conn_ok_def registered_at_def)
  moreover have "flushed env c k w k w" using True by (simp add: flushed_def conn_frame_def)
  ultimately show ?thesis using ok by blast
next
  case False
  let ?bs = "Buffer_contents (tc_out k)"
  obtain ret err where r: "sys_send env (tc_fd k) ?bs w = (ret, err)" by fastforce
  have n: "flush_result env k w = nat ret" using r False by (simp add: flush_result_def)
  let ?w1 = "w\<lparr>w_wire := (w_wire w)(tc_fd k := w_wire w (tc_fd k) @ take (nat ret) ?bs)\<rparr>"
  let ?b = "Buffer_retrieve (nat ret) (tc_out k)"
  have bwf: "Buffer_wf (tc_out k)" using ok by (simp add: conn_ok_def)
  note b = retrieve_spec [OF bwf, of "nat ret"]
  let ?k = "k\<lparr>tc_out := ?b\<rparr>" and ?w2 = "set_conn c (k\<lparr>tc_out := Buffer_retrieve (nat ret) (tc_out k)\<rparr>) ?w1"
  have wf: "PollPoller_wf (el_poller ?w2)" and reg: "registered_at (el_poller ?w2) (tc_fd k) (tc_chan k) ch"
    using ok by (simp_all add: conn_ok_def)
  obtain q where q: "change_events disable_writing (tc_chan k) (el_poller ?w2) = Inr q" "PollPoller_wf q"
      "registered_at q (tc_fd k) (tc_chan k) (ch\<lparr>ch_events := disable_writing (ch_events ch)\<rparr>)"
      "pp_map q = pp_map (el_poller ?w2)"
    using change_events_spec [OF wf reg, of disable_writing] by auto
  let ?w3 = "queue_write_cb k c (?w2\<lparr>el_poller := q\<rparr>)"
  have chan: "pp_objs q (tc_chan k) = Some (ch\<lparr>ch_events := disable_writing (ch_events ch)\<rparr>)"
    using q(3) by (simp add: registered_at_def)
  have shut: "TcpConnection_shutdownInLoop c ?w3 = Inr (Socket_shutdownWrite (tc_fd k) ?w3)"
    by (simp add: TcpConnection_shutdownInLoop_def chan)
  have eq: "TcpConnection_handleWrite env c w =
    (if ret > 0 then if Buffer_contents ?b = [] then
       Inr (if tc_state k = disconnecting then Socket_shutdownWrite (tc_fd k) ?w3 else ?w3) else Inr ?w2 else Inr ?w1)"
    using ok False r shut q(1) b(1) peek_contents [OF bwf]
    by (simp add: TcpConnection_handleWrite_def conn_ok_def registered_at_def chan_op_def Channel_disableWriting_def)
  have le: "nat ret \<le> length ?bs"
    using con r unfolding send_contract_def by (metis fst_conv nat_le_iff)
  consider (fail) "ret \<le> 0" | (part) "ret > 0" "Buffer_contents ?b \<noteq> []" | (all) "ret > 0" "Buffer_contents ?b = []"
    by linarith
  then show ?thesis
  proof cases
    case fail
    have "conn_ok c k ch ?w1" using ok by (rule conn_ok_wire)
    moreover have "flushed env c k w k ?w1"
      using fail ok \<open>conn_ok c k ch ?w1\<close> False by (simp add: flushed_def n conn_frame_def conn_stream_ok)
    ultimately show ?thesis using eq fail by auto
  next
    case part
    have ok2: "conn_ok c ?k ch ?w2" using ok part b False by (simp add: conn_ok_def)
    moreover have "flushed env c k w ?k ?w2"
      using part ok b False by (simp add: flushed_def n conn_frame_def conn_stream_ok [OF ok2] conn_stream_ok [OF ok])
    ultimately show ?thesis using eq part by auto
  next
    case all
    let ?w4 = "if tc_state k = disconnecting then Socket_shutdownWrite (tc_fd k) ?w3 else ?w3"
    have ok4: "conn_ok c ?k (ch\<lparr>ch_events := disable_writing (ch_events ch)\<rparr>) ?w4"
      using ok all b q by (simp add: conn_ok_def Socket_shutdownWrite_def)
    moreover have "take (nat ret) ?bs = ?bs" using all b(2) by simp
    then have "flushed env c k w ?k ?w4"
      using all ok b q False by (simp add: flushed_def n conn_frame_def conn_stream_ok [OF ok4] conn_stream_ok [OF ok]
          Socket_shutdownWrite_def)
    moreover have "TcpConnection_handleWrite env c w = Inr ?w4" using eq all by simp
    ultimately show ?thesis by blast
  qed
qed

section \<open>Sequences of events\<close>

text \<open>What the loop thread does with an open connection: it sends a message, handles writability, or
  shuts the sending side down.\<close>

datatype io_event = Io_send "byte list" | Io_writable | Io_shutdown

fun io_step ::
  "('u, ('u, 'z) world_scheme) conn_env \<Rightarrow> conn_id \<Rightarrow> io_event \<Rightarrow> ('u, 'z) world_scheme \<Rightarrow> ('u, 'z) world_scheme res" where
  "io_step env c (Io_send message) w = TcpConnection_sendInLoop env c message w"
| "io_step env c Io_writable w = TcpConnection_handleWrite env c w"
| "io_step env c Io_shutdown w = TcpConnection_shutdownInLoop c w"

fun io_messages :: "io_event list \<Rightarrow> byte list list" where
  "io_messages [] = []"
| "io_messages (Io_send m # es) = m # io_messages es"
| "io_messages (_ # es) = io_messages es"

definition io_ok :: "conn_id \<Rightarrow> nat \<Rightarrow> ('u, 'z) world_scheme \<Rightarrow> bool" where
  "io_ok c room w \<longleftrightarrow> (\<exists>k ch. conn_ok c k ch w \<and> length (storage (tc_out k)) + room \<le> max_size)"

lemma shutdownInLoop_spec:
  assumes ok: "conn_ok c k ch w"
  shows "TcpConnection_shutdownInLoop c w =
    Inr (if Buffer_contents (tc_out k) = [] then Socket_shutdownWrite (tc_fd k) w else w)"
  using ok by (simp add: TcpConnection_shutdownInLoop_def conn_ok_def registered_at_def)

lemma io_step_send:
  assumes "io_ok c (length m + n) w" "send_contract env"
  shows "\<exists>w' ms. io_step env c (Io_send m) w = Inr w' \<and> io_ok c n w' \<and> subseq ms [m] \<and>
    conn_stream c w' = conn_stream c w @ concat ms \<and>
    ((\<forall>f bs w. \<not> send_fatal (sys_send env f bs w) bs) \<longrightarrow> ms = [m])"
proof -
  obtain k ch where k: "conn_ok c k ch w" "length (storage (tc_out k)) + (length m + n) \<le> max_size"
    using assms(1) by (auto simp: io_ok_def)
  then have "length (storage (tc_out k)) + length m \<le> max_size" by simp
  from sendInLoop_spec [OF k(1) this assms(2)] obtain w' k' ch' where
    w': "TcpConnection_sendInLoop env c m w = Inr w'" "conn_ok c k' ch' w'" "sent env c m k w k' w'" by blast
  let ?gone = "Buffer_contents (tc_out k) = [] \<and> send_fatal (sys_send env (tc_fd k) m w) m"
  let ?ms = "if ?gone then [] else [m]"
  have "io_ok c n w'" using w' k unfolding io_ok_def sent_def by fastforce
  moreover have "conn_stream c w' = conn_stream c w @ concat ?ms" using w'(3) by (simp add: sent_def)
  moreover have "subseq ?ms [m]" by simp
  moreover have "(\<forall>f bs w. \<not> send_fatal (sys_send env f bs w) bs) \<longrightarrow> ?ms = [m]" by simp
  ultimately show ?thesis using w'(1) unfolding io_step.simps by blast
qed

lemma io_step_other:
  assumes "io_ok c n w" "send_contract env" "e = Io_writable \<or> e = Io_shutdown"
  shows "\<exists>w'. io_step env c e w = Inr w' \<and> io_ok c n w' \<and> conn_stream c w' = conn_stream c w"
proof -
  obtain k ch where k: "conn_ok c k ch w" "length (storage (tc_out k)) + n \<le> max_size"
    using assms(1) by (auto simp: io_ok_def)
  show ?thesis
  proof (cases "e = Io_writable")
    case True
    from handleWrite_spec [OF k(1) assms(2)] obtain w' k' ch' where
      w': "TcpConnection_handleWrite env c w = Inr w'" "conn_ok c k' ch' w'" "flushed env c k w k' w'" by blast
    then have "io_ok c n w'" using k unfolding io_ok_def flushed_def by auto
    then show ?thesis using w' True by (simp add: flushed_def)
  next
    case False
    let ?w' = "if Buffer_contents (tc_out k) = [] then Socket_shutdownWrite (tc_fd k) w else w"
    have ok': "conn_ok c k ch ?w'" using k(1) by (simp add: conn_ok_def)
    then have "io_ok c n ?w'" using k(2) unfolding io_ok_def by blast
    moreover have "conn_stream c ?w' = conn_stream c w" by (simp add: conn_stream_ok [OF ok'] conn_stream_ok [OF k(1)])
    ultimately have "io_ok c n ?w'" "conn_stream c ?w' = conn_stream c w" .
    then show ?thesis using shutdownInLoop_spec [OF k(1)] False assms(3) by auto
  qed
qed

lemma io_run_spec:
  assumes "send_contract env"
  shows "io_ok c (length (concat (io_messages es))) w \<Longrightarrow>
    \<exists>w' ms. res_fold (io_step env c) es w = Inr w' \<and> conn_wf c w' \<and> subseq ms (io_messages es) \<and>
      conn_stream c w' = conn_stream c w @ concat ms \<and>
      ((\<forall>f bs w. \<not> send_fatal (sys_send env f bs w) bs) \<longrightarrow> ms = io_messages es)"
proof (induction es arbitrary: w)
  case Nil
  then show ?case by (auto simp: io_ok_def conn_wf_def)
next
  case (Cons e es)
  show ?case
  proof (cases "\<exists>m. e = Io_send m")
    case True
    then obtain m where m: "e = Io_send m" by blast
    have "io_ok c (length m + length (concat (io_messages es))) w" using Cons.prems m by simp
    from io_step_send [OF this assms] obtain w1 ms1 where 1: "io_step env c e w = Inr w1"
      "io_ok c (length (concat (io_messages es))) w1" "subseq ms1 [m]" "conn_stream c w1 = conn_stream c w @ concat ms1"
      "(\<forall>f bs w. \<not> send_fatal (sys_send env f bs w) bs) \<longrightarrow> ms1 = [m]" unfolding m by blast
    from Cons.IH [OF 1(2)] obtain w2 ms2 where 2: "res_fold (io_step env c) es w1 = Inr w2" "conn_wf c w2"
      "subseq ms2 (io_messages es)" "conn_stream c w2 = conn_stream c w1 @ concat ms2"
      "(\<forall>f bs w. \<not> send_fatal (sys_send env f bs w) bs) \<longrightarrow> ms2 = io_messages es" by blast
    have "subseq (ms1 @ ms2) (io_messages (e # es))" using list_emb_append_mono [OF 1(3) 2(3)] m by simp
    moreover have "conn_stream c w2 = conn_stream c w @ concat (ms1 @ ms2)" using 1(4) 2(4) by simp
    moreover have "(\<forall>f bs w. \<not> send_fatal (sys_send env f bs w) bs) \<longrightarrow> ms1 @ ms2 = io_messages (e # es)"
      using 1(5) 2(5) m by simp
    moreover have "res_fold (io_step env c) (e # es) w = Inr w2" using 1(1) 2(1) by simp
    ultimately show ?thesis using 2(2) by blast
  next
    case False
    then have e: "e = Io_writable \<or> e = Io_shutdown" by (cases e) auto
    then have "io_ok c (length (concat (io_messages es))) w" using Cons.prems by auto
    from io_step_other [OF this assms e] obtain w1 where "io_step env c e w = Inr w1"
      "io_ok c (length (concat (io_messages es))) w1" "conn_stream c w1 = conn_stream c w" by blast
    with Cons.IH [of w1] show ?thesis using e by auto
  qed
qed

section \<open>Properties\<close>

text \<open>An example: connection 9 with descriptor 5 on a loop of thread 7, whose callbacks are recorded,
  and a kernel that takes at most two bytes at a time and delivers three.\<close>

record 'u traced_world = "'u world" +
  tw_calls :: "('u \<times> conn_id) list"

definition example_conn :: "nat tcp_connection" where
  "example_conn = \<lparr>tc_state = connected, tc_fd = 5, tc_chan = 0, tc_in = empty_buffer, tc_out = empty_buffer,
     tc_local = [], tc_peer = [], tc_connect_cb = Some 1, tc_message_cb = Some 2, tc_write_cb = Some 3,
     tc_close_cb = Some 4, tc_error_cb = None\<rparr>"

definition example_conn_poller :: "handler loop_cb poll_poller" where
  "example_conn_poller = \<lparr>pp_objs = [0 \<mapsto> (Channel_new 5)\<lparr>ch_events := kReadEvent\<rparr>], pp_map = [5 \<mapsto> 0],
     pp_fds = [\<lparr>pfd_fd = 5, pfd_events = kReadEvent, pfd_revents = 0\<rparr>]\<rparr>"

definition example_world :: "nat traced_world" where
  "example_world = world.extend (event_loop.extend
     ((new_loop 7 0 3 1 4 Map.empty (\<lambda>_. Timer_new 0 0 (Call_back 0 0)))\<lparr>el_poller := example_conn_poller\<rparr>)
     (world.fields [9 \<mapsto> example_conn] (\<lambda>_. []) (\<lambda>_. False))) (traced_world.fields [])"

definition example_env :: "(nat, nat traced_world) conn_env" where
  "example_env = \<lparr>sys_send = (\<lambda>f bs w. (int (min 2 (length bs)), 0)), sys_readv = (\<lambda>f w. example_readv),
     sys_getsockopt = (\<lambda>f w. (0, 0, 0)), user_call = (\<lambda>u c t w. Inr (w\<lparr>tw_calls := tw_calls w @ [(u, c)]\<rparr>))\<rparr>"

lemma example_world_fields [simp]:
  "w_conns example_world = [9 \<mapsto> example_conn]" "w_wire example_world = (\<lambda>_. [])" "w_shut example_world = (\<lambda>_. False)"
  "el_poller example_world = example_conn_poller" "el_thread example_world = 7" "tw_calls example_world = []"
  by (simp_all add: example_world_def world.defs event_loop.defs traced_world.defs new_loop_defs Let_def)

lemma example_conn_fields [simp]:
  "tc_state example_conn = connected" "tc_fd example_conn = 5" "tc_chan example_conn = 0"
  "tc_in example_conn = empty_buffer" "tc_out example_conn = empty_buffer" "tc_close_cb example_conn = Some 4"
  "tc_connect_cb example_conn = Some 1" "tc_message_cb example_conn = Some 2" "tc_write_cb example_conn = Some 3"
  by (simp_all add: example_conn_def)

lemma example_conn_ok: "conn_ok 9 example_conn ((Channel_new 5)\<lparr>ch_events := kReadEvent\<rparr>) example_world"
  by (auto simp: conn_ok_def example_conn_poller_def PollPoller_wf_def registered_at_def pfd_for_def Channel_new_def
      Channel_isWriting_def poll_bits split: if_splits)

lemma example_send_contract: "send_contract example_env"
  by (simp add: send_contract_def example_env_def)

text \<open>C2: Whatever sequence of sends, writability events and shutdowns the loop thread processes for an
  open connection whose output buffer has room, every step succeeds, and the bytes given to the
  kernel followed by the waiting bytes are the earlier ones followed by messages in the order they
  were sent, each whole: a message is left out only when the kernel was tried with it and reported
  the connection gone, so that without such reports they are exactly all the messages.\<close>

theorem TcpConnection_stream_integrity:
  assumes "send_contract env" "io_ok c (length (concat (io_messages es))) w"
  shows "\<exists>w' ms. res_fold (io_step env c) es w = Inr w' \<and> conn_wf c w' \<and> subseq ms (io_messages es) \<and>
    conn_stream c w' = conn_stream c w @ concat ms \<and>
    ((\<forall>f bs w. \<not> send_fatal (sys_send env f bs w) bs) \<longrightarrow> ms = io_messages es)"
  using assms by (rule io_run_spec)

theorem TcpConnection_stream_integrity_witness:
  "\<exists>w'. res_fold (io_step example_env 9) [Io_send [1, 2, 3], Io_send [4], Io_writable, Io_shutdown] example_world = Inr w' \<and>
    conn_stream 9 w' = [1, 2, 3, 4]"
proof -
  let ?es = "[Io_send [1, 2, 3], Io_send [4], Io_writable, Io_shutdown]"
  have "io_ok 9 (length (concat (io_messages ?es))) example_world"
    unfolding io_ok_def using example_conn_ok by (intro exI) (auto simp: max_size_def)
  moreover have "\<forall>f bs w. \<not> send_fatal (sys_send example_env f bs w) bs"
    by (auto simp: send_fatal_def example_env_def min_def)
  moreover have "conn_stream 9 example_world = []" by (simp add: conn_stream_def)
  ultimately show ?thesis
    using TcpConnection_stream_integrity [OF example_send_contract, of 9 ?es example_world] by auto
qed

text \<open>When the descriptor of an open connection is writable, handling it hands the kernel a prefix of
  the waiting bytes, as long as it takes, and keeps the rest waiting in order; the channel goes on
  watching for writability exactly while bytes remain; and the sending side is shut down exactly
  when this call emptied the buffer of a connection that is disconnecting.\<close>

theorem TcpConnection_handleWrite_flushes:
  assumes "conn_ok c k ch w" "send_contract env"
  defines "n \<equiv> flush_result env k w"
  shows "\<exists>w' k' ch'. TcpConnection_handleWrite env c w = Inr w' \<and> conn_ok c k' ch' w' \<and> k' = k\<lparr>tc_out := tc_out k'\<rparr> \<and>
    w_wire w' (tc_fd k) = w_wire w (tc_fd k) @ take n (Buffer_contents (tc_out k)) \<and>
    Buffer_contents (tc_out k') = drop n (Buffer_contents (tc_out k)) \<and>
    (Channel_isWriting ch' \<longleftrightarrow> n < length (Buffer_contents (tc_out k))) \<and>
    w_shut w' = (if Buffer_contents (tc_out k) \<noteq> [] \<and> n = length (Buffer_contents (tc_out k)) \<and> tc_state k = disconnecting
      then (w_shut w)(tc_fd k := True) else w_shut w)"
proof -
  obtain w' k' ch' where w': "TcpConnection_handleWrite env c w = Inr w'" "conn_ok c k' ch' w'" "flushed env c k w k' w'"
    using handleWrite_spec [OF assms(1,2)] by blast
  have le: "n \<le> length (Buffer_contents (tc_out k))"
    using assms(2) by (auto simp: n_def flush_result_def send_contract_def nat_le_iff)
  have frame: "conn_frame c k w k' w'" and stream: "conn_stream c w' = conn_stream c w"
    and rest: "Buffer_contents (tc_out k') = drop n (Buffer_contents (tc_out k))"
    using w'(3) by (simp_all add: flushed_def n_def)
  have "w_wire w' (tc_fd k) @ drop n (Buffer_contents (tc_out k)) = w_wire w (tc_fd k) @ Buffer_contents (tc_out k)"
    using stream conn_stream_ok [OF assms(1)] conn_stream_ok [OF w'(2)] frame_fields [OF frame] rest by simp
  then have "w_wire w' (tc_fd k) = w_wire w (tc_fd k) @ take n (Buffer_contents (tc_out k))"
    by (metis append_assoc append_same_eq append_take_drop_id)
  moreover have "Channel_isWriting ch' \<longleftrightarrow> n < length (Buffer_contents (tc_out k))"
    using w'(2) rest by (auto simp: conn_ok_def)
  moreover have "k' = k\<lparr>tc_out := tc_out k'\<rparr>" using frame by (simp add: conn_frame_def)
  moreover have "w_shut w' = (if Buffer_contents (tc_out k) \<noteq> [] \<and> n = length (Buffer_contents (tc_out k)) \<and>
      tc_state k = disconnecting then (w_shut w)(tc_fd k := True) else w_shut w)"
    using w'(3) rest le by (auto simp: flushed_def)
  ultimately show ?thesis using w'(1,2) rest by blast
qed

lemma example_busy_ok:
  "\<exists>w k ch. TcpConnection_sendInLoop example_env 9 [1, 2, 3] example_world = Inr w \<and> conn_ok 9 k ch w \<and>
    tc_fd k = 5 \<and> tc_state k = connected \<and> Buffer_contents (tc_out k) = [3] \<and> w_wire w 5 = [1, 2]"
proof -
  have r: "sys_send example_env (tc_fd example_conn) [1, 2, 3] example_world = (2, 0)" "2 \<le> int (length [1, 2, 3])"
    by (simp_all add: example_env_def)
  let ?w1 = "example_world\<lparr>w_wire := (w_wire example_world)(tc_fd example_conn := [1, 2])\<rparr>"
  note eq = sendInLoop_idle_eq [OF example_conn_ok _ r]
  have "length (storage (tc_out example_conn)) + length [3] \<le> max_size" by (simp add: max_size_def)
  from enqueue_spec [OF conn_ok_wire [OF example_conn_ok, of "(w_wire example_world)(tc_fd example_conn := [1, 2])"] _ this]
  obtain w k ch where "TcpConnection_sendInLoop example_env 9 [1, 2, 3] example_world = Inr w" "conn_ok 9 k ch w"
    "conn_frame 9 example_conn ?w1 k w" "Buffer_contents (tc_out k) = [3]" "w_wire w = w_wire ?w1"
    using eq by (auto simp: send_fatal_def)
  moreover from this have "tc_fd k = 5" "tc_state k = connected" by (simp_all add: frame_fields)
  ultimately show ?thesis by auto
qed

theorem TcpConnection_handleWrite_flushes_witness:
  "\<exists>w w'. TcpConnection_sendInLoop example_env 9 [1, 2, 3] example_world = Inr w \<and>
    TcpConnection_handleWrite example_env 9 w = Inr w' \<and> w_wire w 5 = [1, 2] \<and> w_wire w' 5 = [1, 2, 3]"
proof -
  obtain w k ch where w: "TcpConnection_sendInLoop example_env 9 [1, 2, 3] example_world = Inr w" "conn_ok 9 k ch w"
    "tc_fd k = 5" "Buffer_contents (tc_out k) = [3]" "w_wire w 5 = [1, 2]"
    using example_busy_ok by blast
  have "flush_result example_env k w = 1" using w(3,4) by (simp add: flush_result_def example_env_def)
  then show ?thesis using TcpConnection_handleWrite_flushes [OF w(2) example_send_contract] w by auto
qed



text \<open>When data arrives, the message callback is called on a state whose input buffer holds the
  earlier bytes followed by exactly the bytes that arrived; the end of the stream closes the
  connection; a failed read changes nothing. Without a message callback the bytes are kept.\<close>

theorem TcpConnection_handleRead_delivers:
  assumes "w_conns w c = Some k" "Buffer_wf (tc_in k)" "readv_contract (sys_readv env (tc_fd k) w)"
    and "length (storage (tc_in k)) + STACK_BUFFER_SIZE \<le> max_size"
  shows "case sys_readv env (tc_fd k) w [length (storage (tc_in k)) - write_index (tc_in k), STACK_BUFFER_SIZE] of
      Readv_failed e \<Rightarrow> TcpConnection_handleRead env c t w = Inr w
    | Readv_bytes bs \<Rightarrow> \<exists>b. Buffer_wf b \<and> Buffer_contents b = Buffer_contents (tc_in k) @ bs \<and>
        TcpConnection_handleRead env c t w =
          (if bs = [] then TcpConnection_handleClose env c (set_conn c (k\<lparr>tc_in := b\<rparr>) w)
           else call_guarded env (tc_message_cb k) c (Some t) (set_conn c (k\<lparr>tc_in := b\<rparr>) w))"
proof (cases "sys_readv env (tc_fd k) w [length (storage (tc_in k)) - write_index (tc_in k), STACK_BUFFER_SIZE]")
  case (Readv_failed e)
  with readFd_spec [OF assms(2,3)] have "Buffer_readFd (sys_readv env (tc_fd k) w) (tc_in k) = Inr (-1, Some e, tc_in k)"
    by simp
  moreover have "set_conn c k w = w" using assms(1) by (simp add: set_conn_def map_upd_triv)
  ultimately show ?thesis using assms(1) Readv_failed by (simp add: TcpConnection_handleRead_def)
next
  case (Readv_bytes bs)
  with readFd_spec [OF assms(2,3)] assms(4) obtain b where
    "Buffer_readFd (sys_readv env (tc_fd k) w) (tc_in k) = Inr (int (length bs), None, b)" "Buffer_wf b"
    "Buffer_contents b = Buffer_contents (tc_in k) @ bs" by auto
  then show ?thesis using assms(1) Readv_bytes by (auto simp: TcpConnection_handleRead_def)
qed

theorem TcpConnection_handleRead_delivers_witness:
  "\<exists>b. Buffer_contents b = [10, 11, 12] \<and> TcpConnection_handleRead example_env 9 0 example_world =
    Inr ((set_conn 9 (example_conn\<lparr>tc_in := b\<rparr>) example_world)\<lparr>tw_calls := [(2, 9)]\<rparr>)"
proof -
  have 1: "sys_readv example_env (tc_fd example_conn) example_world = example_readv" by (simp add: example_env_def)
  have "readv_contract example_readv" by (auto simp: readv_contract_def example_readv_def)
  moreover have "length (storage (tc_in example_conn)) + STACK_BUFFER_SIZE \<le> max_size"
    by (simp add: STACK_BUFFER_SIZE_def max_size_def)
  moreover have "example_readv [length (storage empty_buffer) - write_index empty_buffer, STACK_BUFFER_SIZE] =
      Readv_bytes [10, 11, 12]"
    by (simp add: example_readv_def STACK_BUFFER_SIZE_def empty_buffer_def)
  moreover have "tw_calls (set_conn 9 k example_world) = []" for k by (simp add: set_conn_def)
  ultimately show ?thesis
    using TcpConnection_handleRead_delivers [of example_world 9 example_conn example_env 0] 1
    by (auto simp: call_guarded_def example_env_def)
qed

text \<open>Once a connection is disconnected, sending from any thread, a send or a forced close that was
  queued before, shutting down and closing again leave the whole state unchanged.\<close>

theorem TcpConnection_disconnected_inert:
  assumes "w_conns w c = Some k" "tc_state k = disconnected"
  shows "TcpConnection_send env tid c message w = Inr w \<and> TcpConnection_send_buffer env tid c b w = Inr (b, w) \<and>
    TcpConnection_sendInLoop env c message w = Inr w \<and> TcpConnection_shutdown env tid c w = Inr w \<and>
    TcpConnection_forceClose env tid c w = Inr w \<and> TcpConnection_forceCloseInLoop env c w = Inr w"
  using assms by (simp add: TcpConnection_send_def TcpConnection_send_buffer_def TcpConnection_sendInLoop_def
      TcpConnection_shutdown_def TcpConnection_forceClose_def TcpConnection_forceCloseInLoop_def state_open_def)

theorem TcpConnection_disconnected_inert_witness:
  "let w = set_conn 9 (example_conn\<lparr>tc_state := disconnected\<rparr>) example_world
   in TcpConnection_sendInLoop example_env 9 [1] w = Inr w \<and> TcpConnection_forceClose example_env 8 9 w = Inr w"
  using TcpConnection_disconnected_inert [of "set_conn 9 (example_conn\<lparr>tc_state := disconnected\<rparr>) example_world" 9
      "example_conn\<lparr>tc_state := disconnected\<rparr>" example_env 8 "[1]" empty_buffer]
  by (simp add: Let_def)

text \<open>Completing a connection makes it connected and enables reading, and then calls the connection
  callback without testing it: when the program has set none, as in the examples of the
  documentation that only set a message callback, it throws.\<close>

theorem TcpConnection_connectComplete_calls:
  assumes "w_conns w c = Some k" "PollPoller_wf (el_poller w)" "registered_at (el_poller w) (tc_fd k) (tc_chan k) ch"
  shows "\<exists>p. PollPoller_wf p \<and>
    registered_at p (tc_fd k) (tc_chan k) (ch\<lparr>ch_events := enable_reading (ch_events ch)\<rparr>) \<and>
    TcpConnection_connectComplete env c w = (case tc_connect_cb k of
        None \<Rightarrow> Inl Bad_function_call
      | Some u \<Rightarrow> user_call env u c None ((set_conn c (k\<lparr>tc_state := connected\<rparr>) w)\<lparr>el_poller := p\<rparr>))"
  using change_events_spec [OF assms(2,3), of enable_reading] assms(1)
  by (auto simp: TcpConnection_connectComplete_def chan_op_def Channel_enableReading_def call_unguarded_def
      split: option.split)

theorem TcpConnection_connectComplete_calls_witness:
  "TcpConnection_connectComplete example_env 9 (set_conn 9 (example_conn\<lparr>tc_connect_cb := None\<rparr>) example_world) =
     Inl Bad_function_call"
proof -
  let ?k = "example_conn\<lparr>tc_connect_cb := None\<rparr>"
  have "PollPoller_wf (el_poller (set_conn 9 ?k example_world))"
    "registered_at (el_poller (set_conn 9 ?k example_world)) (tc_fd ?k) (tc_chan ?k) ((Channel_new 5)\<lparr>ch_events := kReadEvent\<rparr>)"
    using example_conn_ok by (simp_all add: conn_ok_def)
  from TcpConnection_connectComplete_calls [OF _ this, of 9 example_env] show ?thesis by auto
qed

text \<open>Closing from another thread races with the loop. The thread calls \<^verbatim>\<open>forceClose\<close> and
  finds the connection open; before it stores the new state the loop handles the end of the
  stream, which disconnects the connection and calls the close callback; the store then revives
  the connection, and the queued task closes it a second time: the connection callback 1 and the
  close callback 4 are both called twice.\<close>

theorem TcpConnection_forceClose_race:
  "state_open 9 example_world \<and>
   map_sum id tw_calls (res_bind (TcpConnection_handleClose example_env 9 example_world) (\<lambda>w.
     res_bind (store_disconnecting 9 w) (\<lambda>w.
     res_bind (conn_do example_env 8 (Force_close_in_loop 9) w) (\<lambda>w.
     EventLoop_doTheTasks (run_task (conn_run example_env) (\<lambda>_. 0)) w)))) = Inr [(1, 9), (4, 9), (1, 9), (4, 9)]"
  by (simp add: state_open_def example_world_def example_env_def example_conn_def example_conn_poller_def
      TcpConnection_handleClose_def TcpConnection_forceCloseInLoop_def store_disconnecting_def with_conn_def set_conn_def
      conn_do_def EventLoop_doTaskInThread_def EventLoop_doTheTasks_def task_parts chan_op_def Channel_disableAll_def
      change_events_def Channel_update_def PollPoller_updateChannel_def disable_all_def Channel_isNoneEvent_def
      call_guarded_def call_unguarded_def world.defs event_loop.defs traced_world.defs new_loop_defs Let_def Channel_new_def)

end
