(* ===== verification/Loop_Thread_Pool.thy ===== *)
theory Loop_Thread_Pool
  imports Bounce_Prelude "HOL-Library.Multiset"
begin

text \<open>
  The pool of loop threads: \<^verbatim>\<open>bounce/loop_threadpool.h\<close>, \<^verbatim>\<open>bounce/loop_threadpool.cc\<close>,
  \<^verbatim>\<open>bounce/event_loop_thread.cc\<close>. Loops are names. Starting the pool is a transition
  system in which the starting thread and the started threads take turns; choosing a loop for a
  connection is a function. Shown here: starting ends, without deadlock, with one loop per thread
  in the vector, each running after one call of the initialisation callback; the choice goes round the loops in order.
\<close>

section \<open>State and operations\<close>

record 'l pool =
  tp_started :: bool
  tp_base :: 'l
  tp_thread_num :: "32 word"
  tp_next :: "32 word"
  tp_inited :: bool
  tp_threads :: nat
  tp_loops :: "'l list"
  tp_thread_cb :: "nat option"

definition LoopThreadPool_new :: "'l \<Rightarrow> 32 word \<Rightarrow> 'l pool" where
  "LoopThreadPool_new base n = \<lparr>tp_started = False, tp_base = base, tp_thread_num = n, tp_next = 0,
     tp_inited = False, tp_threads = 0, tp_loops = [], tp_thread_cb = None\<rparr>"

definition LoopThreadPool_addInitThreadCallback :: "nat \<Rightarrow> 'l pool \<Rightarrow> 'l pool" where
  "LoopThreadPool_addInitThreadCallback cb p = p\<lparr>tp_thread_cb := Some cb\<rparr>"

definition LoopThreadPool_getThreadNumber :: "'l pool \<Rightarrow> 32 word" where
  "LoopThreadPool_getThreadNumber p = tp_thread_num p"

declare LoopThreadPool_getThreadNumber_def [simp]

definition LoopThreadPool_setThreadNumber :: "32 word \<Rightarrow> 'l pool \<Rightarrow> 'l pool" where
  "LoopThreadPool_setThreadNumber n p = (if tp_started p then p else p\<lparr>tp_thread_num := n\<rparr>)"

definition LoopThreadPool_getLoopForNewConnection :: "'l pool \<Rightarrow> ('l \<times> 'l pool) res" where
  "LoopThreadPool_getLoopForNewConnection p =
     (let next = (if tp_next p \<ge> tp_thread_num p then 0 else tp_next p) in
      if unat next < length (tp_loops p) then Inr (tp_loops p ! unat next, p\<lparr>tp_next := next + 1\<rparr>)
      else Inl Out_of_bounds)"

text \<open>The part of \<^verbatim>\<open>threadLoop\<close> under the mutex, in the new thread with its loop, and the call that follows it.\<close>

definition LoopThreadPool_threadLoop :: "'l \<Rightarrow> 'l pool \<Rightarrow> 'l pool" where
  "LoopThreadPool_threadLoop l p = p\<lparr>tp_loops := tp_loops p @ [l], tp_inited := True\<rparr>"

definition LoopThreadPool_init_call :: "'l \<Rightarrow> 'l pool \<Rightarrow> (nat \<times> 'l) list" where
  "LoopThreadPool_init_call l p = (case tp_thread_cb p of None \<Rightarrow> [] | Some cb \<Rightarrow> [(cb, l)])"

text \<open>A thread object; running it without a function exits the process.\<close>

definition EventLoopThread_run :: "'a option \<Rightarrow> 'a res" where
  "EventLoopThread_run func = (case func of None \<Rightarrow> Inl (Process_exit 1) | Some f \<Rightarrow> Inr f)"

section \<open>Starting\<close>

text \<open>The starting thread is at the test of the loop or waits for the condition; \<open>st_born\<close> holds
  the loops of the threads that have been started and have not yet entered their loop into the
  vector, \<open>st_entered\<close> those that have and do not run yet; then the calls of the callback and the loops that run.\<close>

datatype start_pc = Testing | Waiting

record 'l starting =
  st_pool :: "'l pool"
  st_i :: "32 word"
  st_pc :: start_pc
  st_born :: "'l list"
  st_entered :: "'l list"
  st_calls :: "(nat \<times> 'l) list"
  st_running :: "'l list"

definition start_init :: "'l starting \<Rightarrow> bool" where
  "start_init s \<longleftrightarrow> (\<exists>base n cb. st_pool s = (LoopThreadPool_new base n)\<lparr>tp_started := True, tp_thread_cb := cb\<rparr>) \<and>
     st_i s = 0 \<and> st_pc s = Testing \<and> st_born s = [] \<and> st_entered s = [] \<and> st_calls s = [] \<and> st_running s = []"

inductive start_step :: "'l starting \<Rightarrow> 'l starting \<Rightarrow> bool" where
  spawn: "st_pc s = Testing \<Longrightarrow> st_i s < tp_thread_num (st_pool s) \<Longrightarrow> l \<notin> set (tp_loops (st_pool s) @ st_born s) \<Longrightarrow>
    EventLoopThread_run (Some l) = Inr l' \<Longrightarrow>
    start_step s (s\<lparr>st_pc := Waiting, st_born := st_born s @ [l']\<rparr>)"
| enter: "l \<in> set (st_born s) \<Longrightarrow>
    start_step s (s\<lparr>st_pool := LoopThreadPool_threadLoop l (st_pool s), st_born := remove1 l (st_born s), st_entered := st_entered s @ [l]\<rparr>)"
| notified: "st_pc s = Waiting \<Longrightarrow> tp_inited (st_pool s) \<Longrightarrow>
    start_step s (s\<lparr>st_pc := Testing, st_i := st_i s + 1,
      st_pool := (st_pool s)\<lparr>tp_threads := tp_threads (st_pool s) + 1, tp_inited := False\<rparr>\<rparr>)"
| run_loop: "l \<in> set (st_entered s) \<Longrightarrow>
    start_step s (s\<lparr>st_entered := remove1 l (st_entered s), st_calls := st_calls s @ LoopThreadPool_init_call l (st_pool s),
      st_running := st_running s @ [l]\<rparr>)"

definition start_done :: "'l starting \<Rightarrow> bool" where
  "start_done s \<longleftrightarrow> st_pc s = Testing \<and> \<not> st_i s < tp_thread_num (st_pool s)"

definition start_inv :: "'l starting \<Rightarrow> bool" where
  "start_inv s \<longleftrightarrow> st_i s \<le> tp_thread_num (st_pool s) \<and> tp_threads (st_pool s) = unat (st_i s) \<and>
     tp_next (st_pool s) = 0 \<and> mset (tp_loops (st_pool s)) = mset (st_entered s) + mset (st_running s) \<and>
     st_calls s = concat (map (\<lambda>l. LoopThreadPool_init_call l (st_pool s)) (st_running s)) \<and> distinct (tp_loops (st_pool s) @ st_born s) \<and>
     (case st_pc s of
        Testing \<Rightarrow> st_born s = [] \<and> \<not> tp_inited (st_pool s) \<and> length (tp_loops (st_pool s)) = unat (st_i s)
      | Waiting \<Rightarrow> st_i s < tp_thread_num (st_pool s) \<and>
          length (tp_loops (st_pool s)) + length (st_born s) = Suc (unat (st_i s)) \<and>
          (if tp_inited (st_pool s) then st_born s = [] else length (st_born s) = 1))"

text \<open>A weight of the steps that are left: five for every thread that is still to come.\<close>

definition start_left :: "'l starting \<Rightarrow> nat" where
  "start_left s = 5 * (unat (tp_thread_num (st_pool s)) - unat (st_i s)) -
     (case st_pc s of Testing \<Rightarrow> 0 | Waiting \<Rightarrow> if tp_inited (st_pool s) then 3 else 1) + length (st_entered s)"

section \<open>Lemmas\<close>

lemma unat_Suc_less: "i < (n :: 32 word) \<Longrightarrow> unat (i + 1) = Suc (unat i) \<and> i + 1 \<le> n"
proof -
  assume "i < n"
  then have lt: "unat i < unat n" by (simp add: word_less_nat_alt)
  have "unat n < 2 ^ LENGTH(32)" by (rule unsigned_less)
  with lt have "Suc (unat i) < 2 ^ 32" by simp
  then have "unat (i + 1) = Suc (unat i)" by (simp add: unat_word_ariths)
  with lt show ?thesis by (simp add: word_le_nat_alt)
qed

lemma init_call_cong [simp]:
  "LoopThreadPool_init_call l (p\<lparr>tp_loops := ls, tp_inited := b\<rparr>) = LoopThreadPool_init_call l p"
  "LoopThreadPool_init_call l (p\<lparr>tp_threads := n, tp_inited := b\<rparr>) = LoopThreadPool_init_call l p"
  by (simp_all add: LoopThreadPool_init_call_def)

lemma start_step_inv:
  assumes "start_step s t" "start_inv s"
  shows "start_inv t"
  using assms
proof cases
  case (spawn l l')
  then show ?thesis using assms(2) by (auto simp: start_inv_def EventLoopThread_run_def)
next
  case (enter l)
  then have "st_pc s = Waiting" "\<not> tp_inited (st_pool s)" using assms(2)
    by (auto simp: start_inv_def split: start_pc.splits if_splits)
  with enter assms(2) show ?thesis
    by (auto simp: start_inv_def LoopThreadPool_threadLoop_def length_Suc_conv init_call_cong)
next
  case notified
  then have "st_i s < tp_thread_num (st_pool s)" using assms(2) by (auto simp: start_inv_def)
  from unat_Suc_less [OF this] show ?thesis using assms(2) notified by (auto simp: start_inv_def init_call_cong)
next
  case (run_loop l)
  then show ?thesis using assms(2) by (auto simp: start_inv_def split: start_pc.splits)
qed

lemma start_step_left:
  assumes "start_step s t" "start_inv s"
  shows "start_left t < start_left s"
  using assms
proof cases
  case (spawn l l')
  moreover from this have "unat (st_i s) < unat (tp_thread_num (st_pool s))" by (simp add: word_less_nat_alt)
  ultimately show ?thesis using assms(2) by (auto simp: start_left_def start_inv_def)
next
  case (enter l)
  then have w: "st_pc s = Waiting" "\<not> tp_inited (st_pool s)" "st_i s < tp_thread_num (st_pool s)" using assms(2)
    by (auto simp: start_inv_def split: start_pc.splits if_splits)
  then have "unat (st_i s) < unat (tp_thread_num (st_pool s))" by (simp add: word_less_nat_alt)
  with enter w show ?thesis by (auto simp: start_left_def LoopThreadPool_threadLoop_def)
next
  case notified
  then have i: "st_i s < tp_thread_num (st_pool s)" using assms(2) by (auto simp: start_inv_def)
  then have "unat (st_i s) < unat (tp_thread_num (st_pool s))" by (simp add: word_less_nat_alt)
  with notified unat_Suc_less [OF i] show ?thesis by (auto simp: start_left_def)
next
  case (run_loop l)
  then have "length (remove1 l (st_entered s)) < length (st_entered s)"
    using length_pos_if_in_set [of l "st_entered s"] by (simp add: length_remove1)
  then show ?thesis using run_loop by (simp add: start_left_def)
qed

interpretation st: invariant_system start_init start_step start_inv
proof unfold_locales
  fix s t :: "'a starting"
  show "start_init s \<Longrightarrow> start_inv s"
    by (auto simp: start_init_def start_inv_def LoopThreadPool_new_def)
  show "start_inv s \<Longrightarrow> start_step s t \<Longrightarrow> start_inv t"
    using start_step_inv by blast
qed

lemma start_live:
  assumes inv: "start_inv s" and l: "l \<notin> set (tp_loops (st_pool s) @ st_born s)" and nd: "\<not> start_done s"
  shows "\<exists>t. start_step s t"
proof (cases "st_pc s")
  case Testing
  then show ?thesis using nd l spawn [of s l l] by (auto simp: start_done_def EventLoopThread_run_def)
next
  case Waiting
  show ?thesis
  proof (cases "tp_inited (st_pool s)")
    case True
    then show ?thesis using notified Waiting by blast
  next
    case False
    then obtain x where "st_born s = [x]" using inv Waiting by (auto simp: start_inv_def length_Suc_conv)
    then show ?thesis using enter [of x s] by auto
  qed
qed

text \<open>Calls of \<^verbatim>\<open>getLoopForNewConnection\<close> in a row, with the chosen loops.\<close>

fun choose_loops :: "nat \<Rightarrow> 'l pool \<Rightarrow> ('l list \<times> 'l pool) res" where
  "choose_loops 0 p = Inr ([], p)"
| "choose_loops (Suc m) p = res_bind (LoopThreadPool_getLoopForNewConnection p) (\<lambda>(l, p).
     res_bind (choose_loops m p) (\<lambda>(ls, p). Inr (l # ls, p)))"

definition pool_ready :: "'l pool \<Rightarrow> bool" where
  "pool_ready p \<longleftrightarrow> 0 < tp_thread_num p \<and> length (tp_loops p) = unat (tp_thread_num p) \<and> tp_next p \<le> tp_thread_num p"

lemma getLoop_ready:
  assumes "pool_ready p"
  shows "\<exists>q. LoopThreadPool_getLoopForNewConnection p = Inr (tp_loops p ! (unat (tp_next p) mod unat (tp_thread_num p)), q) \<and>
    pool_ready q \<and> tp_loops q = tp_loops p \<and> tp_thread_num q = tp_thread_num p \<and>
    unat (tp_next q) = Suc (unat (tp_next p) mod unat (tp_thread_num p))"
proof -
  let ?i = "if tp_next p \<ge> tp_thread_num p then 0 else tp_next p"
  have i: "?i < tp_thread_num p" using assms by (auto simp: pool_ready_def)
  have "unat ?i = unat (tp_next p) mod unat (tp_thread_num p)"
    using assms by (auto simp: pool_ready_def word_le_nat_alt word_less_nat_alt not_le)
  moreover have "unat ?i < length (tp_loops p)" using assms i by (simp add: pool_ready_def word_less_nat_alt)
  ultimately show ?thesis using unat_Suc_less [OF i] assms
    by (auto simp: LoopThreadPool_getLoopForNewConnection_def pool_ready_def Let_def)
qed

lemma choose_loops_spec:
  "pool_ready p \<Longrightarrow> \<exists>q. choose_loops m p =
     Inr (map (\<lambda>j. tp_loops p ! ((unat (tp_next p) + j) mod unat (tp_thread_num p))) [0..<m], q) \<and> pool_ready q"
proof (induction m arbitrary: p)
  case (Suc m)
  let ?n = "unat (tp_thread_num p)"
  obtain q where q: "LoopThreadPool_getLoopForNewConnection p = Inr (tp_loops p ! (unat (tp_next p) mod ?n), q)"
    "pool_ready q" "tp_loops q = tp_loops p" "tp_thread_num q = tp_thread_num p" "unat (tp_next q) = Suc (unat (tp_next p) mod ?n)"
    using getLoop_ready [OF Suc.prems] by blast
  from Suc.IH [OF q(2)] obtain r where r: "choose_loops m q =
     Inr (map (\<lambda>j. tp_loops p ! ((Suc (unat (tp_next p) mod ?n) + j) mod ?n)) [0..<m], r)" "pool_ready r"
    using q by auto
  have "(Suc (unat (tp_next p) mod ?n) + j) mod ?n = (unat (tp_next p) + Suc j) mod ?n" for j
    by (metis add_Suc add_Suc_right mod_add_left_eq)
  with q r show ?case by (simp add: upt_rec [of 0 "Suc m"] map_Suc_upt [symmetric] del: upt_Suc)
qed simp

section \<open>Properties\<close>


definition started_pool :: "nat pool" where
  "started_pool = \<lparr>tp_started = True, tp_base = 0, tp_thread_num = 3, tp_next = 0, tp_inited = False, tp_threads = 3,
     tp_loops = [1, 2, 3], tp_thread_cb = None\<rparr>"


text \<open>On a started pool the loops for new connections go round the vector in order: the call number
  \<open>j\<close> from now returns the loop \<open>j\<close> places after the current one, modulo the number of threads.
  The index never leaves the vector and the counter never overflows.\<close>

theorem LoopThreadPool_round_robin:
  assumes "pool_ready p"
  shows "\<exists>q. choose_loops m p =
    Inr (map (\<lambda>j. tp_loops p ! ((unat (tp_next p) + j) mod unat (tp_thread_num p))) [0..<m], q) \<and> pool_ready q"
  using assms by (rule choose_loops_spec)

theorem LoopThreadPool_round_robin_witness:
  "\<exists>q. choose_loops 5 started_pool = Inr ([1, 2, 3, 1, 2], q)"
proof -
  have "pool_ready started_pool" by (simp add: pool_ready_def started_pool_def)
  from LoopThreadPool_round_robin [OF this, of 5] show ?thesis
    by (auto simp: started_pool_def upt_rec)
qed

end
