(* ===== verification/Sock_Address.thy ===== *)
theory Sock_Address
  imports Bounce_Prelude
begin

text \<open>
  Socket addresses: \<^verbatim>\<open>bounce/sockaddr.h\<close>, \<^verbatim>\<open>bounce/sockaddr.cc\<close>. An address is the
  memory of the union of \<^verbatim>\<open>sockaddr_in\<close> and \<^verbatim>\<open>sockaddr_in6\<close>, 28 bytes; both
  structures have the family in the first two bytes in the order of the machine and the port in the
  next two in network order. The IPv4 address is at offset 4, the IPv6 address at offset 8, after
  the flow information, and the scope at offset 24. Strings are character lists;
  \<^verbatim>\<open>inet_pton\<close> and \<^verbatim>\<open>inet_ntop\<close> are parameters. Shown here: families, ports and
  addresses read back, and what happens to IPv6 texts and to an empty text.
\<close>

section \<open>Memory\<close>

type_synonym sockaddr = "byte list"

definition AF_INET :: nat where "AF_INET = 2"
definition AF_INET6 :: nat where "AF_INET6 = 10"
definition INADDR_ANY :: nat where "INADDR_ANY = 0"
definition INADDR_LOOPBACK :: nat where "INADDR_LOOPBACK = 0x7f000001"

definition in6addr_any :: "byte list" where
  "in6addr_any = replicate 16 0"

definition in6addr_loopback :: "byte list" where
  "in6addr_loopback = replicate 15 0 @ [1]"

definition load :: "nat \<Rightarrow> nat \<Rightarrow> sockaddr \<Rightarrow> byte list" where
  "load off n a = take n (drop off a)"

text \<open>\<^verbatim>\<open>htons\<close> and \<^verbatim>\<open>htonl\<close>: the number whose bytes in the order of the machine are
  those of the argument in network order; \<^verbatim>\<open>ntohs\<close> is the inverse.\<close>

definition htons :: "endian \<Rightarrow> nat \<Rightarrow> nat" where
  "htons e x = mem_nat e (mem_bytes Big 2 x)"

definition htonl :: "endian \<Rightarrow> nat \<Rightarrow> nat" where
  "htonl e x = mem_nat e (mem_bytes Big 4 x)"

definition ntohs :: "endian \<Rightarrow> nat \<Rightarrow> nat" where
  "ntohs e x = mem_nat Big (mem_bytes e 2 x)"

section \<open>Operations\<close>

definition set_family :: "endian \<Rightarrow> nat \<Rightarrow> sockaddr \<Rightarrow> sockaddr" where
  "set_family e f a = copy_into a 0 (mem_bytes e 2 f)"

definition set_port :: "endian \<Rightarrow> nat \<Rightarrow> sockaddr \<Rightarrow> sockaddr" where
  "set_port e p a = copy_into a 2 (mem_bytes e 2 p)"

definition SockAddress_port_ctor :: "endian \<Rightarrow> 16 word \<Rightarrow> bool \<Rightarrow> bool \<Rightarrow> sockaddr" where
  "SockAddress_port_ctor e port loopback ipv6 =
     (let a = set_port e (htons e (unat port)) (replicate 28 0) in
      if ipv6 then copy_into (set_family e AF_INET6 a) 8 (if loopback then in6addr_loopback else in6addr_any)
      else copy_into (set_family e AF_INET a) 4
        (mem_bytes e 4 (htonl e (if loopback then INADDR_LOOPBACK else INADDR_ANY))))"

definition SockAddress_family :: "endian \<Rightarrow> sockaddr \<Rightarrow> nat" where
  "SockAddress_family e a = mem_nat e (load 0 2 a)"

definition SockAddress_port :: "endian \<Rightarrow> sockaddr \<Rightarrow> 16 word" where
  "SockAddress_port e a = of_nat (ntohs e (mem_nat e (load 2 2 a)))"

text \<open>\<open>pton family text\<close> gives the bytes of the address, or \<open>None\<close> when the text is none of that
  family and nothing is written.\<close>

definition SockAddress_ip_ctor ::
  "endian \<Rightarrow> (nat \<Rightarrow> string \<Rightarrow> byte list option) \<Rightarrow> string \<Rightarrow> 16 word \<Rightarrow> bool \<Rightarrow> sockaddr" where
  "SockAddress_ip_ctor e pton ip port ipv6 =
     (let a = set_port e (htons e (unat port)) (replicate 28 0);
          a = set_family e (if ipv6 then AF_INET6 else AF_INET) a
      in if ip \<noteq> [] then
           (case pton (SockAddress_family e a) ip of None \<Rightarrow> a | Some bs \<Rightarrow> copy_into a 4 bs)
         else set_family e INADDR_ANY a)"

definition SockAddress_ip :: "endian \<Rightarrow> (nat \<Rightarrow> byte list \<Rightarrow> string) \<Rightarrow> sockaddr \<Rightarrow> string" where
  "SockAddress_ip e ntop a =
     (if SockAddress_family e a = AF_INET then ntop AF_INET (load 4 4 a)
      else if SockAddress_family e a = AF_INET6 then ntop AF_INET6 (load 8 16 a)
      else [])"

definition SockAddress_setScopeId :: "endian \<Rightarrow> nat \<Rightarrow> sockaddr \<Rightarrow> sockaddr" where
  "SockAddress_setScopeId e scope_id a =
     (if SockAddress_family e a = AF_INET6 then copy_into a 24 (mem_bytes e 4 scope_id) else a)"

text \<open>The documented behaviour of \<^verbatim>\<open>inet_pton\<close>: four bytes for an IPv4 address, sixteen for
  an IPv6 address.\<close>

definition pton_contract :: "(nat \<Rightarrow> string \<Rightarrow> byte list option) \<Rightarrow> bool" where
  "pton_contract pton \<longleftrightarrow> (\<forall>s bs. (pton AF_INET s = Some bs \<longrightarrow> length bs = 4) \<and> (pton AF_INET6 s = Some bs \<longrightarrow> length bs = 16))"

section \<open>Lemmas\<close>

lemma load_copy_same: "off + length bs \<le> length a \<Longrightarrow> n = length bs \<Longrightarrow> load off n (copy_into a off bs) = bs"
  by (simp add: load_def copy_into_eq)

lemma load_copy_other:
  assumes "off + length bs \<le> length a" "off' + n \<le> off \<or> off + length bs \<le> off'"
  shows "load off' n (copy_into a off bs) = load off' n a"
  using assms by (auto simp: load_def copy_into_eq drop_take min_def)

lemma length_set [simp]: "length (set_family e f a) = length a" "length (set_port e p a) = length a"
  by (simp_all add: set_family_def set_port_def)

text \<open>Reading the family and the port after the writes of the constructors.\<close>

lemma family_set_family [simp]: "2 \<le> length a \<Longrightarrow> SockAddress_family e (set_family e f a) = f mod 65536"
  by (simp add: SockAddress_family_def set_family_def load_copy_same)

lemma family_copy [simp]: "2 \<le> off \<Longrightarrow> off + length bs \<le> length a \<Longrightarrow> SockAddress_family e (copy_into a off bs) = SockAddress_family e a"
  by (simp add: SockAddress_family_def load_copy_other)

lemma port_set_family [simp]: "4 \<le> length a \<Longrightarrow> SockAddress_port e (set_family e f a) = SockAddress_port e a"
  by (simp add: SockAddress_port_def set_family_def load_copy_other)

lemma port_copy [simp]: "4 \<le> off \<Longrightarrow> off + length bs \<le> length a \<Longrightarrow> SockAddress_port e (copy_into a off bs) = SockAddress_port e a"
  by (simp add: SockAddress_port_def load_copy_other)

lemma port_set_port [simp]: "4 \<le> length a \<Longrightarrow> SockAddress_port e (set_port e (htons e (unat p)) a) = p"
proof -
  have p: "unat p < 65536" using unsigned_less [of p] by simp
  have "mem_bytes e 2 (htons e (unat p)) = mem_bytes Big 2 (unat p)" by (simp add: htons_def)
  moreover assume "4 \<le> length a"
  ultimately have "SockAddress_port e (set_port e (htons e (unat p)) a) = of_nat (mem_nat Big (mem_bytes Big 2 (unat p)))"
    by (simp add: SockAddress_port_def set_port_def load_copy_same ntohs_def)
  also have "\<dots> = of_nat (unat p)" using p by simp
  finally show ?thesis by simp
qed

lemma length_in6addr [simp]: "length in6addr_any = 16" "length in6addr_loopback = 16"
  by (simp_all add: in6addr_any_def in6addr_loopback_def)

lemmas sockaddr_consts = AF_INET_def AF_INET6_def INADDR_ANY_def INADDR_LOOPBACK_def

section \<open>Properties\<close>

text \<open>C20: Both constructors keep the port, on machines of either byte order, and give the family that was
  asked for; an IPv4 text reads back as itself when \<^verbatim>\<open>inet_ntop\<close> inverts
  \<^verbatim>\<open>inet_pton\<close> on it. An empty text however gives family zero instead of any IPv4 address.\<close>

theorem SockAddress_readback:
  assumes "pton_contract pton"
  shows "SockAddress_port e (SockAddress_port_ctor e port loopback ipv6) = port \<and>
    SockAddress_port e (SockAddress_ip_ctor e pton ip port ipv6) = port \<and>
    SockAddress_family e (SockAddress_port_ctor e port loopback ipv6) = (if ipv6 then AF_INET6 else AF_INET) \<and>
    SockAddress_family e (SockAddress_ip_ctor e pton ip port ipv6) =
      (if ip = [] then 0 else if ipv6 then AF_INET6 else AF_INET) \<and>
    (\<forall>bs. ip \<noteq> [] \<longrightarrow> pton AF_INET ip = Some bs \<longrightarrow> ntop AF_INET bs = ip \<longrightarrow>
       SockAddress_ip e ntop (SockAddress_ip_ctor e pton ip port False) = ip)"
proof (intro conjI allI impI)
  show "SockAddress_port e (SockAddress_port_ctor e port loopback ipv6) = port"
    by (simp add: SockAddress_port_ctor_def Let_def)
  show "SockAddress_family e (SockAddress_port_ctor e port loopback ipv6) = (if ipv6 then AF_INET6 else AF_INET)"
    by (simp add: SockAddress_port_ctor_def Let_def sockaddr_consts)
  have len: "length bs \<le> 16" if "pton (if ipv6 then AF_INET6 else AF_INET) ip = Some bs" for bs
    using assms that by (auto simp: pton_contract_def split: if_splits)
  have fam: "AF_INET6 mod 65536 = AF_INET6" "AF_INET mod 65536 = AF_INET"
    by (simp_all add: sockaddr_consts)
  show "SockAddress_port e (SockAddress_ip_ctor e pton ip port ipv6) = port"
    using len by (auto simp: SockAddress_ip_ctor_def Let_def fam split: option.split)
  show "SockAddress_family e (SockAddress_ip_ctor e pton ip port ipv6) =
      (if ip = [] then 0 else if ipv6 then AF_INET6 else AF_INET)"
    using len by (auto simp: SockAddress_ip_ctor_def Let_def fam INADDR_ANY_def split: option.split)
  fix bs assume "ip \<noteq> []" and bs: "pton AF_INET ip = Some bs" and nt: "ntop AF_INET bs = ip"
  have "length bs = 4" using assms bs by (auto simp: pton_contract_def)
  then show "SockAddress_ip e ntop (SockAddress_ip_ctor e pton ip port False) = ip"
    using \<open>ip \<noteq> []\<close> bs nt by (simp add: SockAddress_ip_ctor_def SockAddress_ip_def Let_def fam load_copy_same)
qed

text \<open>Conversions for one address of each family.\<close>

definition example_pton :: "nat \<Rightarrow> string \<Rightarrow> byte list option" where
  "example_pton f s = (if f = AF_INET \<and> s = ''120.24.89.156'' then Some [120, 24, 89, 156]
     else if f = AF_INET6 \<and> s = ''fe80::1778:fdc1:16f9:b739'' then
       Some [0xfe, 0x80, 0, 0, 0, 0, 0, 0, 0x17, 0x78, 0xfd, 0xc1, 0x16, 0xf9, 0xb7, 0x39] else None)"

definition example_ntop :: "nat \<Rightarrow> byte list \<Rightarrow> string" where
  "example_ntop f bs = (if f = AF_INET \<and> bs = [120, 24, 89, 156] then ''120.24.89.156''
     else if f = AF_INET6 \<and> bs = [0xfe, 0x80, 0, 0, 0, 0, 0, 0, 0x17, 0x78, 0xfd, 0xc1, 0x16, 0xf9, 0xb7, 0x39]
       then ''fe80::1778:fdc1:16f9:b739'' else ''?'')"

lemma example_pton_contract: "pton_contract example_pton"
  by (auto simp: pton_contract_def example_pton_def sockaddr_consts split: if_splits)

theorem SockAddress_readback_witness:
  "SockAddress_ip Little example_ntop (SockAddress_ip_ctor Little example_pton ''120.24.89.156'' 7777 False) = ''120.24.89.156'' \<and>
   SockAddress_port Little (SockAddress_ip_ctor Little example_pton ''120.24.89.156'' 7777 False) = 7777"
  using SockAddress_readback [OF example_pton_contract, of Little 7777 False False "''120.24.89.156''" example_ntop]
  by (simp add: example_pton_def example_ntop_def)

text \<open>An IPv6 text does not read back. The bytes of the address are written where an IPv4 address
  belongs, four bytes before the place they are read from, so that the address that is read, bound
  and connected to is the given one without its first four bytes, filled up with zeros.\<close>

theorem SockAddress_ipv6_shifted:
  assumes "pton_contract pton" "ip \<noteq> []" "pton AF_INET6 ip = Some bs"
  shows "load 8 16 (SockAddress_ip_ctor e pton ip port True) = drop 4 bs @ [0, 0, 0, 0] \<and>
    SockAddress_ip e ntop (SockAddress_ip_ctor e pton ip port True) = ntop AF_INET6 (drop 4 bs @ [0, 0, 0, 0])"
proof -
  let ?a = "set_family e AF_INET6 (set_port e (htons e (unat port)) (replicate 28 0))"
  have len: "length bs = 16" using assms by (auto simp: pton_contract_def)
  have f: "AF_INET6 mod 65536 = AF_INET6" "AF_INET6 \<noteq> AF_INET" by (simp_all add: sockaddr_consts)
  have a: "SockAddress_ip_ctor e pton ip port True = copy_into ?a 4 bs"
    using assms by (simp add: SockAddress_ip_ctor_def Let_def f)
  have "load 20 4 ?a = load 20 4 (replicate 28 0)"
    by (simp add: set_family_def set_port_def load_copy_other)
  also have "\<dots> = [0, 0, 0, 0]" by (simp add: load_def numeral_eq_Suc)
  finally have z: "take 4 (drop 20 ?a) = [0, 0, 0, 0]" by (simp add: load_def)
  have "load 8 16 (copy_into ?a 4 bs) = drop 4 bs @ take 4 (drop 20 ?a)"
    using len by (simp add: load_def copy_into_eq)
  with z a f len show ?thesis by (simp add: SockAddress_ip_def)
qed

theorem SockAddress_ipv6_shifted_witness:
  "SockAddress_ip Little example_ntop (SockAddress_ip_ctor Little example_pton ''fe80::1778:fdc1:16f9:b739'' 8888 True) = ''?''"
proof -
  let ?bs = "[0xfe, 0x80, 0, 0, 0, 0, 0, 0, 0x17, 0x78, 0xfd, 0xc1, 0x16, 0xf9, 0xb7, 0x39] :: byte list"
  have "example_pton AF_INET6 ''fe80::1778:fdc1:16f9:b739'' = Some ?bs" by (simp add: example_pton_def sockaddr_consts)
  from SockAddress_ipv6_shifted [OF example_pton_contract _ this, of Little 8888 example_ntop]
  show ?thesis by (simp add: example_ntop_def sockaddr_consts)
qed

end
