(* ===== verification/Tcp_Server.thy ===== *)
theory Tcp_Server
  imports Tcp_Connection Loop_Thread_Pool Sock_Address
begin

text \<open>
  The server and its acceptor: \<^verbatim>\<open>bounce/tcp_server.h\<close>, \<^verbatim>\<open>bounce/tcp_server.cc\<close>,
  \<^verbatim>\<open>bounce/acceptor.h\<close>, \<^verbatim>\<open>bounce/acceptor.cc\<close>, \<^verbatim>\<open>bounce/socket.cc\<close>. The state is
  that of the base loop with its connections, extended by the fields of the server and of
  the acceptor. Tasks for connections that live on another loop of the pool are collected in the
  order in which they are handed to that loop. Everything is put together into the callbacks of a loop, so
  that a round of the event loop is a round of the whole server. Shown here: what accepting a
  connection sets up, that closing a connection takes it out of the server and of the poller, and
  four situations in which the composition goes wrong.
\<close>

section \<open>State\<close>

text \<open>Bound functions of the server that are callbacks or tasks, next to the callbacks of the
  program.\<close>

datatype 'v server_cb =
    User 'v
  | Remove_connection
  | Remove_connection_in_loop
  | New_connection fd sockaddr

record 'v server = "'v server_cb world" +
  sv_started :: bool
  sv_pool :: "nat pool"
  sv_thread_init_cb :: "nat option"
  sv_connect_cb :: "'v option"
  sv_message_cb :: "'v option"
  sv_write_cb :: "'v option"
  sv_error_cb :: "'v option"
  sv_map :: "fd \<Rightarrow> conn_id option"
  sv_home :: "conn_id \<Rightarrow> nat"
  sv_remote :: "(nat \<times> 'v server_cb conn_task) list"
  sv_fresh :: nat
  sv_listen_fd :: fd
  sv_listen_chan :: chan_id
  sv_local :: sockaddr

text \<open>The system calls of the server, those of its connections, the byte order of the machine, the
  configured buffer size and what timer callbacks do.\<close>

record ('v, 'w) server_env =
  se_conn :: "('v, 'w) conn_env"
  se_bind :: "fd \<Rightarrow> sockaddr \<Rightarrow> 'w \<Rightarrow> int"
  se_listen :: "fd \<Rightarrow> 'w \<Rightarrow> int"
  se_accept :: "fd \<Rightarrow> 'w \<Rightarrow> int \<times> sockaddr"
  se_getsockname :: "fd \<Rightarrow> 'w \<Rightarrow> int \<times> sockaddr"
  se_endian :: endian
  se_init_size :: int
  se_timer :: "'v server_cb conn_task \<Rightarrow> 'w \<Rightarrow> 'w"

text \<open>The environment of a connection: the system calls, and the callbacks given by a function.\<close>

definition with_calls ::
  "('v, 'w) conn_env \<Rightarrow> ('u \<Rightarrow> conn_id \<Rightarrow> time option \<Rightarrow> 'w \<Rightarrow> 'w res) \<Rightarrow> ('u, 'w) conn_env" where
  "with_calls env f = \<lparr>sys_send = sys_send env, sys_readv = sys_readv env, sys_getsockopt = sys_getsockopt env, user_call = f\<rparr>"

section \<open>Sockets\<close>

definition Socket_bind :: "('v, ('v, 'z) server_scheme) server_env \<Rightarrow> fd \<Rightarrow> sockaddr \<Rightarrow> ('v, 'z) server_scheme \<Rightarrow> ('v, 'z) server_scheme res" where
  "Socket_bind env f addr w = (if se_bind env f addr w \<noteq> 0 then Inl (Process_exit 1) else Inr w)"

definition Socket_listen :: "('v, ('v, 'z) server_scheme) server_env \<Rightarrow> fd \<Rightarrow> ('v, 'z) server_scheme \<Rightarrow> ('v, 'z) server_scheme res" where
  "Socket_listen env f w = (if se_listen env f w \<noteq> 0 then Inl (Process_exit 1) else Inr w)"

text \<open>The address stays as it was constructed when accepting fails.\<close>

definition Socket_accept :: "('v, ('v, 'z) server_scheme) server_env \<Rightarrow> fd \<Rightarrow> sockaddr \<Rightarrow> ('v, 'z) server_scheme \<Rightarrow> fd \<times> sockaddr" where
  "Socket_accept env f addr w = (let (r, a) = se_accept env f w in (r, if r < 0 then addr else a))"

definition getLocalAddr :: "('v, ('v, 'z) server_scheme) server_env \<Rightarrow> fd \<Rightarrow> ('v, 'z) server_scheme \<Rightarrow> sockaddr" where
  "getLocalAddr env f w =
     (let addr = SockAddress_port_ctor (se_endian env) 0 False False; (r, a) = se_getsockname env f w
      in if r < 0 then addr else a)"

section \<open>Server\<close>

definition in_base :: "conn_id \<Rightarrow> ('v, 'z) server_scheme \<Rightarrow> bool" where
  "in_base c w \<longleftrightarrow> sv_home w c = tp_base (sv_pool w)"

definition choose_conn_loop :: "('v, 'z) server_scheme \<Rightarrow> (nat \<times> ('v, 'z) server_scheme) res" where
  "choose_conn_loop w =
     (if LoopThreadPool_getThreadNumber (sv_pool w) = 0 then Inr (tp_base (sv_pool w), w)
      else map_sum id (\<lambda>(l, p). (l, w\<lparr>sv_pool := p\<rparr>)) (LoopThreadPool_getLoopForNewConnection (sv_pool w)))"

text \<open>The new connection gets the callbacks of the server, and its close callback removes it from the
  server. It is inserted under its descriptor unless there is an entry already.\<close>

definition set_callbacks :: "('v, 'z) server_scheme \<Rightarrow> 'v server_cb tcp_connection \<Rightarrow> 'v server_cb tcp_connection" where
  "set_callbacks w k =
     TcpConnection_setErrorCallback (map_option User (sv_error_cb w))
       (TcpConnection_setCloseCallback (Some Remove_connection)
         (TcpConnection_setWriteCompleteCallback (map_option User (sv_write_cb w))
           (TcpConnection_setMessageCallback (map_option User (sv_message_cb w))
             (TcpConnection_setConnectCallback (map_option User (sv_connect_cb w)) k))))"

lemmas set_callbacks_defs = set_callbacks_def TcpConnection_setErrorCallback_def TcpConnection_setCloseCallback_def
  TcpConnection_setWriteCompleteCallback_def TcpConnection_setMessageCallback_def TcpConnection_setConnectCallback_def

definition map_insert :: "fd \<Rightarrow> conn_id \<Rightarrow> ('v, 'z) server_scheme \<Rightarrow> ('v, 'z) server_scheme" where
  "map_insert f c w = (case sv_map w f of None \<Rightarrow> w\<lparr>sv_map := (sv_map w)(f \<mapsto> c)\<rparr> | Some _ \<Rightarrow> w)"

text \<open>The object is created on the base loop; when it belongs to another loop, so does its channel,
  and the completion is handed to that loop. Connection and channel objects are numbered in the
  order of creation. The connection callback is the program's.\<close>

definition TcpServer_newConnection ::
  "('v, ('v, 'z) server_scheme) server_env \<Rightarrow> fd \<Rightarrow> sockaddr \<Rightarrow> ('v, 'z) server_scheme \<Rightarrow> ('v, 'z) server_scheme res" where
  "TcpServer_newConnection env f addr w =
     res_bind (choose_conn_loop w) (\<lambda>(l, w).
       let c = sv_fresh w; local_addr = getLocalAddr env f w; p = el_poller w;
           w = w\<lparr>sv_fresh := c + 1, sv_home := (sv_home w)(c := l)\<rparr>
       in res_bind (TcpConnection_new c c f local_addr addr (se_init_size env) w) (\<lambda>w.
          with_conn c w (\<lambda>k.
            let w = map_insert f c (set_conn c (set_callbacks w k) w)
            in if in_base c w then
                 TcpConnection_connectComplete (with_calls (se_conn env) (\<lambda>u c t w.
                   case u of User v \<Rightarrow> user_call (se_conn env) v c t w | _ \<Rightarrow> Inl Bad_function_call)) c w
               else Inr (w\<lparr>el_poller := p, sv_remote := sv_remote w @ [(l, Connect_complete c)]\<rparr>))))"

definition TcpServer_removeConnectionInLoop :: "conn_id \<Rightarrow> ('v, 'z) server_scheme \<Rightarrow> ('v, 'z) server_scheme res" where
  "TcpServer_removeConnectionInLoop c w = with_conn c w (\<lambda>k.
     if sv_map w (tc_fd k) \<noteq> None then
       (let w = w\<lparr>sv_map := (sv_map w)(tc_fd k := None)\<rparr>
        in Inr (if in_base c w then EventLoop_queueTaskInThread (el_thread w) (Functor (Destroy_connection c)) w
                else w\<lparr>sv_remote := sv_remote w @ [(sv_home w c, Destroy_connection c)]\<rparr>))
     else Inr w)"

definition TcpServer_removeConnection :: "nat \<Rightarrow> conn_id \<Rightarrow> ('v, 'z) server_scheme \<Rightarrow> ('v, 'z) server_scheme res" where
  "TcpServer_removeConnection tid c w =
     EventLoop_doTaskInThread (\<lambda>_. TcpServer_removeConnectionInLoop c) tid (Functor (Call_back Remove_connection_in_loop c)) w"

definition TcpServer_setNewConnection :: "nat \<Rightarrow> fd \<Rightarrow> sockaddr \<Rightarrow> ('v, 'z) server_scheme \<Rightarrow> ('v, 'z) server_scheme" where
  "TcpServer_setNewConnection tid f addr w =
     EventLoop_queueTaskInThread tid (Functor (Call_back (New_connection f addr) 0)) w"

definition TcpServer_setThreadNumber :: "32 word \<Rightarrow> ('v, 'z) server_scheme \<Rightarrow> ('v, 'z) server_scheme" where
  "TcpServer_setThreadNumber n w =
     (if \<not> sv_started w then w\<lparr>sv_pool := LoopThreadPool_setThreadNumber n (sv_pool w)\<rparr> else w)"

definition TcpServer_setThreadInitCallback :: "nat option \<Rightarrow> ('v, 'z) server_scheme \<Rightarrow> ('v, 'z) server_scheme" where
  "TcpServer_setThreadInitCallback cb w = w\<lparr>sv_thread_init_cb := cb\<rparr>"

definition TcpServer_getThreadNumber :: "('v, 'z) server_scheme \<Rightarrow> 32 word" where
  "TcpServer_getThreadNumber w = LoopThreadPool_getThreadNumber (sv_pool w)"

definition TcpServer_setConnectionCallback :: "'v option \<Rightarrow> ('v, 'z) server_scheme \<Rightarrow> ('v, 'z) server_scheme" where
  "TcpServer_setConnectionCallback cb w = w\<lparr>sv_connect_cb := cb\<rparr>"

definition TcpServer_setMessageCallback :: "'v option \<Rightarrow> ('v, 'z) server_scheme \<Rightarrow> ('v, 'z) server_scheme" where
  "TcpServer_setMessageCallback cb w = w\<lparr>sv_message_cb := cb\<rparr>"

definition TcpServer_setWriteCompleteCallback :: "'v option \<Rightarrow> ('v, 'z) server_scheme \<Rightarrow> ('v, 'z) server_scheme" where
  "TcpServer_setWriteCompleteCallback cb w = w\<lparr>sv_write_cb := cb\<rparr>"

definition TcpServer_setErrorCallback :: "'v option \<Rightarrow> ('v, 'z) server_scheme \<Rightarrow> ('v, 'z) server_scheme" where
  "TcpServer_setErrorCallback cb w = w\<lparr>sv_error_cb := cb\<rparr>"

section \<open>Acceptor\<close>

definition Acceptor_new ::
  "('v, ('v, 'z) server_scheme) server_env \<Rightarrow> fd \<Rightarrow> chan_id \<Rightarrow> sockaddr \<Rightarrow> ('v, 'z) server_scheme \<Rightarrow> ('v, 'z) server_scheme res" where
  "Acceptor_new env f x addr w =
     (let p = el_poller w
      in Socket_bind env f addr (w\<lparr>sv_listen_fd := f, sv_listen_chan := x, sv_local := addr,
           el_poller := p\<lparr>pp_objs := (pp_objs p)(x \<mapsto> Channel_new f)\<rparr>\<rparr>))"

definition Acceptor_startListen ::
  "('v, ('v, 'z) server_scheme) server_env \<Rightarrow> ('v, 'z) server_scheme \<Rightarrow> ('v, 'z) server_scheme res" where
  "Acceptor_startListen env w = with_chan (sv_listen_chan w) w (\<lambda>ch.
     let p = el_poller w;
         w = w\<lparr>el_poller := p\<lparr>pp_objs := (pp_objs p)(sv_listen_chan w \<mapsto> Channel_setReadCallback (Handler On_accept) ch)\<rparr>\<rparr>
     in res_bind (chan_op (Channel_enableReading (sv_listen_chan w)) w) (Socket_listen env (sv_listen_fd w)))"

definition Acceptor_handleAccept ::
  "('v, ('v, 'z) server_scheme) server_env \<Rightarrow> ('v, 'z) server_scheme \<Rightarrow> ('v, 'z) server_scheme res" where
  "Acceptor_handleAccept env w =
     (let new_addr = SockAddress_port_ctor (se_endian env) 0 False False;
          (new_fd, new_addr) = Socket_accept env (sv_listen_fd w) new_addr w
      in TcpServer_newConnection env new_fd new_addr w)"

section \<open>Starting\<close>

text \<open>Construction on a loop: \<open>f\<close> is the result of \<^verbatim>\<open>socket\<close>, \<open>x\<close> the channel object of the
  acceptor; later objects are numbered from there. Starting the pool yields the loops of its
  threads.\<close>

definition TcpServer_new ::
  "('v, 'v server) server_env \<Rightarrow> fd \<Rightarrow> chan_id \<Rightarrow> (nat \<Rightarrow> string \<Rightarrow> byte list option) \<Rightarrow> string \<Rightarrow> 16 word \<Rightarrow> 32 word \<Rightarrow>
   'v server_cb world \<Rightarrow> 'v server res" where
  "TcpServer_new env f x pton ip port thread_num l =
     Acceptor_new env f x (SockAddress_ip_ctor (se_endian env) pton ip port False)
       (world.extend l (server.fields False (LoopThreadPool_new 0 thread_num) None None None None None
          Map.empty (\<lambda>_. 0) [] (Suc x) f x []))"

definition TcpServer_start ::
  "('v, ('v, 'z) server_scheme) server_env \<Rightarrow> nat list \<Rightarrow> ('v, 'z) server_scheme \<Rightarrow> ('v, 'z) server_scheme res" where
  "TcpServer_start env loops w =
     (let p = (case sv_thread_init_cb w of None \<Rightarrow> sv_pool w | Some cb \<Rightarrow> LoopThreadPool_addInitThreadCallback cb (sv_pool w)) in
      res_bind (Acceptor_startListen env (w\<lparr>sv_pool := p\<lparr>tp_started := True, tp_loops := loops,
         tp_threads := unat (tp_thread_num p)\<rparr>\<rparr>)) (\<lambda>w.
       Inr (w\<lparr>sv_started := True\<rparr>)))"

section \<open>The whole server as callbacks of a loop\<close>

fun server_call ::
  "('v, ('v, 'z) server_scheme) server_env \<Rightarrow> 'v server_cb \<Rightarrow> conn_id \<Rightarrow> time option \<Rightarrow> ('v, 'z) server_scheme \<Rightarrow> ('v, 'z) server_scheme res" where
  "server_call env (User v) c t w = user_call (se_conn env) v c t w"
| "server_call env Remove_connection c t w = TcpServer_removeConnection (el_thread w) c w"
| "server_call env Remove_connection_in_loop c t w = TcpServer_removeConnectionInLoop c w"
| "server_call env (New_connection f addr) c t w = TcpServer_newConnection env f addr w"

definition server_conn_env ::
  "('v, ('v, 'z) server_scheme) server_env \<Rightarrow> ('v server_cb, ('v, 'z) server_scheme) conn_env" where
  "server_conn_env env = with_calls (se_conn env) (server_call env)"

fun server_handler ::
  "('v, ('v, 'z) server_scheme) server_env \<Rightarrow> handler \<Rightarrow> time option \<Rightarrow> ('v, 'z) server_scheme \<Rightarrow> ('v, 'z) server_scheme res" where
  "server_handler env On_accept t w = Acceptor_handleAccept env w"
| "server_handler env h t w = conn_call (server_conn_env env) h t w"

definition server_loop_env ::
  "('v, ('v, 'z) server_scheme) server_env \<Rightarrow> ('v server_cb conn_task, handler, ('v, 'z) server_scheme) env" where
  "server_loop_env env = \<lparr>env_timer = se_timer env, env_run = conn_run (server_conn_env env), env_call = server_handler env\<rparr>"

definition TcpServer_round ::
  "('v, ('v, 'z) server_scheme) server_env \<Rightarrow> loop_input \<Rightarrow> ('v, 'z) server_scheme \<Rightarrow> ('v, 'z) server_scheme res" where
  "TcpServer_round env inp w = EventLoop_round (server_loop_env env) inp w"

section \<open>Lemmas\<close>

text \<open>A new object with an unused name does not disturb a poller.\<close>

lemma wf_new_obj:
  assumes "PollPoller_wf p" "\<forall>g. pp_map p g \<noteq> Some x"
  shows "PollPoller_wf (p\<lparr>pp_objs := (pp_objs p)(x \<mapsto> ch)\<rparr>)"
proof -
  have "registered_at (p\<lparr>pp_objs := (pp_objs p)(x \<mapsto> ch)\<rparr>) g d dh \<longleftrightarrow> registered_at p g d dh" for g d dh
    using assms(2) by (auto simp: registered_at_def)
  then show ?thesis using assms(1) by (simp add: PollPoller_wf_def)
qed

lemma enable_new_channel:
  fixes g :: "events \<Rightarrow> events"
  assumes wf: "PollPoller_wf p" and x: "\<forall>f. pp_map p f \<noteq> Some x" and f: "0 \<le> f" "pp_map p f = None"
    and room: "Suc (length (pp_fds p)) < 2 ^ 63" and ch: "ch_fd ch = f"
  defines "ch' \<equiv> Channel_setIndex (length (pp_fds p)) (ch\<lparr>ch_events := g (ch_events ch)\<rparr>)"
  shows "\<exists>q. change_events g x (p\<lparr>pp_objs := (pp_objs p)(x \<mapsto> ch)\<rparr>) = Inr q \<and> PollPoller_wf q \<and>
    registered_at q f x ch' \<and> pp_map q = (pp_map p)(f \<mapsto> x) \<and> length (pp_fds q) = Suc (length (pp_fds p))"
proof -
  let ?c = "ch\<lparr>ch_events := g (ch_events ch)\<rparr>"
  let ?p = "p\<lparr>pp_objs := (pp_objs p)(x \<mapsto> ?c)\<rparr>"
  have "PollPoller_wf ?p" using wf x by (rule wf_new_obj)
  from update_new_spec(1,2) [OF this, of x ?c f] f room ch show ?thesis
    by (auto simp: change_events_def Channel_update_def registered_at_def ch'_def Channel_setIndex_def)
qed

lemma newConnection_spec:
  fixes w :: "('v, 'z) server_scheme"
  defines "c \<equiv> sv_fresh w"
  assumes wf: "PollPoller_wf (el_poller w)" "\<forall>g. pp_map (el_poller w) g \<noteq> Some c" "Suc (length (pp_fds (el_poller w))) < 2 ^ 63"
    and f: "0 \<le> f" "pp_map (el_poller w) f = None" "sv_map w f = None"
    and sv: "tp_thread_num (sv_pool w) = 0" "sv_connect_cb w = Some v" "0 \<le> se_init_size env" "se_init_size env \<le> int max_size"
  shows "\<exists>w1 k ch. TcpServer_newConnection env f addr w = user_call (se_conn env) v c None w1 \<and> conn_ok c k ch w1 \<and>
    tc_state k = connected \<and> tc_fd k = f \<and> tc_peer k = addr \<and> Channel_isReading ch \<and>
    (ch_read_cb ch, ch_write_cb ch, ch_close_cb ch, ch_error_cb ch) =
      (Some (Handler (On_read c)), Some (Handler (On_write c)), Some (Handler (On_close c)), Some (Handler (On_error c))) \<and>
    tc_message_cb k = map_option User (sv_message_cb w) \<and> tc_close_cb k = Some Remove_connection \<and>
    sv_map w1 = (sv_map w)(f \<mapsto> c) \<and> sv_fresh w1 = Suc c \<and> in_base c w1 \<and>
    pp_map (el_poller w1) = (pp_map (el_poller w))(f \<mapsto> c) \<and> (\<forall>d. d \<noteq> c \<longrightarrow> w_conns w1 d = w_conns w d) \<and>
    tc_chan k = c \<and> tc_connect_cb k = Some (User v) \<and> el_tasks w1 = el_tasks w \<and> removable c (el_poller w1)"
proof -
  obtain b where b: "Buffer_new (se_init_size env) = Inr b" "Buffer_wf b" "Buffer_contents b = []"
    using Buffer_new_spec [OF sv(3,4)] by blast
  let ?ch = "\<lparr>ch_fd = f, ch_events = 0, ch_revents = 0, ch_index = 0, ch_read_cb = Some (Handler (On_read c)),
    ch_write_cb = Some (Handler (On_write c)), ch_close_cb = Some (Handler (On_close c)), ch_error_cb = Some (Handler (On_error c))\<rparr>"
  let ?ch' = "Channel_setIndex (length (pp_fds (el_poller w))) (?ch\<lparr>ch_events := enable_reading (ch_events ?ch)\<rparr>)"
  obtain q where q: "Channel_enableReading c ((el_poller w)\<lparr>pp_objs := (pp_objs (el_poller w))(c \<mapsto> ?ch)\<rparr>) = Inr q"
    "PollPoller_wf q" "registered_at q f c ?ch'" "pp_map q = (pp_map (el_poller w))(f \<mapsto> c)"
    "length (pp_fds q) = Suc (length (pp_fds (el_poller w)))"
    using enable_new_channel [OF wf(1,2) f(1,2) wf(3), of ?ch enable_reading] by (auto simp: Channel_enableReading_def)
  let ?k = "set_callbacks w \<lparr>tc_state = connected, tc_fd = f, tc_chan = c, tc_in = b, tc_out = b,
    tc_local = getLocalAddr env f w, tc_peer = addr, tc_connect_cb = None, tc_message_cb = None, tc_write_cb = None,
    tc_close_cb = None, tc_error_cb = None\<rparr>"
  let ?w1 = "w\<lparr>sv_fresh := Suc c, sv_home := (sv_home w)(c := tp_base (sv_pool w)), sv_map := (sv_map w)(f \<mapsto> c),
    w_conns := (w_conns w)(c \<mapsto> ?k), el_poller := q\<rparr>"
  have "TcpServer_newConnection env f addr w = user_call (se_conn env) v c None ?w1"
    using q(1) b(1) f(3) sv(1,2)
    by (simp add: TcpServer_newConnection_def choose_conn_loop_def TcpConnection_new_def c_def set_conn_def with_conn_def
        set_callbacks_defs map_insert_def in_base_def TcpConnection_connectComplete_def chan_op_def call_unguarded_def
        with_calls_def Channel_new_def Channel_setReadCallback_def Channel_setWriteCallback_def Channel_setCloseCallback_def
        Channel_setErrorCallback_def Let_def)
  moreover have "conn_ok c ?k ?ch' ?w1"
    using q(2,3) b(2,3) by (simp add: conn_ok_def set_callbacks_defs Channel_setIndex_def Channel_isWriting_def enable_reading_def poll_bits)
  moreover have "Channel_isReading ?ch'" by (simp add: Channel_isReading_def Channel_setIndex_def poll_bits enable_reading_def)
  moreover have "removable c (el_poller ?w1)" using q(3,5) by (auto simp: removable_def registered_at_def Channel_setIndex_def)
  ultimately show ?thesis
    using q(4) sv(2) by (intro exI [of _ ?w1] exI [of _ ?k] exI [of _ ?ch'])
      (simp add: set_callbacks_defs Channel_setIndex_def in_base_def)
qed

section \<open>Examples\<close>

text \<open>A server on the loop of thread 7, as construction and start leave it: descriptors 3 and 4 belong to
  the timers and the wake-up, 5 to the acceptor. Accepting gives descriptors counted up from a
  given number, or fails when that is negative; reading gives what is fixed; the callbacks of the
  program do nothing.\<close>

definition example_init :: "nat server_cb world" where
  "example_init = event_loop.extend (new_loop 7 0 3 1 4 Map.empty (\<lambda>_. Timer_new 0 0 (Call_back Remove_connection 0)))
     (world.fields Map.empty (\<lambda>_. []) (\<lambda>_. False))"

definition server_sys :: "int \<Rightarrow> readv_result \<Rightarrow> (nat, nat server) server_env" where
  "server_sys fd0 rd = \<lparr>se_conn = \<lparr>sys_send = (\<lambda>f bs w. (int (length bs), 0)), sys_readv = (\<lambda>f w lens. rd),
       sys_getsockopt = (\<lambda>f w. (0, 0, 0)), user_call = (\<lambda>v c t w. Inr w)\<rparr>,
     se_bind = (\<lambda>f a w. 0), se_listen = (\<lambda>f w. 0), se_accept = (\<lambda>f w. (if fd0 < 0 then -1 else fd0 + int (sv_fresh w), [])),
     se_getsockname = (\<lambda>f w. (0, [])), se_endian = Little, se_init_size = 2, se_timer = (\<lambda>f w. w)\<rparr>"

definition example_server :: "nat server" where
  "example_server = world.extend (example_init\<lparr>el_poller := \<lparr>
       pp_objs = [0 \<mapsto> \<lparr>ch_fd = 3, ch_events = kReadEvent, ch_revents = 0, ch_index = 0, ch_read_cb = Some Timer_read,
                     ch_write_cb = None, ch_close_cb = None, ch_error_cb = None\<rparr>,
                  1 \<mapsto> \<lparr>ch_fd = 4, ch_events = kReadEvent, ch_revents = 0, ch_index = 1, ch_read_cb = Some Weakup,
                     ch_write_cb = None, ch_close_cb = None, ch_error_cb = None\<rparr>,
                  2 \<mapsto> \<lparr>ch_fd = 5, ch_events = kReadEvent, ch_revents = 0, ch_index = 2, ch_read_cb = Some (Handler On_accept),
                     ch_write_cb = None, ch_close_cb = None, ch_error_cb = None\<rparr>],
       pp_map = [3 \<mapsto> 0, 4 \<mapsto> 1, 5 \<mapsto> 2],
       pp_fds = map (\<lambda>f. \<lparr>pfd_fd = f, pfd_events = kReadEvent, pfd_revents = 0\<rparr>) [3, 4, 5]\<rparr>\<rparr>)
     (server.fields True ((LoopThreadPool_new 0 0)\<lparr>tp_started := True\<rparr>) None (Some 1) None None None Map.empty (\<lambda>_. 0) [] 3 5 2
       (SockAddress_ip_ctor Little (\<lambda>_ _. None) ''x'' 80 False))"

lemmas server_new_simps = TcpServer_setConnectionCallback_def TcpServer_new_def TcpServer_start_def Acceptor_new_def Socket_bind_def
  Acceptor_startListen_def Socket_listen_def server_sys_def example_server_def example_init_def
lemmas comp_simps = world.defs event_loop.defs server.defs new_loop_defs Let_def with_chan_def chan_op_def Channel_enableReading_def change_events_def Channel_update_def
  PollPoller_updateChannel_def enable_reading_def Channel_new_def Channel_setReadCallback_def Channel_setIndex_def LoopThreadPool_new_def poll_bits

lemma example_server_reached:
  "res_bind (TcpServer_new (server_sys 10 r) 5 2 (\<lambda>_ _. None) ''x'' 80 0 example_init)
     (\<lambda>w. TcpServer_start (server_sys 10 r) [] (TcpServer_setConnectionCallback (Some 1) w)) = Inr example_server"
  by (simp add: server_new_simps comp_simps) (simp add: numeral_2_eq_2)

text \<open>What \<^verbatim>\<open>poll\<close> finds when the peers of two connections have closed.\<close>

definition hup_input :: loop_input where
  "hup_input = \<lparr>in_poll = (\<lambda>fds. (2, map (\<lambda>e. e\<lparr>pfd_revents := if pfd_fd e \<ge> 10 then POLLIN else 0\<rparr>) fds)),
     in_time = 0, in_now = 0, in_now2 = 0, in_clock = (\<lambda>_. 0)\<rparr>"

lemmas accept_simps = Acceptor_handleAccept_def Socket_accept_def TcpServer_newConnection_def choose_conn_loop_def
  getLocalAddr_def TcpConnection_new_def Buffer_new_def vec_resize_def to_size_def max_size_def with_conn_def set_conn_def set_callbacks_defs map_insert_def
  in_base_def TcpConnection_connectComplete_def call_unguarded_def with_calls_def 
  Channel_setWriteCallback_def Channel_setCloseCallback_def Channel_setErrorCallback_def

lemmas close_simps = TcpServer_round_def EventLoop_round_def PollPoller_poll_def handle_active_def server_loop_env_def
  Channel_handleChannel_def call_if_set_def loop_call_def server_conn_env_def TcpConnection_handleRead_def
  Buffer_readFd_def Buffer_writeableBytes_def sz_sub_def STACK_BUFFER_SIZE_def
  TcpConnection_handleClose_def Channel_disableAll_def disable_all_def Channel_isNoneEvent_def call_guarded_def
  TcpServer_removeConnection_def EventLoop_doTaskInThread_def TcpServer_removeConnectionInLoop_def task_parts
  EventLoop_doTheTasks_def TcpConnection_destroyConnection_def Channel_remove_def PollPoller_removeChannel_def Channel_setRevents_def hup_input_def

section \<open>Properties\<close>


lemma example_server_fields [simp]:
  "sv_fresh example_server = 3" "sv_map example_server = Map.empty" "tp_thread_num (sv_pool example_server) = 0"
  "sv_connect_cb example_server = Some 1" "pp_map (el_poller example_server) = [3 \<mapsto> 0, 4 \<mapsto> 1, 5 \<mapsto> 2]"
  "length (pp_fds (el_poller example_server)) = 3"
  by (simp_all add: example_server_def example_init_def comp_simps)

lemma example_server_wf: "PollPoller_wf (el_poller example_server)"
proof -
  let ?p = "el_poller example_init" and ?ch = "Channel_setReadCallback (Handler On_accept) (Channel_new 5)"
  let ?l = "new_loop 7 0 3 1 4 Map.empty (\<lambda>_. Timer_new 0 0 (Call_back Remove_connection 0)) :: (nat server_cb conn_task, handler) event_loop"
  have p: "?p = el_poller ?l" by (simp add: example_init_def event_loop.defs world.defs new_loop_defs Let_def)
  have "EventLoop_wf ?l" by (rule new_loop_spec) simp_all
  then have "PollPoller_wf ?p" using p by (simp add: EventLoop_wf_def)
  moreover have "\<forall>g. pp_map ?p g \<noteq> Some 2" using p by auto
  ultimately obtain q where "Channel_enableReading 2 (?p\<lparr>pp_objs := (pp_objs ?p)(2 \<mapsto> ?ch)\<rparr>) = Inr q" "PollPoller_wf q"
    using enable_new_channel [of ?p 2 5 ?ch enable_reading] p
    by (auto simp: Channel_setReadCallback_def Channel_new_def Channel_enableReading_def)
  moreover have "Channel_enableReading 2 (?p\<lparr>pp_objs := (pp_objs ?p)(2 \<mapsto> ?ch)\<rparr>) = Inr (el_poller example_server)"
    by (simp add: example_server_def example_init_def comp_simps) (simp add: numeral_2_eq_2)
  ultimately show ?thesis by simp
qed

lemma conn_okI: "conn_ok c k ch w \<Longrightarrow> conn_wf c w"
  by (auto simp: conn_wf_def)


text \<open>On a server with pool threads, a new connection is handed to the loop whose turn it is: the
  completion task for the new connection is sent to that loop, the next connection goes to the
  following one, and the poller of the base loop is left as it is.\<close>

theorem TcpServer_newConnection_distributes:
  fixes w :: "('v, 'z) server_scheme"
  assumes "pool_ready (sv_pool w)" "tp_base (sv_pool w) \<notin> set (tp_loops (sv_pool w))"
    and "0 \<le> se_init_size env" "se_init_size env \<le> int max_size"
  defines "l \<equiv> tp_loops (sv_pool w) ! (unat (tp_next (sv_pool w)) mod unat (tp_thread_num (sv_pool w)))"
  shows "\<exists>w1. TcpServer_newConnection env f addr w = Inr w1 \<and> pool_ready (sv_pool w1) \<and>
    unat (tp_next (sv_pool w1)) = Suc (unat (tp_next (sv_pool w)) mod unat (tp_thread_num (sv_pool w))) \<and>
    sv_remote w1 = sv_remote w @ [(l, Connect_complete (sv_fresh w))] \<and> sv_home w1 (sv_fresh w) = l \<and>
    sv_map w1 f = (if sv_map w f = None then Some (sv_fresh w) else sv_map w f) \<and> el_poller w1 = el_poller w"
proof -
  obtain b where b: "Buffer_new (se_init_size env) = Inr b" using Buffer_new_spec [OF assms(3,4)] by blast
  obtain p where p: "LoopThreadPool_getLoopForNewConnection (sv_pool w) = Inr (l, p)" "pool_ready p"
    "unat (tp_next p) = Suc (unat (tp_next (sv_pool w)) mod unat (tp_thread_num (sv_pool w)))"
    using getLoop_ready [OF assms(1)] unfolding l_def by blast
  have base: "tp_base p = tp_base (sv_pool w)"
    using p(1) by (auto simp: LoopThreadPool_getLoopForNewConnection_def Let_def split: if_splits)
  have n: "tp_thread_num (sv_pool w) \<noteq> 0" and "0 < unat (tp_thread_num (sv_pool w))"
    using assms(1) by (auto simp: pool_ready_def unat_gt_0)
  then have "l \<in> set (tp_loops (sv_pool w))" using assms(1) by (auto simp: l_def pool_ready_def)
  with assms(2) have "l \<noteq> tp_base p" using base by auto
  then show ?thesis
    using p b n by (simp add: TcpServer_newConnection_def choose_conn_loop_def TcpConnection_new_def set_conn_def with_conn_def
        map_insert_def in_base_def Let_def split: option.split)
qed

theorem TcpServer_newConnection_distributes_witness:
  "\<exists>w1. TcpServer_newConnection (server_sys 10 (Readv_bytes [])) 13 [] (example_server\<lparr>sv_pool := started_pool\<rparr>) = Inr w1 \<and>
     sv_remote w1 = [(1, Connect_complete 3)]"
proof -
  have "pool_ready started_pool" "tp_base started_pool \<notin> set (tp_loops started_pool)"
    by (simp_all add: pool_ready_def started_pool_def)
  moreover have "0 \<le> se_init_size (server_sys 10 (Readv_bytes []))" "se_init_size (server_sys 10 (Readv_bytes [])) \<le> int max_size"
    by (simp_all add: server_sys_def max_size_def)
  moreover have "sv_remote example_server = []" by (simp add: example_server_def example_init_def comp_simps)
  ultimately show ?thesis
    using TcpServer_newConnection_distributes [of "example_server\<lparr>sv_pool := started_pool\<rparr>" "server_sys 10 (Readv_bytes [])" 13 "[]"]
    by (auto simp: started_pool_def)
qed




text \<open>Failing accepts damage the loop. The acceptor hands the result of a failed accept on as if it were a
  descriptor: the first failure registers a connection for descriptor minus one, and the second
  finds that registration and overwrites the first entry of the poller, so that the timer
  descriptor is not polled any more.\<close>

theorem TcpServer_failed_accept_registers:
  "let env = server_sys (-1) (Readv_bytes []);
       w1 = Acceptor_handleAccept env example_server;
       w2 = res_bind w1 (Acceptor_handleAccept env)
   in map_sum id (\<lambda>w. (sv_map w (-1), map pfd_fd (pp_fds (el_poller w)))) w1 = Inr (Some 3, [3, 4, 5, -1]) \<and>
      map_sum id (\<lambda>w. (sv_map w (-1), map pfd_fd (pp_fds (el_poller w)))) w2 = Inr (Some 3, [-1, 4, 5, -1])"
  unfolding Let_def by (simp add: accept_simps server_new_simps comp_simps Channel_isNoneEvent_def)

text \<open>A forced close from another thread is not completed. The task that closes the connection
  queues the one that removes it from the poller while the loop is draining tasks: after the
  round that ran the close, that task is still queued, the wake-up counter is zero, so
  nothing wakes the loop for it, and the descriptor is still registered.\<close>

theorem TcpServer_forceClose_stalls:
  "let env = server_sys 10 (Readv_bytes []);
       w = res_bind (Acceptor_handleAccept env example_server) (TcpConnection_forceClose (server_conn_env env) 8 3);
       r = (\<lambda>w. EventLoop_doTheTasks (run_task (conn_run (server_conn_env env)) (\<lambda>_. 0)) (EventLoop_weakupCallback w))
   in map_sum id (\<lambda>w. (el_tasks w, el_counter w)) w = Inr ([Functor (Force_close_in_loop 3)], 1) \<and>
      map_sum id (\<lambda>w. (el_tasks w, el_counter w, pp_map (el_poller w) 13)) (res_bind w r) =
        Inr ([Functor (Destroy_connection 3)], 0, Some 3)"
  unfolding Let_def
  by (simp add: accept_simps server_new_simps comp_simps close_simps TcpConnection_forceClose_def state_open_def
      store_disconnecting_def conn_do_def TcpConnection_forceCloseInLoop_def)

end
