(* ===== verification/Connector.thy ===== *)
theory Connector
  imports Tcp_Server
begin

text \<open>
  Outgoing connections: \<^verbatim>\<open>bounce/connector.h\<close>, \<^verbatim>\<open>bounce/connector.cc\<close>. The state is
  that of a server whose base loop also runs the connector, extended by the channels of pending
  connects, the descriptors closed by the connector and the reported errors. Shown here: the
  outcome of a pending connect, on success and on failure; and that the channel whose callback is
  running is destroyed by it.
\<close>

section \<open>State and operations\<close>

record 'v connector = "'v server" +
  cn_map :: "fd \<Rightarrow> chan_id option"
  cn_error_cb :: bool
  cn_closed :: "fd list"
  cn_errors :: "(sockaddr \<times> int) list"

text \<open>The results of \<^verbatim>\<open>socket\<close>, of \<^verbatim>\<open>connect\<close> with \<^verbatim>\<open>errno\<close>, and of
  \<^verbatim>\<open>getsockopt\<close> with the value it stores.\<close>

record 'w connector_env =
  ce_socket :: "'w \<Rightarrow> fd"
  ce_connect :: "fd \<Rightarrow> sockaddr \<Rightarrow> 'w \<Rightarrow> int \<times> errno"
  ce_getsockopt :: "fd \<Rightarrow> 'w \<Rightarrow> int \<times> int"

definition EINPROGRESS :: errno where "EINPROGRESS = 115"

definition Connector_new :: "'v server \<Rightarrow> 'v connector" where
  "Connector_new s = server.extend s (connector.fields Map.empty False [] [])"

text \<open>Called directly when the connect succeeded at once, or by the channel. The entry of the map
  is the only owner of the channel object, which goes away with it.\<close>

definition Connector_handleWrite ::
  "('v, 'z) connector_scheme connector_env \<Rightarrow> fd \<Rightarrow> sockaddr \<Rightarrow> ('v, 'z) connector_scheme \<Rightarrow> ('v, 'z) connector_scheme res" where
  "Connector_handleWrite env f addr w =
     (case cn_map w f of
        None \<Rightarrow> Inr (TcpServer_setNewConnection (el_thread w) f addr w)
      | Some x \<Rightarrow>
          (let (ret, error) = ce_getsockopt env f w; success = (\<not> ret < 0 \<and> error = 0)
           in res_bind (chan_op (Channel_remove x) w) (\<lambda>w.
              let p = el_poller w;
                  w = w\<lparr>cn_map := (cn_map w)(f := None), el_poller := p\<lparr>pp_objs := (pp_objs p)(x := None)\<rparr>\<rparr>
              in if success then Inr (TcpServer_setNewConnection (el_thread w) f addr w)
                 else Inr (w\<lparr>cn_closed := cn_closed w @ [f],
                   cn_errors := (if cn_error_cb w then cn_errors w @ [(addr, error)] else cn_errors w)\<rparr>))))"

definition Connector_connectInLoop ::
  "('v, 'z) connector_scheme connector_env \<Rightarrow> sockaddr \<Rightarrow> ('v, 'z) connector_scheme \<Rightarrow> ('v, 'z) connector_scheme res" where
  "Connector_connectInLoop env addr w =
     (let f = ce_socket env w; x = sv_fresh w; w = w\<lparr>sv_fresh := x + 1\<rparr>; (ret, err) = ce_connect env f addr w
      in if ret = 0 then Connector_handleWrite env f addr w
         else if err = EINPROGRESS then
           (let p = el_poller w;
                w = w\<lparr>cn_map := (case cn_map w f of None \<Rightarrow> (cn_map w)(f \<mapsto> x) | Some _ \<Rightarrow> cn_map w),
                      el_poller := p\<lparr>pp_objs := (pp_objs p)(x \<mapsto>
                        Channel_setWriteCallback (Handler (On_connect f addr)) (Channel_new f))\<rparr>\<rparr>
            in chan_op (Channel_enableWriting x) w)
         else Inr w)"

definition Connector_setErrorCallback :: "bool \<Rightarrow> ('v, 'z) connector_scheme \<Rightarrow> ('v, 'z) connector_scheme" where
  "Connector_setErrorCallback cb w = w\<lparr>cn_error_cb := cb\<rparr>"

text \<open>\<open>task\<close> names the bound call when it has to be queued.\<close>

definition Connector_connect ::
  "('v, 'z) connector_scheme connector_env \<Rightarrow> nat \<Rightarrow> 'v server_cb conn_task \<Rightarrow> sockaddr \<Rightarrow> ('v, 'z) connector_scheme \<Rightarrow>
   ('v, 'z) connector_scheme res" where
  "Connector_connect env tid task addr w =
     (if \<not> sv_started w then Inr w
      else EventLoop_doTaskInThread (\<lambda>_. Connector_connectInLoop env addr) tid (Functor task) w)"

text \<open>The handlers of a loop that runs a server and a connector.\<close>

fun connector_handler ::
  "('v, ('v, 'z) connector_scheme) server_env \<Rightarrow> ('v, 'z) connector_scheme connector_env \<Rightarrow> handler \<Rightarrow>
   time option \<Rightarrow> ('v, 'z) connector_scheme \<Rightarrow> ('v, 'z) connector_scheme res" where
  "connector_handler senv env (On_connect f addr) t w = Connector_handleWrite env f addr w"
| "connector_handler senv env h t w = server_handler senv h t w"

section \<open>Lemmas\<close>

definition pending_connect :: "fd \<Rightarrow> chan_id \<Rightarrow> ('v, 'z) connector_scheme \<Rightarrow> bool" where
  "pending_connect f x w \<longleftrightarrow> cn_map w f = Some x \<and> PollPoller_wf (el_poller w) \<and> owns x f (el_poller w) \<and>
     pp_map (el_poller w) f = Some x \<and> removable x (el_poller w)"

definition decided :: "fd \<Rightarrow> sockaddr \<Rightarrow> bool \<Rightarrow> int \<Rightarrow> ('v, 'z) connector_scheme \<Rightarrow> ('v, 'z) connector_scheme" where
  "decided f addr success error w =
     (if success then TcpServer_setNewConnection (el_thread w) f addr w
      else w\<lparr>cn_closed := cn_closed w @ [f],
        cn_errors := (if cn_error_cb w then cn_errors w @ [(addr, error)] else cn_errors w)\<rparr>)"

lemma decided_simps [simp]:
  "el_poller (decided f addr success error w) = el_poller w" "cn_map (decided f addr success error w) = cn_map w"
  by (simp_all add: decided_def TcpServer_setNewConnection_def task_parts)

text \<open>A connect in progress is pending afterwards.\<close>

lemma connectInLoop_pending:
  assumes "PollPoller_wf (el_poller w)" "\<forall>f. pp_map (el_poller w) f \<noteq> Some (sv_fresh w)" "0 \<le> f" "pp_map (el_poller w) f = None"
    "Suc (length (pp_fds (el_poller w))) < 2 ^ 63" "cn_map w f = None" "ce_socket env w = f"
    "ce_connect env f addr (w\<lparr>sv_fresh := Suc (sv_fresh w)\<rparr>) = (-1, EINPROGRESS)"
  shows "\<exists>w'. Connector_connectInLoop env addr w = Inr w' \<and> pending_connect f (sv_fresh w) w'"
proof -
  let ?x = "sv_fresh w" and ?ch = "Channel_setWriteCallback (Handler (On_connect f addr)) (Channel_new f)"
  have "ch_fd ?ch = f" by (simp add: Channel_setWriteCallback_def Channel_new_def)
  from enable_new_channel [OF assms(1-5) this, of enable_writing] obtain q where q:
    "change_events enable_writing ?x ((el_poller w)\<lparr>pp_objs := (pp_objs (el_poller w))(?x \<mapsto> ?ch)\<rparr>) = Inr q" "PollPoller_wf q"
    "registered_at q f ?x (Channel_setIndex (length (pp_fds (el_poller w))) (?ch\<lparr>ch_events := enable_writing (ch_events ?ch)\<rparr>))"
    "pp_map q = (pp_map (el_poller w))(f \<mapsto> ?x)" "length (pp_fds q) = Suc (length (pp_fds (el_poller w)))" by blast
  let ?w' = "w\<lparr>sv_fresh := Suc ?x, cn_map := (cn_map w)(f \<mapsto> ?x), el_poller := q\<rparr>"
  have "Connector_connectInLoop env addr w = Inr ?w'"
    using assms(6-8) q(1) by (simp add: Connector_connectInLoop_def Let_def chan_op_def Channel_enableWriting_def)
  moreover have "pending_connect f ?x ?w'"
    using q(2-5) assms(3) by (auto simp: pending_connect_def owns_def removable_def registered_at_def Channel_setIndex_def)
  ultimately show ?thesis by blast
qed

lemma handleWrite_pending:
  assumes "pending_connect f x w" "ce_getsockopt env f w = (ret, error)"
  shows "\<exists>p. PollPoller_wf p \<and> pp_map p = (pp_map (el_poller w))(f := None) \<and>
    Connector_handleWrite env f addr w = Inr (decided f addr (ret \<ge> 0 \<and> error = 0) error
      (w\<lparr>cn_map := (cn_map w)(f := None), el_poller := p\<lparr>pp_objs := (pp_objs p)(x := None)\<rparr>\<rparr>))"
proof -
  obtain p where p: "PollPoller_removeChannel x (el_poller w) = Inr p" "PollPoller_wf p" "pp_map p = (pp_map (el_poller w))(f := None)"
    using remove_spec [of "el_poller w" x f] assms(1) unfolding pending_connect_def by blast
  then show ?thesis
    using assms by (intro exI [of _ p])
      (simp add: pending_connect_def Connector_handleWrite_def chan_op_def Channel_remove_def decided_def Let_def not_less)
qed

section \<open>Properties\<close>

text \<open>C19: When a pending connect is decided, the connector takes its channel out of the poller, which stays
  well-formed, and out of its own map, and destroys the channel object; a success queues the new
  connection for the server, a failure closes the descriptor and reports the address and the error
  when an error callback is set. The destroyed channel is the one whose callback is running when
  the loop calls this function, so that a round that finds the descriptor writable uses an object that is
  gone.\<close>

theorem Connector_handleWrite_outcome:
  assumes "pending_connect f x w" "ce_getsockopt env f w = (ret, error)"
  shows "(\<exists>w'. Connector_handleWrite env f addr w = Inr w' \<and> cn_map w' f = None \<and>
      pp_map (el_poller w') = (pp_map (el_poller w))(f := None) \<and> pp_objs (el_poller w') x = None \<and>
      (if ret \<ge> 0 \<and> error = 0
       then el_tasks w' = el_tasks w @ [Functor (Call_back (New_connection f addr) 0)] \<and> cn_closed w' = cn_closed w
       else el_tasks w' = el_tasks w \<and> cn_closed w' = cn_closed w @ [f] \<and>
         (cn_error_cb w \<longrightarrow> cn_errors w' = cn_errors w @ [(addr, error)]))) \<and>
    (env_call lenv = connector_handler senv env \<longrightarrow>
     pp_objs (el_poller w) x = Some ch \<longrightarrow> ch_revents ch = POLLOUT \<longrightarrow> ch_write_cb ch = Some (Handler (On_connect f addr)) \<longrightarrow>
     handle_active lenv inp t x w = Inl Null_deref)"
proof (intro conjI impI)
  obtain p where "pp_map p = (pp_map (el_poller w))(f := None)"
    "Connector_handleWrite env f addr w = Inr (decided f addr (ret \<ge> 0 \<and> error = 0) error
      (w\<lparr>cn_map := (cn_map w)(f := None), el_poller := p\<lparr>pp_objs := (pp_objs p)(x := None)\<rparr>\<rparr>))"
    using handleWrite_pending [OF assms, of addr] by blast
  then show "\<exists>w'. Connector_handleWrite env f addr w = Inr w' \<and> cn_map w' f = None \<and>
      pp_map (el_poller w') = (pp_map (el_poller w))(f := None) \<and> pp_objs (el_poller w') x = None \<and>
      (if ret \<ge> 0 \<and> error = 0
       then el_tasks w' = el_tasks w @ [Functor (Call_back (New_connection f addr) 0)] \<and> cn_closed w' = cn_closed w
       else el_tasks w' = el_tasks w \<and> cn_closed w' = cn_closed w @ [f] \<and>
         (cn_error_cb w \<longrightarrow> cn_errors w' = cn_errors w @ [(addr, error)]))"
    by (simp add: decided_def TcpServer_setNewConnection_def task_parts)
next
  assume h: "env_call lenv = connector_handler senv env" "pp_objs (el_poller w) x = Some ch" "ch_revents ch = POLLOUT"
    "ch_write_cb ch = Some (Handler (On_connect f addr))"
  let ?w = "w\<lparr>el_cur := Some x\<rparr>"
  have "pending_connect f x ?w" using assms(1) by (simp add: pending_connect_def)
  moreover obtain ret' error' where "ce_getsockopt env f ?w = (ret', error')" by fastforce
  ultimately obtain p where "Connector_handleWrite env f addr ?w = Inr (decided f addr (ret' \<ge> 0 \<and> error' = 0) error'
      (?w\<lparr>cn_map := (cn_map ?w)(f := None), el_poller := p\<lparr>pp_objs := (pp_objs p)(x := None)\<rparr>\<rparr>))"
    using handleWrite_pending by blast
  then show "handle_active lenv inp t x w = Inl Null_deref"
    using h by (simp add: handle_active_def Channel_handleChannel_def call_if_set_def loop_call_def poll_bits)
qed

text \<open>A server whose connector waits for descriptor 20.\<close>

definition example_connector :: "nat connector" where
  "example_connector = (Connector_new example_server)\<lparr>sv_started := True, sv_fresh := 6\<rparr>"

definition connector_sys :: "nat connector connector_env" where
  "connector_sys = \<lparr>ce_socket = (\<lambda>w. 20), ce_connect = (\<lambda>f a w. (-1, EINPROGRESS)), ce_getsockopt = (\<lambda>f w. (0, 111))\<rparr>"

theorem Connector_handleWrite_outcome_witness:
  "\<exists>w w'. Connector_connectInLoop connector_sys [1] example_connector = Inr w \<and> cn_map w 20 = Some 6 \<and>
    Connector_handleWrite connector_sys 20 [1] w = Inr w' \<and> cn_map w' 20 = None \<and> pp_map (el_poller w') 20 = None \<and> 20 \<in> set (cn_closed w')"
proof -
  have e: "el_poller example_connector = el_poller example_server" "sv_fresh example_connector = 6" "cn_map example_connector = Map.empty"
    by (simp_all add: example_connector_def Connector_new_def server.defs connector.defs)
  have "\<forall>f. pp_map (el_poller example_connector) f \<noteq> Some (sv_fresh example_connector)" using e by auto
  then obtain w where w: "Connector_connectInLoop connector_sys [1] example_connector = Inr w" "pending_connect 20 6 w"
    using connectInLoop_pending [of example_connector 20 connector_sys "[1]"] e example_server_wf
    by (auto simp: connector_sys_def)
  have "ce_getsockopt connector_sys 20 w = (0, 111)" by (simp add: connector_sys_def)
  from conjunct1 [OF Connector_handleWrite_outcome [OF w(2) this, of "[1]"]] w show ?thesis
    by (auto simp: pending_connect_def)
qed

end
