(* ===== verification/Task_Handoff.thy ===== *)
theory Task_Handoff
  imports Event_Loop
begin

text \<open>
  Handing tasks to an event loop from several threads: the interleavings of
  \<^verbatim>\<open>queueTaskInThread\<close> with the rounds of \<^verbatim>\<open>loop\<close> in
  \<^verbatim>\<open>bounce/event_loop.cc\<close>. A step of the system is one atomic part of one of these
  functions, and the parts are the definitions of the theory of the event loop: the insertion under
  the mutex, the test and write of the wake-up, the flag, the swap under the mutex. Shown here: tasks are run
  in the order of insertion, none lost or run twice; when the loop sleeps with a task pending and
  nobody about to wake it, the wake-up of a task inserted while tasks were running was skipped; otherwise
  the loop by itself runs all the pending tasks; and the skipped wake-up happens.
\<close>

section \<open>System\<close>

text \<open>Where the loop thread is: in \<^verbatim>\<open>poll\<close>; handling the active channels, with the
  wake-up channel still to come or not; before the swap; running the swapped tasks.\<close>

datatype 'f loop_pc = Polling | Handling bool | Swapping | Running "'f task list"

text \<open>The loop, its program counter and the threads between the insertion of a task and its wake-up.
  For the statements: the inserted and the executed tasks, and whether a wake-up was skipped after
  the last swap.\<close>

record ('f, 'h) handoff =
  ho_loop :: "('f, 'h) event_loop"
  ho_pc :: "'f loop_pc"
  ho_waking :: "nat set"
  ho_log :: "'f task list"
  ho_done :: "'f task list"
  ho_skipped :: bool

definition handoff_init :: "('f, 'h) handoff \<Rightarrow> bool" where
  "handoff_init s \<longleftrightarrow> el_tasks (ho_loop s) = [] \<and> el_counter (ho_loop s) = 0 \<and> \<not> el_doing (ho_loop s) \<and>
     ho_pc s = Polling \<and> ho_waking s = {} \<and> ho_log s = [] \<and> ho_done s = [] \<and> \<not> ho_skipped s"

text \<open>The steps the loop thread takes by itself: waking up, the wake-up callback, and the parts of
  \<^verbatim>\<open>doTheTasks\<close>.\<close>

inductive loop_step :: "('f, 'h) handoff \<Rightarrow> ('f, 'h) handoff \<Rightarrow> bool" where
  poll_wakeup: "ho_pc s = Polling \<Longrightarrow> 0 < el_counter (ho_loop s) \<Longrightarrow> loop_step s (s\<lparr>ho_pc := Handling True\<rparr>)"
| handle_weakup: "ho_pc s = Handling True \<Longrightarrow>
    loop_step s (s\<lparr>ho_pc := Handling False, ho_loop := EventLoop_weakupCallback (ho_loop s)\<rparr>)"
| start_tasks: "ho_pc s = Handling False \<Longrightarrow>
    loop_step s (s\<lparr>ho_pc := Swapping, ho_loop := begin_tasks (ho_loop s)\<rparr>)"
| take_tasks: "ho_pc s = Swapping \<Longrightarrow> swap_tasks (ho_loop s) = (tmp, l) \<Longrightarrow>
    loop_step s (s\<lparr>ho_pc := Running tmp, ho_loop := l, ho_skipped := False\<rparr>)"
| exec_task: "ho_pc s = Running (f # fs) \<Longrightarrow>
    loop_step s (s\<lparr>ho_pc := Running fs, ho_done := ho_done s @ [f]\<rparr>)"
| finish_tasks: "ho_pc s = Running [] \<Longrightarrow>
    loop_step s (s\<lparr>ho_pc := Polling, ho_loop := end_tasks (ho_loop s)\<rparr>)"

text \<open>The steps of the clients: another descriptor wakes the loop; a handler or a task on the loop
  thread queues a task; another thread inserts a task, and later finishes with the wake-up.\<close>

inductive client_step :: "('f, 'h) handoff \<Rightarrow> ('f, 'h) handoff \<Rightarrow> bool" where
  poll_other: "ho_pc s = Polling \<Longrightarrow> el_counter (ho_loop s) = 0 \<Longrightarrow> client_step s (s\<lparr>ho_pc := Handling False\<rparr>)"
| handler_queues: "ho_pc s = Handling b \<Longrightarrow>
    client_step s (s\<lparr>ho_loop := EventLoop_queueTaskInThread (el_thread (ho_loop s)) f (ho_loop s), ho_log := ho_log s @ [f]\<rparr>)"
| task_queues: "ho_pc s = Running fs \<Longrightarrow>
    client_step s (s\<lparr>ho_loop := EventLoop_queueTaskInThread (el_thread (ho_loop s)) f (ho_loop s), ho_log := ho_log s @ [f],
      ho_skipped := True\<rparr>)"
| thread_pushes: "tid \<noteq> el_thread (ho_loop s) \<Longrightarrow> tid \<notin> ho_waking s \<Longrightarrow>
    client_step s (s\<lparr>ho_loop := push_task f (ho_loop s), ho_waking := insert tid (ho_waking s), ho_log := ho_log s @ [f]\<rparr>)"
| thread_wakes: "tid \<in> ho_waking s \<Longrightarrow>
    client_step s (s\<lparr>ho_loop := wake_up tid (ho_loop s), ho_waking := ho_waking s - {tid},
      ho_skipped := (ho_skipped s \<or> (\<exists>fs. ho_pc s = Running fs) \<and> el_tasks (ho_loop s) \<noteq> [])\<rparr>)"

definition handoff_step :: "('f, 'h) handoff \<Rightarrow> ('f, 'h) handoff \<Rightarrow> bool" where
  "handoff_step s t \<longleftrightarrow> loop_step s t \<or> client_step s t"

text \<open>The loop sleeps although a task is pending, and no thread is about to wake it.\<close>

definition asleep_with_task :: "('f, 'h) handoff \<Rightarrow> bool" where
  "asleep_with_task s \<longleftrightarrow> ho_pc s = Polling \<and> el_counter (ho_loop s) = 0 \<and> el_tasks (ho_loop s) \<noteq> [] \<and> ho_waking s = {}"

fun running_tasks :: "'f loop_pc \<Rightarrow> 'f task list" where
  "running_tasks (Running fs) = fs"
| "running_tasks _ = []"

section \<open>Invariant\<close>

definition in_tasks :: "'f loop_pc \<Rightarrow> bool" where
  "in_tasks pc \<longleftrightarrow> (case pc of Swapping \<Rightarrow> True | Running _ \<Rightarrow> True | _ \<Rightarrow> False)"

definition must_signal :: "'f loop_pc \<Rightarrow> bool" where
  "must_signal pc \<longleftrightarrow> (case pc of Polling \<Rightarrow> True | Running _ \<Rightarrow> True | _ \<Rightarrow> False)"

definition handoff_inv :: "('f, 'h) handoff \<Rightarrow> bool" where
  "handoff_inv s \<longleftrightarrow>
     ho_done s @ running_tasks (ho_pc s) @ el_tasks (ho_loop s) = ho_log s \<and>
     (el_doing (ho_loop s) \<longleftrightarrow> in_tasks (ho_pc s)) \<and>
     el_thread (ho_loop s) \<notin> ho_waking s \<and>
     (must_signal (ho_pc s) \<longrightarrow> el_tasks (ho_loop s) \<noteq> [] \<longrightarrow>
        0 < el_counter (ho_loop s) \<or> ho_waking s \<noteq> {} \<or> ho_skipped s)"

lemma loop_step_inv: "loop_step s t \<Longrightarrow> handoff_inv s \<Longrightarrow> handoff_inv t"
  by (induction rule: loop_step.induct)
    (auto simp: handoff_inv_def task_parts in_tasks_def must_signal_def)

lemma client_step_inv: "client_step s t \<Longrightarrow> handoff_inv s \<Longrightarrow> handoff_inv t"
  by (induction rule: client_step.induct)
    (auto simp: handoff_inv_def task_parts in_tasks_def must_signal_def split: loop_pc.splits)

interpretation ho: invariant_system handoff_init handoff_step handoff_inv
proof unfold_locales
  fix s t :: "('a, 'b) handoff"
  show "handoff_init s \<Longrightarrow> handoff_inv s"
    by (simp add: handoff_init_def handoff_inv_def in_tasks_def)
  show "handoff_inv s \<Longrightarrow> handoff_step s t \<Longrightarrow> handoff_inv t"
    using loop_step_inv client_step_inv unfolding handoff_step_def by blast
qed

section \<open>Progress\<close>

text \<open>The loop runs out of tasks: it reaches \<^verbatim>\<open>poll\<close> with the given tasks executed, in
  order, and none left.\<close>

definition drained :: "('f, 'h) handoff \<Rightarrow> 'f task list \<Rightarrow> ('f, 'h) handoff \<Rightarrow> bool" where
  "drained s fs t \<longleftrightarrow> ho_pc t = Polling \<and> ho_done t = ho_done s @ fs \<and> el_tasks (ho_loop t) = [] \<and> ho_log t = ho_log s"

lemma run_all:
  "ho_pc s = Running fs \<Longrightarrow>
   loop_step\<^sup>*\<^sup>* s (s\<lparr>ho_pc := Polling, ho_loop := end_tasks (ho_loop s), ho_done := ho_done s @ fs\<rparr>)"
proof (induction fs arbitrary: s)
  case Nil
  then show ?case using finish_tasks [OF Nil] by auto
next
  case (Cons f fs)
  let ?s = "s\<lparr>ho_pc := Running fs, ho_done := ho_done s @ [f]\<rparr>"
  have "loop_step s ?s" using Cons.prems by (rule exec_task)
  with Cons.IH [of ?s] show ?case by (simp add: converse_rtranclp_into_rtranclp)
qed

lemma drain_after:
  assumes "loop_step\<^sup>*\<^sup>* s u" "\<exists>t. loop_step\<^sup>*\<^sup>* u t \<and> drained u gs t"
    and "ho_done u @ gs = ho_done s @ fs" "ho_log u = ho_log s"
  shows "\<exists>t. loop_step\<^sup>*\<^sup>* s t \<and> drained s fs t"
proof -
  obtain t where "loop_step\<^sup>*\<^sup>* u t" "drained u gs t" using assms(2) by blast
  then have "loop_step\<^sup>*\<^sup>* s t \<and> drained s fs t" using assms(1,3,4) by (simp add: drained_def)
  then show ?thesis by blast
qed

lemma drain_swapping:
  assumes "ho_pc s = Swapping"
  shows "\<exists>t. loop_step\<^sup>*\<^sup>* s t \<and> drained s (el_tasks (ho_loop s)) t"
proof (rule drain_after)
  let ?s = "s\<lparr>ho_pc := Running (el_tasks (ho_loop s)), ho_loop := (ho_loop s)\<lparr>el_tasks := []\<rparr>, ho_skipped := False\<rparr>"
  let ?t = "?s\<lparr>ho_pc := Polling, ho_loop := end_tasks (ho_loop ?s), ho_done := ho_done ?s @ el_tasks (ho_loop s)\<rparr>"
  have "loop_step s ?s" using take_tasks [OF assms] by (simp add: swap_tasks_def)
  also have "loop_step\<^sup>*\<^sup>* ?s ?t" by (rule run_all) simp
  finally show "loop_step\<^sup>*\<^sup>* s ?t" .
  show "\<exists>t. loop_step\<^sup>*\<^sup>* ?t t \<and> drained ?t [] t" by (rule exI [of _ ?t]) (simp add: drained_def end_tasks_def)
qed simp_all

lemma drain_handled:
  assumes "ho_pc s = Handling False"
  shows "\<exists>t. loop_step\<^sup>*\<^sup>* s t \<and> drained s (el_tasks (ho_loop s)) t"
proof (rule drain_after)
  let ?s = "s\<lparr>ho_pc := Swapping, ho_loop := begin_tasks (ho_loop s)\<rparr>"
  show "loop_step\<^sup>*\<^sup>* s ?s" using start_tasks [OF assms] by blast
  show "\<exists>t. loop_step\<^sup>*\<^sup>* ?s t \<and> drained ?s (el_tasks (ho_loop ?s)) t" by (rule drain_swapping) simp
qed (simp_all add: begin_tasks_def)

lemma drain_handling:
  assumes "ho_pc s = Handling b"
  shows "\<exists>t. loop_step\<^sup>*\<^sup>* s t \<and> drained s (el_tasks (ho_loop s)) t"
proof (cases b)
  case True
  show ?thesis
  proof (rule drain_after)
    let ?s = "s\<lparr>ho_pc := Handling False, ho_loop := EventLoop_weakupCallback (ho_loop s)\<rparr>"
    show "loop_step\<^sup>*\<^sup>* s ?s" using handle_weakup [of s] assms True by (simp add: r_into_rtranclp)
    show "\<exists>t. loop_step\<^sup>*\<^sup>* ?s t \<and> drained ?s (el_tasks (ho_loop ?s)) t" by (rule drain_handled) simp
  qed (simp_all add: EventLoop_weakupCallback_def)
qed (use drain_handled assms in simp)

lemma drain_polling:
  assumes "ho_pc s = Polling" "el_tasks (ho_loop s) \<noteq> [] \<Longrightarrow> 0 < el_counter (ho_loop s)"
  shows "\<exists>t. loop_step\<^sup>*\<^sup>* s t \<and> drained s (el_tasks (ho_loop s)) t"
proof (cases "el_tasks (ho_loop s) = []")
  case True
  then show ?thesis using assms(1) by (auto simp: drained_def)
next
  case False
  show ?thesis
  proof (rule drain_after)
    let ?s = "s\<lparr>ho_pc := Handling True\<rparr>"
    show "loop_step\<^sup>*\<^sup>* s ?s" using poll_wakeup [of s] assms False by (simp add: r_into_rtranclp)
    show "\<exists>t. loop_step\<^sup>*\<^sup>* ?s t \<and> drained ?s (el_tasks (ho_loop ?s)) t" by (rule drain_handling) simp
  qed simp_all
qed

lemma drain_all:
  assumes inv: "handoff_inv s" and idle: "ho_waking s = {}" "\<not> ho_skipped s"
  shows "\<exists>t. loop_step\<^sup>*\<^sup>* s t \<and> drained s (running_tasks (ho_pc s) @ el_tasks (ho_loop s)) t"
proof (cases "ho_pc s")
  case Polling
  moreover have "el_tasks (ho_loop s) \<noteq> [] \<Longrightarrow> 0 < el_counter (ho_loop s)"
    using inv idle Polling by (simp add: handoff_inv_def must_signal_def)
  ultimately show ?thesis using drain_polling [of s] by simp
next
  case (Running fs)
  let ?u = "s\<lparr>ho_pc := Polling, ho_loop := end_tasks (ho_loop s), ho_done := ho_done s @ fs\<rparr>"
  show ?thesis
  proof (rule drain_after)
    show "loop_step\<^sup>*\<^sup>* s ?u" using Running by (rule run_all)
    have "el_tasks (ho_loop ?u) \<noteq> [] \<Longrightarrow> 0 < el_counter (ho_loop ?u)"
      using inv idle Running by (simp add: handoff_inv_def must_signal_def end_tasks_def)
    then show "\<exists>t. loop_step\<^sup>*\<^sup>* ?u t \<and> drained ?u (el_tasks (ho_loop ?u)) t"
      by (intro drain_polling) simp_all
  qed (use Running in \<open>simp_all add: end_tasks_def\<close>)
qed (use drain_handling drain_swapping in auto)

section \<open>Examples\<close>

text \<open>The states of a run of the loop of the example: thread 8 queues a first task; the loop wakes up,
  takes it, and while it runs it thread 8 queues a second one.\<close>

definition handoff_at :: "nat task list \<Rightarrow> nat \<Rightarrow> bool \<Rightarrow> nat loop_pc \<Rightarrow> nat set \<Rightarrow> nat task list \<Rightarrow> nat task list \<Rightarrow> bool \<Rightarrow>
    (nat, nat) handoff" where
  "handoff_at tasks n doing pc waking log dn skipped =
     \<lparr>ho_loop = example_loop\<lparr>el_doing := doing, el_tasks := tasks, el_counter := n\<rparr>, ho_pc = pc, ho_waking = waking,
      ho_log = log, ho_done = dn, ho_skipped = skipped\<rparr>"

lemma example_loop_fields [simp]:
  "el_tasks example_loop = []" "el_counter example_loop = 0" "el_thread example_loop = 7" "\<not> el_doing example_loop"
  by (simp_all add: example_loop_def)

lemmas handoff_run_simps = handoff_at_def task_parts example_loop_def new_loop_defs Let_def

lemma handoff_reach:
  assumes "reachable handoff_init handoff_step s" "loop_step s t \<or> client_step s t"
  shows "reachable handoff_init handoff_step t"
  using reachable_step [OF assms(1)] assms(2) unfolding handoff_step_def by blast

lemma handoff_queued:
  "reachable handoff_init handoff_step (handoff_at [Functor 1] 1 False Polling {} [Functor 1] [] False)"
proof -
  have "reachable handoff_init handoff_step (handoff_at [] 0 False Polling {} [] [] False)"
    by (rule reachable_init) (simp add: handoff_init_def handoff_at_def)
  moreover have "client_step (handoff_at [] 0 False Polling {} [] [] False)
      (handoff_at [Functor 1] 0 False Polling {8} [Functor 1] [] False)"
    using thread_pushes [of 8 "handoff_at [] 0 False Polling {} [] [] False" "Functor 1"] by (simp add: handoff_run_simps)
  ultimately have "reachable handoff_init handoff_step (handoff_at [Functor 1] 0 False Polling {8} [Functor 1] [] False)"
    by (blast intro: handoff_reach)
  moreover have "client_step (handoff_at [Functor 1] 0 False Polling {8} [Functor 1] [] False)
      (handoff_at [Functor 1] 1 False Polling {} [Functor 1] [] False)"
    using thread_wakes [of 8 "handoff_at [Functor 1] 0 False Polling {8} [Functor 1] [] False"] by (simp add: handoff_run_simps)
  ultimately show ?thesis by (blast intro: handoff_reach)
qed

lemma handoff_running:
  "reachable handoff_init handoff_step (handoff_at [] 0 True (Running [Functor 1]) {} [Functor 1] [] False)"
proof -
  note handoff_queued
  moreover have "loop_step (handoff_at [Functor 1] 1 False Polling {} [Functor 1] [] False)
      (handoff_at [Functor 1] 1 False (Handling True) {} [Functor 1] [] False)"
    using poll_wakeup [of "handoff_at [Functor 1] 1 False Polling {} [Functor 1] [] False"] by (simp add: handoff_run_simps)
  ultimately have "reachable handoff_init handoff_step (handoff_at [Functor 1] 1 False (Handling True) {} [Functor 1] [] False)"
    by (blast intro: handoff_reach)
  moreover have "loop_step (handoff_at [Functor 1] 1 False (Handling True) {} [Functor 1] [] False)
      (handoff_at [Functor 1] 0 False (Handling False) {} [Functor 1] [] False)"
    using handle_weakup [of "handoff_at [Functor 1] 1 False (Handling True) {} [Functor 1] [] False"] by (simp add: handoff_run_simps)
  ultimately have "reachable handoff_init handoff_step (handoff_at [Functor 1] 0 False (Handling False) {} [Functor 1] [] False)"
    by (blast intro: handoff_reach)
  moreover have "loop_step (handoff_at [Functor 1] 0 False (Handling False) {} [Functor 1] [] False)
      (handoff_at [Functor 1] 0 True Swapping {} [Functor 1] [] False)"
    using start_tasks [of "handoff_at [Functor 1] 0 False (Handling False) {} [Functor 1] [] False"] by (simp add: handoff_run_simps)
  ultimately have "reachable handoff_init handoff_step (handoff_at [Functor 1] 0 True Swapping {} [Functor 1] [] False)"
    by (blast intro: handoff_reach)
  moreover have "loop_step (handoff_at [Functor 1] 0 True Swapping {} [Functor 1] [] False)
      (handoff_at [] 0 True (Running [Functor 1]) {} [Functor 1] [] False)"
    using take_tasks [of "handoff_at [Functor 1] 0 True Swapping {} [Functor 1] [] False"] by (simp add: handoff_run_simps)
  ultimately show ?thesis by (blast intro: handoff_reach)
qed

lemma handoff_left_behind:
  "reachable handoff_init handoff_step (handoff_at [Functor 2] 0 False Polling {} [Functor 1, Functor 2] [Functor 1] True)"
proof -
  note handoff_running
  moreover have "client_step (handoff_at [] 0 True (Running [Functor 1]) {} [Functor 1] [] False)
      (handoff_at [Functor 2] 0 True (Running [Functor 1]) {8} [Functor 1, Functor 2] [] False)"
    using thread_pushes [of 8 "handoff_at [] 0 True (Running [Functor 1]) {} [Functor 1] [] False" "Functor 2"] by (simp add: handoff_run_simps)
  ultimately have "reachable handoff_init handoff_step (handoff_at [Functor 2] 0 True (Running [Functor 1]) {8} [Functor 1, Functor 2] [] False)"
    by (blast intro: handoff_reach)
  moreover have "client_step (handoff_at [Functor 2] 0 True (Running [Functor 1]) {8} [Functor 1, Functor 2] [] False)
      (handoff_at [Functor 2] 0 True (Running [Functor 1]) {} [Functor 1, Functor 2] [] True)"
    using thread_wakes [of 8 "handoff_at [Functor 2] 0 True (Running [Functor 1]) {8} [Functor 1, Functor 2] [] False"] by (simp add: handoff_run_simps)
  ultimately have "reachable handoff_init handoff_step (handoff_at [Functor 2] 0 True (Running [Functor 1]) {} [Functor 1, Functor 2] [] True)"
    by (blast intro: handoff_reach)
  moreover have "loop_step (handoff_at [Functor 2] 0 True (Running [Functor 1]) {} [Functor 1, Functor 2] [] True)
      (handoff_at [Functor 2] 0 True (Running []) {} [Functor 1, Functor 2] [Functor 1] True)"
    using exec_task [of "handoff_at [Functor 2] 0 True (Running [Functor 1]) {} [Functor 1, Functor 2] [] True"] by (simp add: handoff_run_simps)
  ultimately have "reachable handoff_init handoff_step (handoff_at [Functor 2] 0 True (Running []) {} [Functor 1, Functor 2] [Functor 1] True)"
    by (blast intro: handoff_reach)
  moreover have "loop_step (handoff_at [Functor 2] 0 True (Running []) {} [Functor 1, Functor 2] [Functor 1] True)
      (handoff_at [Functor 2] 0 False Polling {} [Functor 1, Functor 2] [Functor 1] True)"
    using finish_tasks [of "handoff_at [Functor 2] 0 True (Running []) {} [Functor 1, Functor 2] [Functor 1] True"] by (simp add: handoff_run_simps)
  ultimately show ?thesis by (blast intro: handoff_reach)
qed

section \<open>Properties\<close>

text \<open>C5: In every interleaving of threads that queue tasks with the rounds of the loop, the executed
  tasks, those being run and those still in the vector are, in this order, exactly the inserted
  tasks in the order of insertion: no task is lost, run twice or overtaken. While
  no wake-up was skipped after the last swap, the loop never sleeps with a task pending that nobody
  is about to announce.\<close>

theorem handoff_fifo:
  assumes "reachable handoff_init handoff_step s"
  shows "ho_done s @ running_tasks (ho_pc s) @ el_tasks (ho_loop s) = ho_log s \<and>
    (\<not> ho_skipped s \<longrightarrow> \<not> asleep_with_task s)"
  using ho.reachable_inv [OF assms] by (auto simp: handoff_inv_def asleep_with_task_def must_signal_def)

theorem handoff_fifo_witness:
  "ho_done (handoff_at [Functor 2] 0 False Polling {} [Functor 1, Functor 2] [Functor 1] True) @ [Functor 2] =
     [Functor 1, Functor 2] \<and>
   \<not> asleep_with_task (handoff_at [Functor 1] 1 False Polling {} [Functor 1] [] False)"
  using handoff_fifo [OF handoff_left_behind] handoff_fifo [OF handoff_queued] by (simp add: handoff_at_def)

text \<open>C10: From every reachable state in which no thread is between insertion and wake-up and no wake-up
  was skipped after the last swap, the loop thread by itself gets to executing every inserted task:
  it ends up in \<^verbatim>\<open>poll\<close> with the vector empty and the executed tasks equal to the inserted
  ones.\<close>

theorem handoff_progress:
  assumes "reachable handoff_init handoff_step s" "ho_waking s = {}" "\<not> ho_skipped s"
  shows "\<exists>t. loop_step\<^sup>*\<^sup>* s t \<and> ho_pc t = Polling \<and> el_tasks (ho_loop t) = [] \<and>
    ho_log t = ho_log s \<and> ho_done t = ho_log s"
proof -
  have inv: "handoff_inv s" using assms(1) by (rule ho.reachable_inv)
  obtain t where "loop_step\<^sup>*\<^sup>* s t" "drained s (running_tasks (ho_pc s) @ el_tasks (ho_loop s)) t"
    using drain_all [OF inv assms(2,3)] by blast
  then show ?thesis using inv by (auto simp: drained_def handoff_inv_def)
qed

theorem handoff_progress_witness:
  "\<exists>t. loop_step\<^sup>*\<^sup>* (handoff_at [Functor 1] 1 False Polling {} [Functor 1] [] False) t \<and> ho_done t = [Functor 1]"
  using handoff_progress [OF handoff_queued] by (auto simp: handoff_at_def)

text \<open>The loop can be left asleep with a task pending: a task inserted by another thread while the
  loop runs the tasks it has taken is not announced, since the flag is still set when that thread
  tests it, and is not taken either. After that no step of the loop thread is possible until some
  other event arrives.\<close>

theorem handoff_lost_wakeup:
  "\<exists>s :: (nat, nat) handoff. reachable handoff_init handoff_step s \<and> asleep_with_task s \<and>
     ho_log s = [Functor 1, Functor 2] \<and> ho_done s = [Functor 1] \<and> \<not> (\<exists>t. loop_step s t)"
proof -
  let ?s = "handoff_at [Functor 2] 0 False Polling {} [Functor 1, Functor 2] [Functor 1] True"
  have "\<not> loop_step ?s t" for t by (auto simp: handoff_at_def elim: loop_step.cases)
  then show ?thesis using handoff_left_behind by (intro exI [of _ ?s]) (simp add: asleep_with_task_def handoff_at_def)
qed

end
