(* ===== verification/Fmt_Integer.thy ===== *)
theory Fmt_Integer
  imports Bounce_Prelude
begin

text \<open>
  The conversion of integers to text in the formatting library under
  \<^verbatim>\<open>src/deps/spdlog/fmt/bundled\<close> (\<^verbatim>\<open>format.h\<close>, \<^verbatim>\<open>format-inl.h\<close>): the
  tables, the counting of digits, decimal conversion two digits at a time with and
  without separators, conversion to bases that are powers of two, and the class
  \<^verbatim>\<open>format_int\<close>. Text is written backwards through a pointer into a fixed array; the array and the
  pointer are explicit here, and a write outside of the array is an error.

  The lemmas relate every routine to the plain decimal (or base \<open>2 ^ k\<close>) representation of a number,
  and show that no routine writes outside of its array.
\<close>

unbundle bit_operations_syntax

section \<open>Reference representation of numbers\<close>

named_theorems text_simps \<open>texts of numbers\<close>

definition digit_char :: "nat \<Rightarrow> char" where
  "digit_char d = char_of (48 + d)"

text \<open>The digits of a number in a base, most significant first; the number zero has one digit.\<close>

function base_digits :: "nat \<Rightarrow> nat \<Rightarrow> nat list" where
  "base_digits b n =
     (if b < 2 \<or> n < b then [n] else base_digits b (n div b) @ [n mod b])"
  by pat_completeness auto
termination
  by (relation "measure snd") (auto simp: div_less_dividend)

declare base_digits.simps [simp del]

definition decimal :: "nat \<Rightarrow> string" where
  "decimal n = map digit_char (base_digits 10 n)"

definition signed_decimal :: "int \<Rightarrow> string" where
  "signed_decimal i = (if i < 0 then CHR ''-'' # decimal (nat (- i)) else decimal (nat i))"

text \<open>Reading digits back.\<close>

definition digits_value :: "nat \<Rightarrow> nat list \<Rightarrow> nat" where
  "digits_value b ds = foldl (\<lambda>v d. v * b + d) 0 ds"

definition decimal_value :: "string \<Rightarrow> nat" where
  "decimal_value s = digits_value 10 (map (\<lambda>c. of_char c - 48) s)"

section \<open>Tables\<close>

definition DIGITS :: string where
  "DIGITS =
     ''0001020304050607080910111213141516171819'' @
     ''2021222324252627282930313233343536373839'' @
     ''4041424344454647484950515253545556575859'' @
     ''6061626364656667686970717273747576777879'' @
     ''8081828384858687888990919293949596979899''"

definition FMT_POWERS_OF_10 :: "nat \<Rightarrow> nat list" where
  "FMT_POWERS_OF_10 factor =
     [factor * 10, factor * 100, factor * 1000, factor * 10000, factor * 100000,
      factor * 1000000, factor * 10000000, factor * 100000000, factor * 1000000000]"

definition ZERO_OR_POWERS_OF_10_32 :: "nat list" where
  "ZERO_OR_POWERS_OF_10_32 = 0 # FMT_POWERS_OF_10 1"

definition ZERO_OR_POWERS_OF_10_64 :: "nat list" where
  "ZERO_OR_POWERS_OF_10_64 =
     0 # FMT_POWERS_OF_10 1 @ FMT_POWERS_OF_10 1000000000 @ [10000000000000000000]"

section \<open>Counting digits\<close>

text \<open>The compiler's count of leading zeros of a nonzero number of \<open>w\<close> bits.\<close>

fun bit_length :: "nat \<Rightarrow> nat" where
  "bit_length n = (if n = 0 then 0 else Suc (bit_length (n div 2)))"

declare bit_length.simps [simp del]

definition builtin_clz :: "nat \<Rightarrow> nat \<Rightarrow> nat" where
  "builtin_clz w n = w - bit_length n"

definition count_digits64 :: "nat \<Rightarrow> nat" where
  "count_digits64 n =
     (let t = drop_bit 12 ((64 - builtin_clz 64 (n OR 1)) * 1233)
      in t - (if n < ZERO_OR_POWERS_OF_10_64 ! t then 1 else 0) + 1)"

definition count_digits32 :: "nat \<Rightarrow> nat" where
  "count_digits32 n =
     (let t = drop_bit 12 ((32 - builtin_clz 32 (n OR 1)) * 1233)
      in t - (if n < ZERO_OR_POWERS_OF_10_32 ! t then 1 else 0) + 1)"

text \<open>The version for compilers without that builtin.\<close>

fun count_digits_loop :: "nat \<Rightarrow> nat \<Rightarrow> nat" where
  "count_digits_loop n count =
     (if n < 10 then count
      else if n < 100 then count + 1
      else if n < 1000 then count + 2
      else if n < 10000 then count + 3
      else count_digits_loop (n div 10000) (count + 4))"

declare count_digits_loop.simps [simp del]

definition count_digits_fallback :: "nat \<Rightarrow> nat" where
  "count_digits_fallback n = count_digits_loop n 1"

lemma drop_bit_less: "0 < bits \<Longrightarrow> drop_bit bits n \<noteq> 0 \<Longrightarrow> drop_bit bits n < (n :: nat)"
  by (cases "n = 0") (auto simp: drop_bit_eq_div intro!: div_less_dividend one_less_power)

text \<open>\<^verbatim>\<open>int_writer::count_digits<BITS>\<close>\<close>

function count_digits_base :: "nat \<Rightarrow> nat \<Rightarrow> nat" where
  "count_digits_base bits n =
     (if bits = 0 \<or> drop_bit bits n = 0 then 1 else Suc (count_digits_base bits (drop_bit bits n)))"
  by pat_completeness auto
termination
  by (relation "measure snd") (auto intro: drop_bit_less)

declare count_digits_base.simps [simp del]

section \<open>Writing backwards\<close>

text \<open>
  An array with the pointer into it, and \<^verbatim>\<open>*--ptr = c\<close>. Only the part from the pointer to the
  end has been written.
\<close>

type_synonym back_buf = "string \<times> nat"

definition put_back :: "char \<Rightarrow> back_buf \<Rightarrow> back_buf res" where
  "put_back c s = (case s of (buf, p) \<Rightarrow>
     if p = 0 \<or> length buf < p then Inl Out_of_bounds else Inr (buf[p - 1 := c], p - 1))"

text \<open>
  The functor that is called after each digit: none, or a separator after every third digit (the counter
  is its state).
\<close>

datatype thousands_sep = No_sep | Sep string nat

fun thousands_sep_call :: "thousands_sep \<Rightarrow> back_buf \<Rightarrow> (thousands_sep \<times> back_buf) res" where
  "thousands_sep_call No_sep b = Inr (No_sep, b)"
| "thousands_sep_call (Sep sep i) (buf, p) =
     (if Suc i mod 3 \<noteq> 0 then Inr (Sep sep (Suc i), (buf, p))
      else if p < length sep \<or> length buf < p then Inl Out_of_bounds
      else Inr (Sep sep (Suc i), (copy_into buf (p - length sep) sep, p - length sep)))"

definition put_sep :: "char \<Rightarrow> thousands_sep \<times> back_buf \<Rightarrow> (thousands_sep \<times> back_buf) res" where
  "put_sep c = (\<lambda>(ts, b). res_bind (put_back c b) (thousands_sep_call ts))"

fun format_decimal_loop ::
  "nat \<Rightarrow> thousands_sep \<times> back_buf \<Rightarrow> (thousands_sep \<times> back_buf) res" where
  "format_decimal_loop value s =
     (if value \<ge> 100 then
        let index = (value mod 100) * 2 in
        res_bind (put_sep (DIGITS ! (index + 1)) s) (\<lambda>s.
        res_bind (put_sep (DIGITS ! index) s) (\<lambda>s.
        format_decimal_loop (value div 100) s))
      else if value < 10 then
        res_bind (put_back (digit_char value) (snd s)) (\<lambda>b. Inr (fst s, b))
      else
        let index = value * 2 in
        res_bind (put_sep (DIGITS ! (index + 1)) s) (\<lambda>s.
        res_bind (put_back (DIGITS ! index) (snd s)) (\<lambda>b. Inr (fst s, b))))"

declare format_decimal_loop.simps [simp del]

text \<open>
  \<^verbatim>\<open>format_decimal(buffer, value, num_digits, sep)\<close> writes the \<open>num_digits\<close> characters before
  the end that it returns. The overload for iterators has an array of \<^verbatim>\<open>digits10 + 2\<close> characters
  (21 for 64 bits, 11 for 32 bits), uninitialised, and copies the first \<open>num_digits\<close> of them.
\<close>

definition format_decimal_buf :: "string \<Rightarrow> nat \<Rightarrow> nat \<Rightarrow> thousands_sep \<Rightarrow> string res" where
  "format_decimal_buf buffer value num_digits ts =
     res_bind (format_decimal_loop value (ts, (buffer, num_digits))) (\<lambda>s. Inr (fst (snd s)))"

definition digits10 :: "nat \<Rightarrow> nat" where
  "digits10 w = (if w = 32 then 9 else 19)"

definition copy_n :: "string \<Rightarrow> nat \<Rightarrow> string res" where
  "copy_n buf n = (if length buf < n then Inl Out_of_bounds else Inr (take n buf))"

definition format_decimal_out ::
  "nat \<Rightarrow> string \<Rightarrow> nat \<Rightarrow> nat \<Rightarrow> thousands_sep \<Rightarrow> string res" where
  "format_decimal_out w garbage value num_digits ts =
     res_bind (format_decimal_buf (take (digits10 w + 2) garbage) value num_digits ts)
       (\<lambda>buffer. copy_n buffer num_digits)"

function format_uint_loop :: "nat \<Rightarrow> bool \<Rightarrow> nat \<Rightarrow> back_buf \<Rightarrow> back_buf res" where
  "format_uint_loop base_bits upper value s =
     (let digits = (if upper then ''0123456789ABCDEF'' else ''0123456789abcdef'');
          digit = value AND (2 ^ base_bits - 1)
      in res_bind (put_back (if base_bits < 4 then digit_char digit else digits ! digit) s) (\<lambda>s.
         if base_bits = 0 \<or> drop_bit base_bits value = 0 then Inr s
         else format_uint_loop base_bits upper (drop_bit base_bits value) s))"
  by pat_completeness auto
termination
  by (relation "measure (\<lambda>(b, u, v, s). v)") (auto intro: drop_bit_less)

declare format_uint_loop.simps [simp del]

definition format_uint_buf :: "nat \<Rightarrow> string \<Rightarrow> nat \<Rightarrow> nat \<Rightarrow> bool \<Rightarrow> string res" where
  "format_uint_buf base_bits buffer value num_digits upper =
     res_bind (format_uint_loop base_bits upper value (buffer, num_digits)) (\<lambda>s. Inr (fst s))"

definition format_uint_out :: "nat \<Rightarrow> nat \<Rightarrow> string \<Rightarrow> nat \<Rightarrow> nat \<Rightarrow> bool \<Rightarrow> string res" where
  "format_uint_out w base_bits garbage value num_digits upper =
     res_bind (format_uint_buf base_bits (take (w div base_bits + 2) garbage) value num_digits upper)
       (\<lambda>buffer. copy_n buffer num_digits)"

section \<open>The class \<^verbatim>\<open>format_int\<close>\<close>

record format_int =
  fi_buffer :: string
  fi_str :: nat

definition BUFFER_SIZE :: nat where
  "BUFFER_SIZE = 19 + 3"

definition format_int_format_decimal :: "string \<Rightarrow> nat \<Rightarrow> back_buf res" where
  "format_int_format_decimal buffer value =
     res_bind (format_decimal_loop value (No_sep, (buffer, BUFFER_SIZE - 1))) (\<lambda>s. Inr (snd s))"

definition format_int_format_signed :: "string \<Rightarrow> int \<Rightarrow> back_buf res" where
  "format_int_format_signed buffer value =
     (let abs_value = to_size value;
          negative = value < 0;
          abs_value = (if negative then sz_sub 0 abs_value else abs_value)
      in res_bind (format_int_format_decimal buffer abs_value) (\<lambda>s.
         if negative then put_back (CHR ''-'') s else Inr s))"

definition format_int_of :: "back_buf res \<Rightarrow> format_int res" where
  "format_int_of r = res_bind r (\<lambda>(buf, p). Inr \<lparr>fi_buffer = buf, fi_str = p\<rparr>)"

definition format_int_signed :: "string \<Rightarrow> int \<Rightarrow> format_int res" where
  "format_int_signed garbage value = format_int_of (format_int_format_signed garbage value)"

definition format_int_unsigned :: "string \<Rightarrow> nat \<Rightarrow> format_int res" where
  "format_int_unsigned garbage value = format_int_of (format_int_format_decimal garbage value)"

definition format_int_size :: "format_int \<Rightarrow> nat" where
  "format_int_size i = to_size (int 0 - int (fi_str i) + int BUFFER_SIZE - 1)"

text \<open>The text from \<^verbatim>\<open>data()\<close>, \<^verbatim>\<open>size()\<close> characters long.\<close>

definition format_int_str :: "format_int \<Rightarrow> string" where
  "format_int_str i = take (format_int_size i) (drop (fi_str i) (fi_buffer i))"

section \<open>Facts on the reference representation\<close>

lemma base_digits_small [text_simps]: "n < b \<Longrightarrow> base_digits b n = [n]"
  by (simp add: base_digits.simps)

lemma base_digits_step [text_simps]:
  "2 \<le> b \<Longrightarrow> b \<le> n \<Longrightarrow> base_digits b n = base_digits b (n div b) @ [n mod b]"
  by (subst base_digits.simps) auto

lemma base_digits_not_Nil [simp]: "base_digits b n \<noteq> []"
  by (subst base_digits.simps) auto

lemma digits_value_append [simp]:
  "digits_value b (xs @ [d]) = digits_value b xs * b + d"
  by (simp add: digits_value_def)

lemma digits_value_base_digits:
  assumes "2 \<le> b"
  shows "digits_value b (base_digits b n) = n"
  using assms
proof (induction b n rule: base_digits.induct)
  case (1 b n)
  then show ?case
    by (cases "n < b") (simp_all add: text_simps digits_value_def [of _ "[_]"])
qed

lemma base_digits_less: "2 \<le> b \<Longrightarrow> d \<in> set (base_digits b n) \<Longrightarrow> d < b"
proof (induction b n rule: base_digits.induct)
  case (1 b n)
  then show ?case by (cases "n < b") (auto simp: text_simps)
qed

lemma of_char_digit_char [simp]: "d < 10 \<Longrightarrow> of_char (digit_char d) = (48 + d :: nat)"
  by (simp add: digit_char_def of_char_of)

lemma length_decimal_pos [simp]: "0 < length (decimal n)" and decimal_not_Nil [simp]: "decimal n \<noteq> []"
  by (simp_all add: decimal_def)

lemma decimal_small [text_simps]: "n < 10 \<Longrightarrow> decimal n = [digit_char n]"
  by (simp add: decimal_def text_simps)

lemma decimal_step [text_simps]:
  "10 \<le> n \<Longrightarrow> decimal n = decimal (n div 10) @ [digit_char (n mod 10)]"
  by (simp add: decimal_def text_simps)

lemma decimal_value_decimal: "decimal_value (decimal n) = n"
proof -
  have "map (\<lambda>c. of_char c - 48) (decimal n) = base_digits 10 n"
    unfolding decimal_def map_map by (rule map_idI) (use base_digits_less [of 10 _ n] in auto)
  then show ?thesis by (simp add: decimal_value_def digits_value_base_digits)
qed

lemma decimal_digits: "c \<in> set (decimal n) \<Longrightarrow> \<exists>d < 10. c = digit_char d"
  using base_digits_less [of 10 _ n] by (auto simp: decimal_def)

text \<open>Bounds on the number of digits.\<close>

lemma length_decimal_le: "n < 10 ^ k \<Longrightarrow> 0 < k \<Longrightarrow> length (decimal n) \<le> k"
proof (induction k arbitrary: n)
  case (Suc k)
  show ?case
  proof (cases "n < 10")
    case False
    then have "0 < k" using Suc.prems by (cases k) auto
    with False Suc.IH [of "n div 10"] Suc.prems show ?thesis by (simp add: text_simps)
  qed (simp add: text_simps)
qed simp

lemma length_decimal_ge: "10 ^ k \<le> n \<Longrightarrow> k < length (decimal n)"
proof (induction k arbitrary: n)
  case (Suc k)
  then have "10 \<le> n" by (metis order_trans power_Suc2 mult_le_mono1 one_le_numeral one_le_power mult_1 le_trans)
  moreover have "10 ^ k \<le> n div 10" using Suc.prems by (simp add: less_eq_div_iff_mult_less_eq mult.commute)
  ultimately show ?case using Suc.IH by (simp add: text_simps)
qed simp

lemma length_decimal_eq: "10 ^ k \<le> n \<Longrightarrow> n < 10 ^ Suc k \<Longrightarrow> length (decimal n) = Suc k"
  using length_decimal_ge [of k n] length_decimal_le [of n "Suc k"] by simp

section \<open>Counting digits is exact\<close>

lemma bit_length_0 [simp]: "bit_length 0 = 0"
  by (simp add: bit_length.simps)

lemma bit_length_bounds: "0 < n \<Longrightarrow> 2 ^ (bit_length n - 1) \<le> n \<and> n < 2 ^ bit_length n \<and> 0 < bit_length n"
proof (induction n rule: bit_length.induct)
  case (1 n)
  show ?case
  proof (cases "n div 2 = 0")
    case True
    with 1 have "n = 1" by auto
    then show ?thesis by (simp add: bit_length.simps [of "Suc 0"])
  next
    case False
    with 1 have IH: "2 ^ (bit_length (n div 2) - 1) \<le> n div 2" "n div 2 < 2 ^ bit_length (n div 2)"
      "0 < bit_length (n div 2)" by auto
    obtain k where k: "bit_length (n div 2) = Suc k" using IH(3) gr0_implies_Suc by blast
    have bn: "bit_length n = Suc (Suc k)" using 1(2) k by (simp add: bit_length.simps [of n])
    show ?thesis using IH unfolding bn k by auto
  qed
qed

lemma bit_length_le: "n < 2 ^ w \<Longrightarrow> bit_length n \<le> w"
proof (cases "n = 0")
  case False
  assume "n < 2 ^ w"
  with bit_length_bounds [of n] False have "(2 :: nat) ^ (bit_length n - 1) < 2 ^ w" by linarith
  then have "bit_length n - 1 < w" by simp
  with bit_length_bounds [of n] False show ?thesis by linarith
qed simp

lemma bit_length_or_1 [simp]: "bit_length (n OR Suc 0) = (if n = 0 then 1 else bit_length n)"
proof -
  have d: "(n OR Suc 0) div 2 = n div 2" by (simp flip: drop_bit_Suc add: drop_bit_or drop_bit_half [symmetric] drop_bit_eq_div [of 1, simplified, symmetric])
  have "n OR Suc 0 \<noteq> 0" by (simp add: or_eq_0_iff)
  then have "bit_length (n OR Suc 0) = Suc (bit_length (n div 2))" using d by (simp add: bit_length.simps [of "n OR Suc 0"])
  then show ?thesis by (simp add: bit_length.simps [of n])
qed

text \<open>The facts on the factor 1233 / 4096, an approximation of the decimal logarithm of two.\<close>

lemma log_table:
  "\<forall>b \<in> set (1 # [2..<65]). let t = b * 1233 div 4096 in
     (t = 0 \<or> (10 :: nat) ^ (t - 1) \<le> 2 ^ (b - 1)) \<and> (2 :: nat) ^ b \<le> 10 ^ (t + 1) \<and> t < 20"
  by simp

lemma log_table_at:
  assumes "1 \<le> b" "b \<le> 64"
  defines "t \<equiv> b * 1233 div 4096"
  shows "t = 0 \<or> (10 :: nat) ^ (t - 1) \<le> 2 ^ (b - 1)" "(2 :: nat) ^ b \<le> 10 ^ (t + 1)" "t < 20"
proof -
  have "b \<in> set (1 # [2..<65])"
    using assms unfolding list.set(2) set_upt insert_iff atLeastLessThan_iff by linarith
  from bspec [OF log_table this]
  show "t = 0 \<or> (10 :: nat) ^ (t - 1) \<le> 2 ^ (b - 1)" "(2 :: nat) ^ b \<le> 10 ^ (t + 1)" "t < 20"
    unfolding t_def Let_def by blast+
qed

lemma powers_table_64:
  "\<forall>t \<in> set (0 # 1 # [2..<20]). ZERO_OR_POWERS_OF_10_64 ! t = (if t = 0 then 0 else 10 ^ t)"
  by (simp add: ZERO_OR_POWERS_OF_10_64_def FMT_POWERS_OF_10_def)

lemma powers_table_32:
  "\<forall>t \<in> set (0 # 1 # [2..<10]). ZERO_OR_POWERS_OF_10_32 ! t = (if t = 0 then 0 else 10 ^ t)"
  by (simp add: ZERO_OR_POWERS_OF_10_32_def FMT_POWERS_OF_10_def)

lemma powers_64: "t < 20 \<Longrightarrow> ZERO_OR_POWERS_OF_10_64 ! t = (if t = 0 then 0 else 10 ^ t)"
  by (rule bspec [OF powers_table_64])
     (unfold list.set(2) set_upt insert_iff atLeastLessThan_iff, linarith)

lemma powers_32: "t < 10 \<Longrightarrow> ZERO_OR_POWERS_OF_10_32 ! t = (if t = 0 then 0 else 10 ^ t)"
  by (rule bspec [OF powers_table_32])
     (unfold list.set(2) set_upt insert_iff atLeastLessThan_iff, linarith)

lemma count_by_bits:
  fixes n :: nat
  assumes b: "b = bit_length (n OR 1)" "b \<le> 64"
  defines "t \<equiv> b * 1233 div 4096"
  shows "length (decimal n) = t - (if n < (if t = 0 then 0 else 10 ^ t) then 1 else 0) + 1"
proof (cases "n = 0")
  case True
  then have "b = 1" using b bit_length_or_1 [of 0] by simp
  then show ?thesis using True by (simp add: t_def text_simps)
next
  case False
  then have bn: "b = bit_length n" using b by simp
  have B: "2 ^ (b - 1) \<le> n" "n < 2 ^ b" "1 \<le> b" using bit_length_bounds [of n] False bn by auto
  note T = log_table_at [OF B(3) b(2), folded t_def]
  have up: "n < 10 ^ Suc t" using B(2) T(2) by simp
  show ?thesis
  proof (cases "t = 0 \<or> 10 ^ t \<le> n")
    case True
    then have "length (decimal n) = Suc t"
      using length_decimal_eq [OF _ up] False by auto
    then show ?thesis using True by auto
  next
    case C: False
    then obtain k where k: "t = Suc k" using gr0_implies_Suc by blast
    then have "10 ^ k \<le> n" using T(1) B(1) by auto
    with C k have "length (decimal n) = Suc k" by (intro length_decimal_eq) auto
    then show ?thesis using C k by auto
  qed
qed

lemma count_digits64_correct: "n < 2 ^ 64 \<Longrightarrow> count_digits64 n = length (decimal n)"
proof -
  assume n: "n < 2 ^ 64"
  let ?b = "bit_length (n OR 1)"
  have b: "?b \<le> 64" using bit_length_le [OF n] by simp
  then have "?b * 1233 div 4096 < 20" by simp
  from powers_64 [OF this] count_by_bits [OF refl b] b show ?thesis
    by (simp add: count_digits64_def builtin_clz_def drop_bit_eq_div Let_def)
qed

lemma count_digits32_correct: "n < 2 ^ 32 \<Longrightarrow> count_digits32 n = length (decimal n)"
proof -
  assume n: "n < 2 ^ 32"
  let ?b = "bit_length (n OR 1)"
  have b: "?b \<le> 32" using bit_length_le [OF n] by simp
  then have "?b * 1233 div 4096 < 10" "?b \<le> 64" by simp_all
  from powers_32 [OF this(1)] count_by_bits [OF refl this(2)] b show ?thesis
    by (simp add: count_digits32_def builtin_clz_def drop_bit_eq_div Let_def)
qed

lemma count_digits_loop_correct: "count_digits_loop n count + 1 = count + length (decimal n)"
proof (induction n count rule: count_digits_loop.induct)
  case (1 n count)
  show ?case
  proof (cases "n < 10000")
    case True
    then show ?thesis
      using length_decimal_eq [of 0 n] length_decimal_eq [of 1 n] length_decimal_eq [of 2 n]
        length_decimal_eq [of 3 n]
      by (cases "n = 0") (auto simp: count_digits_loop.simps [of n] count_digits_loop.simps [of 0] text_simps)
  next
    case False
    have "length (decimal n) = length (decimal (n div 10000)) + 4"
      using False by (simp add: decimal_step div_mult2_eq [symmetric] less_eq_div_iff_mult_less_eq)
    with 1 False show ?thesis by (simp add: count_digits_loop.simps [of n])
  qed
qed

lemma count_digits_fallback_correct: "count_digits_fallback n = length (decimal n)"
  using count_digits_loop_correct [of n 1] by (simp add: count_digits_fallback_def)

lemma count_digits_base_correct:
  "0 < bits \<Longrightarrow> count_digits_base bits n = length (base_digits (2 ^ bits) n)"
proof (induction bits n rule: count_digits_base.induct)
  case (1 bits n)
  have "2 \<le> (2 :: nat) ^ bits" using "1.prems" by (cases bits) auto
  with 1 show ?case
    by (cases "n < 2 ^ bits")
       (auto simp: count_digits_base.simps [of bits n] drop_bit_eq_div text_simps div_eq_0_iff)
qed

section \<open>Writing backwards, and what has been written\<close>

lemma DIGITS_table:
  "\<forall>k \<in> set (0 # 1 # [2..<100]).
     DIGITS ! (k * 2 + 1) = digit_char (k mod 10) \<and> DIGITS ! (k * 2) = digit_char (k div 10)"
  by (simp add: DIGITS_def digit_char_def char_of_def bit_Suc_0_iff)

lemma DIGITS_at:
  assumes "k < 100"
  shows "DIGITS ! Suc (k * 2) = digit_char (k mod 10)" "DIGITS ! (k * 2) = digit_char (k div 10)"
proof -
  have "k \<in> set (0 # 1 # [2..<100])"
    using assms unfolding list.set(2) set_upt insert_iff atLeastLessThan_iff by linarith
  from bspec [OF DIGITS_table this]
  show "DIGITS ! Suc (k * 2) = digit_char (k mod 10)" "DIGITS ! (k * 2) = digit_char (k div 10)"
    by (simp_all only: Suc_eq_plus1)
qed

text \<open>The array after the text \<open>s\<close> has been written backwards from position \<open>p\<close>.\<close>

definition wrote :: "string \<Rightarrow> back_buf \<Rightarrow> back_buf" where
  "wrote s b = (case b of (buf, p) \<Rightarrow> (take (p - length s) buf @ s @ drop p buf, p - length s))"

lemma wrote_Nil [simp]: "wrote [] (buf, p) = (buf, p)"
  by (simp add: wrote_def)

lemma length_wrote: "length s \<le> p \<Longrightarrow> p \<le> length buf \<Longrightarrow> length (fst (wrote s (buf, p))) = length buf"
  by (simp add: wrote_def)

lemma put_back_wrote [text_simps]:
  assumes "length s < p" "p \<le> length buf"
  shows "put_back c (wrote s (buf, p)) = Inr (wrote (c # s) (buf, p))"
proof -
  have "take (p - length s) buf = take (p - Suc (length s)) buf @ [buf ! (p - Suc (length s))]"
    using assms by (metis Suc_diff_Suc diff_le_self less_le_trans take_Suc_conv_app_nth zero_less_diff diff_less_mono2 lessI order_less_le_trans)
  then show ?thesis using assms by (simp add: put_back_def wrote_def list_update_append)
qed

lemma put_back_overflow: "length buf < p \<Longrightarrow> put_back c (buf, p) = Inl Out_of_bounds"
  by (simp add: put_back_def)

lemma put_sep_No_sep [text_simps]:
  "length s < p \<Longrightarrow> p \<le> length buf \<Longrightarrow>
   put_sep c (No_sep, wrote s (buf, p)) = Inr (No_sep, wrote (c # s) (buf, p))"
  by (simp add: put_sep_def text_simps)

lemma decimal_two:
  assumes "100 \<le> n"
  shows "decimal n = decimal (n div 100) @ [digit_char (n mod 100 div 10), digit_char (n mod 10)]"
proof -
  have "decimal n = (decimal (n div 10 div 10) @ [digit_char (n div 10 mod 10)]) @ [digit_char (n mod 10)]"
    using assms by (simp add: decimal_step less_eq_div_iff_mult_less_eq)
  moreover have "n div 10 mod 10 = n mod 100 div 10" "n div 10 div 10 = n div 100"
    using mod_mult2_eq [of n 10 10] by (simp_all add: div_mult2_eq [symmetric])
  ultimately show ?thesis by simp
qed

lemma decimal_pair: "10 \<le> n \<Longrightarrow> n < 100 \<Longrightarrow> decimal n = [digit_char (n div 10), digit_char (n mod 10)]"
  by (simp add: decimal_step decimal_small)

lemma format_decimal_loop_No_sep:
  assumes "length (decimal v) + length s \<le> p" "p \<le> length buf"
  shows "format_decimal_loop v (No_sep, wrote s (buf, p)) = Inr (No_sep, wrote (decimal v @ s) (buf, p))"
  using assms
proof (induction v arbitrary: s rule: less_induct)
  case (less v)
  consider "100 \<le> v" | "v < 10" | "10 \<le> v" "v < 100" by linarith
  then show ?case
  proof cases
    case 1
    have m: "v mod 100 mod 10 = v mod 10" by (simp add: mod_mod_cancel)
    let ?a = "digit_char (v mod 100 div 10)" and ?b = "digit_char (v mod 10)"
    have "format_decimal_loop (v div 100) (No_sep, wrote (?a # ?b # s) (buf, p)) =
        Inr (No_sep, wrote (decimal (v div 100) @ ?a # ?b # s) (buf, p))"
      using less 1 by (simp add: decimal_two)
    then show ?thesis
      using less.prems 1 DIGITS_at [of "v mod 100"]
      by (subst format_decimal_loop.simps) (simp add: decimal_two m Let_def text_simps)
  next
    case 2
    then show ?thesis using less.prems
      by (subst format_decimal_loop.simps) (simp add: text_simps)
  next
    case 3
    then show ?thesis using less.prems DIGITS_at [of v]
      by (subst format_decimal_loop.simps) (simp add: decimal_pair Let_def text_simps)
  qed
qed

text \<open>The text with a separator after every third digit, from the digits least significant first.\<close>

fun grouped :: "string \<Rightarrow> nat \<Rightarrow> string \<Rightarrow> string" where
  "grouped sep i [] = []"
| "grouped sep i (d # ds) =
     grouped sep (Suc i) ds @ (if ds \<noteq> [] \<and> Suc i mod 3 = 0 then sep else []) @ [d]"

definition grouped_decimal :: "string \<Rightarrow> nat \<Rightarrow> string" where
  "grouped_decimal sep n = grouped sep 0 (rev (decimal n))"

definition sep_text :: "string \<Rightarrow> nat \<Rightarrow> string" where
  "sep_text sep i = (if Suc i mod 3 = 0 then sep else [])"

lemma thousands_sep_call_wrote:
  assumes "length (sep_text sep i) + length s \<le> p" "p \<le> length buf"
  shows "thousands_sep_call (Sep sep i) (wrote s (buf, p)) =
     Inr (Sep sep (Suc i), wrote (sep_text sep i @ s) (buf, p))"
proof (cases "Suc i mod 3 = 0")
  case True
  have e: "length s + length sep \<le> p" using assms True by (simp add: sep_text_def)
  have "copy_into (take (p - length s) buf @ s @ drop p buf) (p - length s - length sep) sep =
      take (p - (length s + length sep)) buf @ sep @ s @ drop p buf"
    using e assms by (subst copy_into_eq) (auto simp: min_def)
  moreover have "\<not> p - length s < length sep" "\<not> length buf < p - length s" using e assms by linarith+
  ultimately show ?thesis using True e assms by (simp add: sep_text_def wrote_def add.commute)
qed (use assms in \<open>simp add: sep_text_def wrote_def\<close>)

lemma put_sep_Sep [text_simps]:
  assumes "Suc (length (sep_text sep i) + length s) \<le> p" "p \<le> length buf"
  shows "put_sep c (Sep sep i, wrote s (buf, p)) =
     Inr (Sep sep (Suc i), wrote (sep_text sep i @ c # s) (buf, p))"
  using assms thousands_sep_call_wrote [of sep i "c # s" p buf]
  by (simp add: put_sep_def text_simps)

lemma length_grouped_pos [simp]: "ds \<noteq> [] \<Longrightarrow> 0 < length (grouped sep i ds)"
  by (cases ds) auto

lemma grouped_two:
  "ds \<noteq> [] \<Longrightarrow> grouped sep i (b # a # ds) =
     grouped sep (i + 2) ds @ sep_text sep (Suc i) @ a # sep_text sep i @ [b]"
  by (simp add: sep_text_def)

lemma format_decimal_loop_Sep:
  assumes "length (grouped sep i (rev (decimal v))) + length s \<le> p" "p \<le> length buf"
  shows "format_decimal_loop v (Sep sep i, wrote s (buf, p)) =
    Inr (Sep sep (i + length (decimal v) - 1), wrote (grouped sep i (rev (decimal v)) @ s) (buf, p))"
  using assms
proof (induction v arbitrary: s i rule: less_induct)
  case (less v)
  consider "100 \<le> v" | "v < 10" | "10 \<le> v" "v < 100" by linarith
  then show ?case
  proof cases
    case 1
    have m: "v mod 100 mod 10 = v mod 10" by (simp add: mod_mod_cancel)
    let ?a = "digit_char (v mod 100 div 10)" and ?b = "digit_char (v mod 10)"
    let ?t = "sep_text sep (Suc i) @ ?a # sep_text sep i @ ?b # s"
    note d = decimal_two [OF 1]
    have g: "grouped sep i (rev (decimal v)) = grouped sep (i + 2) (rev (decimal (v div 100))) @
        sep_text sep (Suc i) @ ?a # sep_text sep i @ [?b]"
      unfolding d by (simp add: grouped_two del: grouped.simps)
    have IH: "format_decimal_loop (v div 100) (Sep sep (i + 2), wrote ?t (buf, p)) =
       Inr (Sep sep (i + 2 + length (decimal (v div 100)) - 1),
            wrote (grouped sep (i + 2) (rev (decimal (v div 100))) @ ?t) (buf, p))"
      using less g 1 by simp
    have "i + 2 + length (decimal (v div 100)) - 1 = i + length (decimal v) - 1"
      unfolding d by simp
    moreover have "Suc (Suc (length (sep_text sep (Suc i)) + length (sep_text sep i) + length s)) \<le> p"
      using less.prems(1) unfolding g by simp
    ultimately show ?thesis
      using IH less.prems(2) 1 DIGITS_at [of "v mod 100"] unfolding g
      by (subst format_decimal_loop.simps) (simp add: m Let_def put_sep_Sep)
  next
    case 2
    then show ?thesis using less.prems
      by (subst format_decimal_loop.simps) (simp add: text_simps)
  next
    case 3
    then show ?thesis using less.prems DIGITS_at [of v]
      by (subst format_decimal_loop.simps)
         (simp add: decimal_pair Let_def text_simps sep_text_def split: if_splits)
  qed
qed

lemma length_grouped:
  "ds \<noteq> [] \<Longrightarrow> length (grouped sep i ds) = length ds + length sep * ((i + length ds - 1) div 3 - i div 3)"
proof (induction sep i ds rule: grouped.induct)
  case (2 sep i d ds)
  show ?case
  proof (cases "ds = []")
    case False
    let ?n = "(i + length ds) div 3"
    have le: "Suc i div 3 \<le> ?n" using False by (intro div_le_mono) (cases ds, auto)
    have s: "Suc i div 3 = (if Suc i mod 3 = 0 then Suc (i div 3) else i div 3)"
      by (simp add: div_Suc)
    have "length (grouped sep i (d # ds)) =
        length ds + length sep * (?n - Suc i div 3) + (if Suc i mod 3 = 0 then length sep else 0) + 1"
      using 2 False by simp
    also have "\<dots> = length (d # ds) + length sep * (?n - i div 3)"
    proof (cases "Suc i mod 3 = 0")
      case True
      then have "?n - i div 3 = Suc (?n - Suc i div 3)" using le s by (simp only: True if_True Suc_diff_Suc Suc_le_eq)
      then show ?thesis using True by simp
    qed (use s in simp)
    finally show ?thesis using False by simp
  qed simp
qed simp

lemma length_grouped_decimal:
  "length (grouped_decimal sep n) = length (decimal n) + length sep * ((length (decimal n) - 1) div 3)"
  by (simp add: grouped_decimal_def length_grouped)

section \<open>Correctness of the conversions\<close>

lemma less_pow10: "n < 2 ^ 32 \<Longrightarrow> n < (10 :: nat) ^ 10" "n < 2 ^ 64 \<Longrightarrow> n < (10 :: nat) ^ 20"
  by simp_all

lemma length_decimal_32: "n < 2 ^ 32 \<Longrightarrow> length (decimal n) \<le> 10"
  and length_decimal_64: "n < 2 ^ 64 \<Longrightarrow> length (decimal n) \<le> 20"
  by (rule length_decimal_le, simp_all)+

text \<open>Integer types have 32 or 64 bits here.\<close>

lemma length_decimal_width:
  assumes "w = 32 \<or> w = 64" "n < 2 ^ w"
  shows "length (decimal n) < digits10 w + 2"
  using assms length_decimal_32 [of n] length_decimal_64 [of n] by (auto simp: digits10_def)

lemma wrote_prefix: "length s \<le> length buf \<Longrightarrow> take (length s) (fst (wrote s (buf, length s))) = s"
  by (simp add: wrote_def)

lemma format_decimal_buf_No_sep:
  assumes "length (decimal n) \<le> length buf"
  shows "format_decimal_buf buf n (length (decimal n)) No_sep =
     Inr (fst (wrote (decimal n) (buf, length (decimal n))))"
  using format_decimal_loop_No_sep [of n "[]" "length (decimal n)" buf] assms
  by (simp add: format_decimal_buf_def)

lemma format_decimal_out_No_sep:
  assumes "length (decimal n) \<le> digits10 w + 2" "length garbage = digits10 w + 2"
  shows "format_decimal_out w garbage n (length (decimal n)) No_sep = Inr (decimal n)"
  using assms wrote_prefix [of "decimal n" garbage] length_wrote [of "decimal n" "length (decimal n)" garbage]
  by (simp add: format_decimal_out_def format_decimal_buf_No_sep copy_n_def)

lemma format_decimal_out_Sep:
  assumes "length (grouped_decimal sep n) \<le> digits10 w + 2" "length garbage = digits10 w + 2"
  shows "format_decimal_out w garbage n (length (grouped_decimal sep n)) (Sep sep 0) =
     Inr (grouped_decimal sep n)"
proof -
  let ?g = "grouped_decimal sep n"
  have "format_decimal_loop n (Sep sep 0, (garbage, length ?g)) =
      Inr (Sep sep (length (decimal n) - 1), wrote ?g (garbage, length ?g))"
    using format_decimal_loop_Sep [of sep 0 n "[]" "length ?g" garbage] assms
    by (simp add: grouped_decimal_def)
  then show ?thesis
    using assms wrote_prefix [of ?g garbage] length_wrote [of ?g "length ?g" garbage]
    by (simp add: format_decimal_out_def format_decimal_buf_def copy_n_def)
qed

lemma format_decimal_loop_overflow:
  "length buf < p \<Longrightarrow> format_decimal_loop n (ts, (buf, p)) = Inl Out_of_bounds"
  by (subst format_decimal_loop.simps) (simp add: put_sep_def put_back_overflow Let_def)

lemma format_decimal_out_overflow:
  assumes "digits10 w + 2 < sz" "length garbage = digits10 w + 2"
  shows "format_decimal_out w garbage n sz ts = Inl Out_of_bounds"
  using assms by (simp add: format_decimal_out_def format_decimal_buf_def format_decimal_loop_overflow)

text \<open>Bases that are powers of two.\<close>

definition base_char :: "nat \<Rightarrow> bool \<Rightarrow> nat \<Rightarrow> char" where
  "base_char bits upper d =
     (if bits < 4 then digit_char d
      else (if upper then ''0123456789ABCDEF'' else ''0123456789abcdef'') ! d)"

definition base_text :: "nat \<Rightarrow> bool \<Rightarrow> nat \<Rightarrow> string" where
  "base_text bits upper n = map (base_char bits upper) (base_digits (2 ^ bits) n)"

lemma length_base_text [simp]: "length (base_text bits upper n) = length (base_digits (2 ^ bits) n)"
  by (simp add: base_text_def)

lemma two_le_pow: "0 < bits \<Longrightarrow> 2 \<le> (2 :: nat) ^ bits"
  by (cases bits) auto

lemma base_text_step:
  assumes "0 < bits"
  shows "base_text bits upper n =
    (if drop_bit bits n = 0 then [] else base_text bits upper (drop_bit bits n)) @
    [base_char bits upper (n AND (2 ^ bits - 1))]"
proof -
  have a: "n AND (2 ^ bits - Suc 0) = n mod 2 ^ bits"
    by (metis One_nat_def take_bit_eq_mask take_bit_eq_mod mask_eq_exp_minus_1)
  show ?thesis
    using two_le_pow [OF assms]
    by (cases "n < 2 ^ bits") (simp_all add: base_text_def a drop_bit_eq_div text_simps div_eq_0_iff)
qed

lemma format_uint_loop_correct:
  assumes "0 < bits" "length (base_text bits upper n) + length s \<le> p" "p \<le> length buf"
  shows "format_uint_loop bits upper n (wrote s (buf, p)) = Inr (wrote (base_text bits upper n @ s) (buf, p))"
  using assms
proof (induction n arbitrary: s rule: less_induct)
  case (less n)
  let ?c = "base_char bits upper (n AND (2 ^ bits - 1))"
  note st = base_text_step [OF less.prems(1), of upper n]
  have len: "length (base_text bits upper n) =
      Suc (if drop_bit bits n = 0 then 0 else length (base_text bits upper (drop_bit bits n)))"
    by (subst st) simp
  have put: "put_back ?c (wrote s (buf, p)) = Inr (wrote (?c # s) (buf, p))"
    using less.prems len by (intro put_back_wrote) auto
  show ?case
  proof (cases "drop_bit bits n = 0")
    case True
    then show ?thesis using put st less.prems(1)
      by (subst format_uint_loop.simps) (simp add: base_char_def Let_def)
  next
    case False
    have IH: "format_uint_loop bits upper (drop_bit bits n) (wrote (?c # s) (buf, p)) =
        Inr (wrote (base_text bits upper (drop_bit bits n) @ ?c # s) (buf, p))"
      using less.prems len False by (intro less.IH drop_bit_less) auto
    have t: "base_text bits upper n @ s = base_text bits upper (drop_bit bits n) @ ?c # s"
      by (subst st) (simp add: False)
    show ?thesis unfolding t using put IH False less.prems(1)
      by (subst format_uint_loop.simps) (simp add: base_char_def Let_def)
  qed
qed

lemma length_base_digits_le: "n < (2 ^ bits) ^ k \<Longrightarrow> 0 < k \<Longrightarrow> 0 < bits \<Longrightarrow> length (base_digits (2 ^ bits) n) \<le> k"
proof (induction k arbitrary: n)
  case (Suc k)
  show ?case
  proof (cases "n < 2 ^ bits")
    case False
    then have k: "0 < k" using Suc.prems by (cases k) auto
    have "n div 2 ^ bits < (2 ^ bits) ^ k" using Suc.prems(1) by (simp add: less_mult_imp_div_less mult.commute)
    with Suc.IH k Suc.prems have "length (base_digits (2 ^ bits) (n div 2 ^ bits)) \<le> k" by simp
    then show ?thesis using False two_le_pow [OF Suc.prems(3)] by (simp add: text_simps)
  qed (simp add: text_simps)
qed simp

lemma length_base_digits_width:
  assumes "n < 2 ^ w" "0 < bits"
  shows "length (base_digits (2 ^ bits) n) \<le> w div bits + 1"
proof -
  have "w \<le> bits * (w div bits + 1)"
    using assms(2) by (metis div_mult_mod_eq mult.commute mult_Suc_right Suc_eq_plus1 add.commute add_le_cancel_left less_imp_le mod_less_divisor)
  then have "(2 :: nat) ^ w \<le> 2 ^ (bits * (w div bits + 1))" by (intro power_increasing) auto
  then have "n < (2 ^ bits) ^ (w div bits + 1)" using assms(1) by (metis less_le_trans power_mult)
  from length_base_digits_le [OF this _ assms(2)] show ?thesis by simp
qed

lemma format_uint_out_correct:
  assumes "0 < bits" "n < 2 ^ w" "length garbage = w div bits + 2"
  shows "format_uint_out w bits garbage n (count_digits_base bits n) upper = Inr (base_text bits upper n)"
proof -
  let ?t = "base_text bits upper n"
  have l: "length ?t \<le> length garbage"
    using length_base_digits_width [OF assms(2,1)] assms(3) by simp
  have c: "count_digits_base bits n = length ?t" using assms by (simp add: count_digits_base_correct)
  show ?thesis
    using format_uint_loop_correct [OF assms(1), of upper n "[]" "length ?t" garbage] l
      wrote_prefix [OF l] length_wrote [OF _ l] assms(3)
    unfolding c by (simp add: format_uint_out_def format_uint_buf_def copy_n_def)
qed

text \<open>The class \<^verbatim>\<open>format_int\<close>.\<close>

lemma format_int_format_decimal_correct:
  assumes "n < 2 ^ 64" "length garbage = BUFFER_SIZE"
  shows "format_int_format_decimal garbage n = Inr (wrote (decimal n) (garbage, BUFFER_SIZE - 1))"
  using format_decimal_loop_No_sep [of n "[]" "BUFFER_SIZE - 1" garbage] assms length_decimal_64 [of n]
  by (simp add: format_int_format_decimal_def BUFFER_SIZE_def)

lemma format_int_str_wrote:
  assumes "length s < BUFFER_SIZE" "length garbage = BUFFER_SIZE"
  shows "res_bind (format_int_of (Inr (wrote s (garbage, BUFFER_SIZE - 1)))) (\<lambda>i. Inr (format_int_str i)) = Inr s"
  using assms
  by (simp add: format_int_of_def wrote_def format_int_str_def format_int_size_def BUFFER_SIZE_def to_size_def)

lemma format_int_unsigned_correct:
  assumes "n < 2 ^ 64" "length garbage = BUFFER_SIZE"
  shows "res_bind (format_int_unsigned garbage n) (\<lambda>i. Inr (format_int_str i)) = Inr (decimal n)"
  using assms length_decimal_64 [OF assms(1)] format_int_str_wrote [of "decimal n" garbage]
  by (simp add: format_int_unsigned_def format_int_format_decimal_correct BUFFER_SIZE_def)

lemma abs_value_64:
  assumes "- (2 ^ 63) \<le> i" "i < 0"
  shows "sz_sub 0 (to_size i) = nat (- i)"
proof -
  have "i mod 2 ^ 64 = i + 2 ^ 64" using assms by (simp add: mod_add_self2 [symmetric, of i] del: mod_add_self2)
  then have "to_size i = 2 ^ 64 - nat (- i)" using assms by (simp add: to_size_def nat_diff_distrib)
  then show ?thesis using assms by (simp add: sz_sub_def nat_less_iff)
qed

lemma format_int_signed_correct:
  assumes "- (2 ^ 63) \<le> i" "i < 2 ^ 63" "length garbage = BUFFER_SIZE"
  shows "res_bind (format_int_signed garbage i) (\<lambda>f. Inr (format_int_str f)) = Inr (signed_decimal i)"
proof (cases "i < 0")
  case True
  have n: "nat (- i) < 2 ^ 64" using assms True by simp
  have "put_back (CHR ''-'') (wrote (decimal (nat (- i))) (garbage, BUFFER_SIZE - 1)) =
      Inr (wrote (CHR ''-'' # decimal (nat (- i))) (garbage, BUFFER_SIZE - 1))"
    using length_decimal_64 [OF n] assms by (intro put_back_wrote) (auto simp: BUFFER_SIZE_def)
  then show ?thesis
    using True assms n length_decimal_64 [OF n] format_int_str_wrote [of "CHR ''-'' # decimal (nat (- i))" garbage]
    by (simp add: format_int_signed_def format_int_format_signed_def abs_value_64
        format_int_format_decimal_correct signed_decimal_def Let_def BUFFER_SIZE_def)
next
  case False
  then have n: "nat i < 2 ^ 64" "to_size i = nat i" using assms by simp_all
  then show ?thesis
    using False assms length_decimal_64 [OF n(1)] format_int_str_wrote [of "decimal (nat i)" garbage]
    by (simp add: format_int_signed_def format_int_format_signed_def
        format_int_format_decimal_correct signed_decimal_def Let_def BUFFER_SIZE_def)
qed

section \<open>Properties\<close>

text \<open>The branch-free count of decimal digits, from the position of the highest bit, a multiplication by
  1233 / 4096 and one table lookup, agrees for all 64-bit numbers with the loop that divides by 10000, and both count the
  digits of the decimal representation; the same for the 32-bit version.\<close>

theorem count_digits_equivalent:
  assumes "n < 2 ^ 64"
  shows "count_digits64 n = count_digits_fallback n \<and> count_digits64 n = length (decimal n) \<and>
    (n < 2 ^ 32 \<longrightarrow> count_digits32 n = count_digits64 n)"
  using assms by (simp add: count_digits64_correct count_digits32_correct count_digits_fallback_correct)

theorem count_digits_equivalent_witness:
  "count_digits64 1000 = count_digits_fallback 1000 \<and> count_digits64 1000 = length (decimal 1000) \<and>
    count_digits32 1000 = count_digits64 1000"
  using count_digits_equivalent [of 1000] by simp

text \<open>The number that a text with an optional sign denotes.\<close>

definition signed_value :: "string \<Rightarrow> int" where
  "signed_value s =
     (if s \<noteq> [] \<and> hd s = CHR ''-'' then - int (decimal_value (tl s)) else int (decimal_value s))"

lemma decimal_no_minus: "hd (decimal n) \<noteq> CHR ''-''"
proof
  assume m: "hd (decimal n) = CHR ''-''"
  then obtain d where "d < 10" "CHR ''-'' = digit_char d"
    using decimal_digits [of "hd (decimal n)" n] by (metis decimal_not_Nil hd_in_set)
  then have "(of_char (CHR ''-'') :: nat) = 48 + d" by simp
  then show False by simp
qed

text \<open>C22: The class that formats an integer into its own array of 22 characters writes inside of it for every signed
  and unsigned 64-bit number, also the smallest one whose negation wraps around, and the text it returns
  reads back as the number.\<close>

theorem format_int_roundtrip:
  assumes "length garbage = BUFFER_SIZE"
  shows "(\<forall>i. - (2 ^ 63) \<le> i \<and> i < 2 ^ 63 \<longrightarrow>
       (\<exists>f. format_int_signed garbage i = Inr f \<and> signed_value (format_int_str f) = i)) \<and>
    (\<forall>n < 2 ^ 64. \<exists>f. format_int_unsigned garbage n = Inr f \<and> decimal_value (format_int_str f) = n)"
proof (intro conjI allI impI)
  fix i :: int
  assume "- (2 ^ 63) \<le> i \<and> i < 2 ^ 63"
  with assms obtain f where "format_int_signed garbage i = Inr f" "format_int_str f = signed_decimal i"
    using format_int_signed_correct [of i garbage] by (auto simp: res_simps)
  moreover have "signed_value (signed_decimal i) = i"
    using decimal_no_minus [of "nat i"] by (simp add: signed_value_def signed_decimal_def decimal_value_decimal)
  ultimately show "\<exists>f. format_int_signed garbage i = Inr f \<and> signed_value (format_int_str f) = i" by auto
next
  fix n :: nat
  assume "n < 2 ^ 64"
  with assms obtain f where "format_int_unsigned garbage n = Inr f" "format_int_str f = decimal n"
    using format_int_unsigned_correct [of n garbage] by (auto simp: res_simps)
  then show "\<exists>f. format_int_unsigned garbage n = Inr f \<and> decimal_value (format_int_str f) = n"
    by (auto simp: decimal_value_decimal)
qed

theorem format_int_roundtrip_witness:
  "\<exists>f. format_int_signed (replicate 22 (CHR ''?'')) (- (2 ^ 63)) = Inr f \<and>
     signed_value (format_int_str f) = - (2 ^ 63)"
  using format_int_roundtrip [of "replicate 22 (CHR ''?'')"] by (simp add: BUFFER_SIZE_def)

end
