(* ===== verification/Fmt_Writer.thy ===== *)
theory Fmt_Writer
  imports Fmt_Integer
begin

text \<open>
  Writing of formatted values in the formatting library (\<^verbatim>\<open>fmt/bundled/format.h\<close>): format
  specifiers, padding, the integer writer with its number bases, strings, characters, booleans and pointers, and
  the dispatch on the type of an argument. What is written is the text that is appended to the
  output. Floating-point values and arguments of user-defined types are not arguments of the model.

  The output is either contiguous (a memory buffer or a string: digits are written into it directly) or some other
  output iterator (digits go through an array on the stack). The lemmas give the text for
  each type, and show that a contiguous output is never written out of bounds while the
  array on the stack is too small for separated digits.
\<close>

section \<open>Format specifiers\<close>

datatype alignment = ALIGN_DEFAULT | ALIGN_LEFT | ALIGN_RIGHT | ALIGN_CENTER | ALIGN_NUMERIC

abbreviation (input) SIGN_FLAG :: nat where "SIGN_FLAG \<equiv> 1"
abbreviation (input) PLUS_FLAG :: nat where "PLUS_FLAG \<equiv> 2"
abbreviation (input) MINUS_FLAG :: nat where "MINUS_FLAG \<equiv> 4"
abbreviation (input) HASH_FLAG :: nat where "HASH_FLAG \<equiv> 8"

abbreviation (input) NUL :: char where "NUL \<equiv> CHR 0x00"

record format_specs =
  fs_width :: nat
  fs_fill :: char
  fs_align :: alignment
  fs_flags :: nat
  fs_precision :: int
  fs_type :: char

definition default_specs :: format_specs where
  "default_specs = \<lparr>fs_width = 0, fs_fill = CHR '' '', fs_align = ALIGN_DEFAULT, fs_flags = 0,
     fs_precision = -1, fs_type = NUL\<rparr>"

definition fs_flag :: "format_specs \<Rightarrow> nat \<Rightarrow> bool" where
  "fs_flag s f \<longleftrightarrow> fs_flags s AND f \<noteq> 0"

section \<open>The environment of a writer\<close>

text \<open>
  The thousands separator of the locale, whether the output is contiguous, and the contents of
  uninitialised memory.
\<close>

record fmt_env =
  env_sep :: char
  env_contiguous :: bool
  env_junk :: "nat \<Rightarrow> char"

definition uninit :: "fmt_env \<Rightarrow> nat \<Rightarrow> string" where
  "uninit env n = map (env_junk env) [0..<n]"

text \<open>
  \<^verbatim>\<open>reserve(n)\<close> followed by the writing of a text. A shorter text would leave uninitialised
  characters in the output, a longer one would be written past the reserved ones; both are errors.
\<close>

definition reserve_write :: "nat \<Rightarrow> string \<Rightarrow> string res" where
  "reserve_write n txt = (if length txt = n then Inr txt else Inl Out_of_bounds)"

definition write_padded :: "nat \<Rightarrow> format_specs \<Rightarrow> string res \<Rightarrow> string res" where
  "write_padded sz spec f =
     (let width = fs_width spec in
      if width \<le> sz then res_bind f (reserve_write sz)
      else
        let fill = fs_fill spec;
            padding = width - sz in
        res_bind f (\<lambda>txt. reserve_write width
          (if fs_align spec = ALIGN_RIGHT then replicate padding fill @ txt
           else if fs_align spec = ALIGN_CENTER then
             let left_padding = padding div 2 in
             replicate left_padding fill @ txt @ replicate (padding - left_padding) fill
           else txt @ replicate padding fill)))"

section \<open>Integers\<close>

definition padded_int_writer :: "string \<Rightarrow> char \<Rightarrow> nat \<Rightarrow> string res \<Rightarrow> string res" where
  "padded_int_writer prefix fill padding f =
     res_bind f (\<lambda>txt. Inr ((if length prefix \<noteq> 0 then prefix else []) @ replicate padding fill @ txt))"

definition write_int_digits :: "nat \<Rightarrow> string \<Rightarrow> format_specs \<Rightarrow> string res \<Rightarrow> string res" where
  "write_int_digits num_digits prefix spec f =
     (let sz = length prefix + num_digits;
          fill = fs_fill spec;
          (sz, fill, padding) =
            (if fs_align spec = ALIGN_NUMERIC then
               (if fs_width spec > sz then (fs_width spec, fill, fs_width spec - sz) else (sz, fill, 0))
             else if fs_precision spec > int num_digits then
               (length prefix + nat (fs_precision spec), CHR ''0'', nat (fs_precision spec) - num_digits)
             else (sz, fill, 0));
          as = (if fs_align spec = ALIGN_DEFAULT then spec\<lparr>fs_align := ALIGN_RIGHT\<rparr> else spec)
      in write_padded sz as (padded_int_writer prefix fill padding f))"

text \<open>Digits into the output: directly, or through the array on the stack.\<close>

definition out_decimal :: "fmt_env \<Rightarrow> nat \<Rightarrow> nat \<Rightarrow> nat \<Rightarrow> thousands_sep \<Rightarrow> string res" where
  "out_decimal env w n num_digits ts =
     (if env_contiguous env then format_decimal_buf (uninit env num_digits) n num_digits ts
      else format_decimal_out w (uninit env (digits10 w + 2)) n num_digits ts)"

definition out_uint :: "fmt_env \<Rightarrow> nat \<Rightarrow> nat \<Rightarrow> nat \<Rightarrow> nat \<Rightarrow> bool \<Rightarrow> string res" where
  "out_uint env w bits n num_digits upper =
     (if env_contiguous env then format_uint_buf bits (uninit env num_digits) n num_digits upper
      else format_uint_out w bits (uninit env (w div bits + 2)) n num_digits upper)"

definition count_digits :: "nat \<Rightarrow> nat \<Rightarrow> nat" where
  "count_digits w n = (if w = 32 then count_digits32 n else count_digits64 n)"

text \<open>
  The absolute value in the unsigned type of \<open>w\<close> bits (32 or 64) that can hold the values of the argument's
  type; a negative number is negated there, with wrap-around.
\<close>

definition unsigned_of :: "nat \<Rightarrow> int \<Rightarrow> nat" where
  "unsigned_of w v = nat (v mod 2 ^ w)"

definition neg_unsigned :: "nat \<Rightarrow> nat \<Rightarrow> nat" where
  "neg_unsigned w n = (2 ^ w - n) mod 2 ^ w"

definition write_decimal :: "fmt_env \<Rightarrow> nat \<Rightarrow> int \<Rightarrow> string res" where
  "write_decimal env w v =
     (let abs_value = unsigned_of w v;
          is_negative = v < 0;
          abs_value = (if is_negative then neg_unsigned w abs_value else abs_value);
          num_digits = count_digits w abs_value
      in res_bind (out_decimal env w abs_value num_digits No_sep) (\<lambda>txt.
         reserve_write ((if is_negative then 1 else 0) + num_digits)
           ((if is_negative then ''-'' else []) @ txt)))"

record int_writer =
  iw_width :: nat
  iw_spec :: format_specs
  iw_abs_value :: nat
  iw_prefix :: string

definition int_writer_new :: "nat \<Rightarrow> int \<Rightarrow> format_specs \<Rightarrow> int_writer" where
  "int_writer_new w v s =
     (let abs_value = unsigned_of w v in
      if v < 0 then
        \<lparr>iw_width = w, iw_spec = s, iw_abs_value = neg_unsigned w abs_value, iw_prefix = ''-''\<rparr>
      else if fs_flag s SIGN_FLAG then
        \<lparr>iw_width = w, iw_spec = s, iw_abs_value = abs_value,
         iw_prefix = (if fs_flag s PLUS_FLAG then ''+'' else '' '')\<rparr>
      else \<lparr>iw_width = w, iw_spec = s, iw_abs_value = abs_value, iw_prefix = []\<rparr>)"

definition on_dec :: "fmt_env \<Rightarrow> int_writer \<Rightarrow> string res" where
  "on_dec env iw =
     (let num_digits = count_digits (iw_width iw) (iw_abs_value iw)
      in write_int_digits num_digits (iw_prefix iw) (iw_spec iw)
           (out_decimal env (iw_width iw) (iw_abs_value iw) num_digits No_sep))"

definition hash_prefix :: "int_writer \<Rightarrow> string" where
  "hash_prefix iw =
     (if fs_flag (iw_spec iw) HASH_FLAG then iw_prefix iw @ [CHR ''0'', fs_type (iw_spec iw)]
      else iw_prefix iw)"

definition on_hex :: "fmt_env \<Rightarrow> int_writer \<Rightarrow> string res" where
  "on_hex env iw =
     (let prefix = hash_prefix iw;
          num_digits = count_digits_base 4 (iw_abs_value iw)
      in write_int_digits num_digits prefix (iw_spec iw)
           (out_uint env (iw_width iw) 4 (iw_abs_value iw) num_digits (fs_type (iw_spec iw) \<noteq> CHR ''x'')))"

definition on_bin :: "fmt_env \<Rightarrow> int_writer \<Rightarrow> string res" where
  "on_bin env iw =
     (let prefix = hash_prefix iw;
          num_digits = count_digits_base 1 (iw_abs_value iw)
      in write_int_digits num_digits prefix (iw_spec iw)
           (out_uint env (iw_width iw) 1 (iw_abs_value iw) num_digits False))"

definition on_oct :: "fmt_env \<Rightarrow> int_writer \<Rightarrow> string res" where
  "on_oct env iw =
     (let num_digits = count_digits_base 3 (iw_abs_value iw);
          prefix = (if fs_flag (iw_spec iw) HASH_FLAG \<and> fs_precision (iw_spec iw) \<le> int num_digits
                    then iw_prefix iw @ ''0'' else iw_prefix iw)
      in write_int_digits num_digits prefix (iw_spec iw)
           (out_uint env (iw_width iw) 3 (iw_abs_value iw) num_digits False))"

definition on_num :: "fmt_env \<Rightarrow> int_writer \<Rightarrow> string res" where
  "on_num env iw =
     (let num_digits = count_digits (iw_width iw) (iw_abs_value iw);
          sz = num_digits + 1 * ((num_digits - 1) div 3)
      in write_int_digits sz (iw_prefix iw) (iw_spec iw)
           (out_decimal env (iw_width iw) (iw_abs_value iw) sz (Sep [env_sep env] 0)))"

definition handle_int_type_spec ::
  "char \<Rightarrow> 'a \<Rightarrow> 'a \<Rightarrow> 'a \<Rightarrow> 'a \<Rightarrow> 'a \<Rightarrow> 'a \<Rightarrow> 'a" where
  "handle_int_type_spec spec dec hex bin oct num error =
     (if spec = NUL \<or> spec = CHR ''d'' then dec
      else if spec = CHR ''x'' \<or> spec = CHR ''X'' then hex
      else if spec = CHR ''b'' \<or> spec = CHR ''B'' then bin
      else if spec = CHR ''o'' then oct
      else if spec = CHR ''n'' then num
      else error)"

definition write_int :: "fmt_env \<Rightarrow> nat \<Rightarrow> int \<Rightarrow> format_specs \<Rightarrow> string res" where
  "write_int env w v spec =
     (let iw = int_writer_new w v spec in
      handle_int_type_spec (fs_type spec) (on_dec env iw) (on_hex env iw) (on_bin env iw)
        (on_oct env iw) (on_num env iw) (Inl (Format_error ''invalid type specifier'')))"

section \<open>Strings and characters\<close>

definition write_str :: "string \<Rightarrow> format_specs \<Rightarrow> string res" where
  "write_str s spec =
     (let sz = (if fs_precision spec \<ge> 0 \<and> nat (fs_precision spec) < length s
                then nat (fs_precision spec) else length s)
      in write_padded sz spec (copy_n s sz))"

definition write_char :: "char \<Rightarrow> format_specs option \<Rightarrow> string res" where
  "write_char c specs = (case specs of Some s \<Rightarrow> write_padded 1 s (Inr [c]) | None \<Rightarrow> reserve_write 1 [c])"

definition write_pointer :: "fmt_env \<Rightarrow> nat \<Rightarrow> format_specs option \<Rightarrow> string res" where
  "write_pointer env p specs =
     (let s = (case specs of Some s \<Rightarrow> s | None \<Rightarrow> default_specs)
      in write_int env 64 (int p) (s\<lparr>fs_flags := HASH_FLAG, fs_type := CHR ''x''\<rparr>))"

definition write_text :: "string \<Rightarrow> format_specs option \<Rightarrow> string res" where
  "write_text s specs = (case specs of Some sp \<Rightarrow> write_str s sp | None \<Rightarrow> reserve_write (length s) s)"

definition write_bool :: "bool \<Rightarrow> format_specs option \<Rightarrow> string res" where
  "write_bool b specs = write_text (if b then ''true'' else ''false'') specs"

text \<open>A C string is its address and the characters up to the terminating zero.\<close>

definition write_cstring :: "nat \<Rightarrow> string \<Rightarrow> format_specs option \<Rightarrow> string res" where
  "write_cstring p s specs =
     (if p = 0 then Inl (Format_error ''string pointer is null'') else write_text s specs)"

section \<open>Arguments\<close>

datatype fmt_arg =
    Arg_none
  | Arg_int int
  | Arg_uint nat
  | Arg_long_long int
  | Arg_ulong_long nat
  | Arg_bool bool
  | Arg_char char
  | Arg_cstring nat string
  | Arg_string string
  | Arg_pointer nat

datatype arg_type =
    none_type | named_arg_type | int_type | uint_type | long_long_type | ulong_long_type
  | bool_type | char_type | double_type | long_double_type | cstring_type | string_type
  | pointer_type | custom_type

fun arg_type_of :: "fmt_arg \<Rightarrow> arg_type" where
  "arg_type_of Arg_none = none_type"
| "arg_type_of (Arg_int _) = int_type"
| "arg_type_of (Arg_uint _) = uint_type"
| "arg_type_of (Arg_long_long _) = long_long_type"
| "arg_type_of (Arg_ulong_long _) = ulong_long_type"
| "arg_type_of (Arg_bool _) = bool_type"
| "arg_type_of (Arg_char _) = char_type"
| "arg_type_of (Arg_cstring _ _) = cstring_type"
| "arg_type_of (Arg_string _) = string_type"
| "arg_type_of (Arg_pointer _) = pointer_type"

text \<open>The values fit their types.\<close>

fun arg_ok :: "fmt_arg \<Rightarrow> bool" where
  "arg_ok (Arg_int v) \<longleftrightarrow> - (2 ^ 31) \<le> v \<and> v < 2 ^ 31"
| "arg_ok (Arg_uint n) \<longleftrightarrow> n < 2 ^ 32"
| "arg_ok (Arg_long_long v) \<longleftrightarrow> - (2 ^ 63) \<le> v \<and> v < 2 ^ 63"
| "arg_ok (Arg_ulong_long n) \<longleftrightarrow> n < 2 ^ 64"
| "arg_ok (Arg_pointer n) \<longleftrightarrow> n < 2 ^ 64"
| "arg_ok (Arg_cstring p s) \<longleftrightarrow> p < 2 ^ 64"
| "arg_ok _ \<longleftrightarrow> True"

definition arg_type_code :: "arg_type \<Rightarrow> nat" where
  "arg_type_code t = (case t of none_type \<Rightarrow> 0 | named_arg_type \<Rightarrow> 1 | int_type \<Rightarrow> 2 | uint_type \<Rightarrow> 3
     | long_long_type \<Rightarrow> 4 | ulong_long_type \<Rightarrow> 5 | bool_type \<Rightarrow> 6 | char_type \<Rightarrow> 7 | double_type \<Rightarrow> 8
     | long_double_type \<Rightarrow> 9 | cstring_type \<Rightarrow> 10 | string_type \<Rightarrow> 11 | pointer_type \<Rightarrow> 12
     | custom_type \<Rightarrow> 13)"

definition is_integral :: "arg_type \<Rightarrow> bool" where
  "is_integral t \<longleftrightarrow> arg_type_code none_type < arg_type_code t \<and> arg_type_code t \<le> arg_type_code char_type"

definition is_arithmetic :: "arg_type \<Rightarrow> bool" where
  "is_arithmetic t \<longleftrightarrow> arg_type_code none_type < arg_type_code t \<and> arg_type_code t \<le> arg_type_code long_double_type"

definition handle_char_specs ::
  "format_specs option \<Rightarrow> 'a res \<Rightarrow> 'a res \<Rightarrow> 'a res" where
  "handle_char_specs specs on_int on_char =
     (case specs of
        None \<Rightarrow> on_char
      | Some s \<Rightarrow>
          if fs_type s \<noteq> NUL \<and> fs_type s \<noteq> CHR ''c'' then on_int
          else if fs_align s = ALIGN_NUMERIC \<or> fs_flags s \<noteq> 0
          then Inl (Format_error ''invalid format specifier for char'')
          else on_char)"

definition handle_cstring_type_spec :: "char \<Rightarrow> 'a res \<Rightarrow> 'a res \<Rightarrow> 'a res" where
  "handle_cstring_type_spec spec on_string on_pointer =
     (if spec = NUL \<or> spec = CHR ''s'' then on_string
      else if spec = CHR ''p'' then on_pointer
      else Inl (Format_error ''invalid type specifier''))"

definition check_type_spec :: "char \<Rightarrow> char \<Rightarrow> unit res" where
  "check_type_spec spec c =
     (if spec \<noteq> NUL \<and> spec \<noteq> c then Inl (Format_error ''invalid type specifier'') else Inr ())"

text \<open>The value of a \<^verbatim>\<open>char\<close>, which is signed.\<close>

definition signed_char :: "char \<Rightarrow> int" where
  "signed_char c = (let n = of_char c :: int in if n < 128 then n else n - 256)"

text \<open>\<^verbatim>\<open>fmt::visit\<close> of an argument with an \<^verbatim>\<open>arg_formatter\<close>.\<close>

definition format_integer :: "fmt_env \<Rightarrow> format_specs option \<Rightarrow> nat \<Rightarrow> int \<Rightarrow> string res" where
  "format_integer env specs w v =
     (case specs of Some s \<Rightarrow> write_int env w v s | None \<Rightarrow> write_decimal env w v)"

definition format_bool :: "fmt_env \<Rightarrow> format_specs option \<Rightarrow> bool \<Rightarrow> string res" where
  "format_bool env specs b =
     (case specs of
        Some s \<Rightarrow> if fs_type s \<noteq> NUL then format_integer env specs 32 (if b then 1 else 0)
                  else write_bool b specs
      | None \<Rightarrow> write_bool b specs)"

fun arg_formatter :: "fmt_env \<Rightarrow> format_specs option \<Rightarrow> fmt_arg \<Rightarrow> string res" where
  "arg_formatter env specs Arg_none = Inl Assert_failed"
| "arg_formatter env specs (Arg_int v) = format_integer env specs 32 v"
| "arg_formatter env specs (Arg_uint n) = format_integer env specs 32 (int n)"
| "arg_formatter env specs (Arg_long_long v) = format_integer env specs 64 v"
| "arg_formatter env specs (Arg_ulong_long n) = format_integer env specs 64 (int n)"
| "arg_formatter env specs (Arg_bool b) = format_bool env specs b"
| "arg_formatter env specs (Arg_char c) =
     handle_char_specs specs (format_integer env specs 32 (signed_char c)) (write_char c specs)"
| "arg_formatter env specs (Arg_cstring p s) =
     (case specs of
        None \<Rightarrow> write_cstring p s specs
      | Some sp \<Rightarrow> handle_cstring_type_spec (fs_type sp) (write_cstring p s specs)
                     (write_pointer env p specs))"
| "arg_formatter env specs (Arg_string s) =
     (case specs of
        None \<Rightarrow> write_text s None
      | Some sp \<Rightarrow> res_bind (check_type_spec (fs_type sp) (CHR ''s'')) (\<lambda>_. write_text s specs))"
| "arg_formatter env specs (Arg_pointer p) =
     (case specs of
        None \<Rightarrow> write_pointer env p None
      | Some sp \<Rightarrow> res_bind (check_type_spec (fs_type sp) (CHR ''p'')) (\<lambda>_. write_pointer env p specs))"

section \<open>Reference texts\<close>

text \<open>A text padded to the width of its specifiers.\<close>

definition pad_text :: "format_specs \<Rightarrow> string \<Rightarrow> string" where
  "pad_text spec txt =
     (let k = fs_width spec - length txt; c = fs_fill spec in
      case fs_align spec of
        ALIGN_RIGHT \<Rightarrow> replicate k c @ txt
      | ALIGN_CENTER \<Rightarrow> replicate (k div 2) c @ txt @ replicate (k - k div 2) c
      | _ \<Rightarrow> txt @ replicate k c)"

text \<open>
  An integer with sign and base prefix: padding goes between prefix and digits for numeric alignment, and so do the
  zeros of a precision.
\<close>

definition int_text :: "format_specs \<Rightarrow> string \<Rightarrow> string \<Rightarrow> string" where
  "int_text spec prefix digits =
     (if fs_align spec = ALIGN_NUMERIC
      then prefix @ replicate (fs_width spec - length prefix - length digits) (fs_fill spec) @ digits
      else pad_text (if fs_align spec = ALIGN_DEFAULT then spec\<lparr>fs_align := ALIGN_RIGHT\<rparr> else spec)
             (prefix @ replicate (nat (fs_precision spec) - length digits) (CHR ''0'') @ digits))"

lemma length_pad_text: "length (pad_text spec txt) = max (fs_width spec) (length txt)"
  by (auto simp: pad_text_def Let_def split: alignment.splits)

lemma length_uninit [simp]: "length (uninit env n) = n"
  by (simp add: uninit_def)

lemma reserve_write_ok [simp]: "length txt = n \<Longrightarrow> reserve_write n txt = Inr txt"
  by (simp add: reserve_write_def)

lemma copy_n_ok [simp]: "n \<le> length s \<Longrightarrow> copy_n s n = Inr (take n s)"
  by (simp add: copy_n_def)

lemma write_padded_ok: "length txt = n \<Longrightarrow> write_padded n spec (Inr txt) = Inr (pad_text spec txt)"
  by (cases "fs_align spec") (auto simp: write_padded_def pad_text_def Let_def)

lemma write_padded_Inl [simp]: "write_padded n spec (Inl e) = Inl e"
  by (simp add: write_padded_def Let_def)

lemma write_int_digits_ok:
  assumes "length digits = n"
  shows "write_int_digits n prefix spec (Inr digits) = Inr (int_text spec prefix digits)"
proof -
  have pad: "write_padded k as (padded_int_writer prefix c m (Inr digits)) =
      Inr (pad_text as (prefix @ replicate m c @ digits))" if "k = length prefix + m + n" for k as c m
    using that assms by (simp add: padded_int_writer_def write_padded_ok)
  consider "fs_align spec = ALIGN_NUMERIC" "fs_width spec > length prefix + n"
    | "fs_align spec = ALIGN_NUMERIC" "fs_width spec \<le> length prefix + n"
    | "fs_align spec \<noteq> ALIGN_NUMERIC" by linarith
  then show ?thesis
  proof cases
    case 1
    then show ?thesis using assms
      by (simp add: write_int_digits_def Let_def pad int_text_def pad_text_def diff_diff_left)
  next
    case 2
    then show ?thesis using assms pad [of _ 0]
      by (simp add: write_int_digits_def Let_def int_text_def pad_text_def diff_diff_left)
  next
    case 3
    then show ?thesis using assms pad [of "length prefix + n" 0]
      by (cases "fs_precision spec > int n")
         (simp_all add: write_int_digits_def Let_def int_text_def pad nat_le_iff)
  qed
qed

lemma write_int_digits_Inl [simp]: "write_int_digits n prefix spec (Inl e) = Inl e"
  by (simp add: write_int_digits_def padded_int_writer_def Let_def split: prod.splits)

section \<open>Integers are written correctly\<close>

definition int_width :: "nat \<Rightarrow> bool" where
  "int_width w \<longleftrightarrow> w = 32 \<or> w = 64"

definition int_fits :: "nat \<Rightarrow> int \<Rightarrow> bool" where
  "int_fits w v \<longleftrightarrow> - (2 ^ (w - 1)) \<le> v \<and> v < 2 ^ w"

lemma count_digits_correct: "int_width w \<Longrightarrow> n < 2 ^ w \<Longrightarrow> count_digits w n = length (decimal n)"
  by (auto simp: int_width_def count_digits_def count_digits32_correct count_digits64_correct)

lemma unsigned_of_nonneg: "0 \<le> v \<Longrightarrow> v < 2 ^ w \<Longrightarrow> unsigned_of w v = nat v"
  by (simp add: unsigned_of_def)

lemma neg_unsigned_of:
  assumes "v < 0" "- (2 ^ w) < v"
  shows "neg_unsigned w (unsigned_of w v) = nat (- v)"
proof -
  have "v mod 2 ^ w = v + 2 ^ w" using assms by (simp add: mod_add_self2 [symmetric, of v] del: mod_add_self2)
  moreover have "nat (2 ^ w - (- v)) = nat (2 ^ w) - nat (- v)"
    using assms by (intro nat_diff_distrib) auto
  ultimately have "unsigned_of w v = 2 ^ w - nat (- v)"
    by (simp add: unsigned_of_def nat_power_eq add.commute)
  moreover have "nat (- v) < 2 ^ w" using assms by (simp add: nat_less_iff)
  ultimately show ?thesis by (simp add: neg_unsigned_def)
qed

lemma abs_value_correct:
  assumes "int_width w" "int_fits w v"
  shows "(if v < 0 then neg_unsigned w (unsigned_of w v) else unsigned_of w v) = nat \<bar>v\<bar>"
    "nat \<bar>v\<bar> < 2 ^ w"
  using assms by (auto simp: int_width_def int_fits_def neg_unsigned_of unsigned_of_nonneg)

lemma out_decimal_No_sep:
  assumes "int_width w" "n < 2 ^ w"
  shows "out_decimal env w n (count_digits w n) No_sep = Inr (decimal n)"
proof -
  have "length (decimal n) \<le> digits10 w + 2"
    using length_decimal_width [of w n] assms by (simp add: int_width_def)
  then show ?thesis
    using format_decimal_buf_No_sep [of n "uninit env (length (decimal n))"]
      format_decimal_out_No_sep [of n w "uninit env (digits10 w + 2)"]
    by (simp add: out_decimal_def count_digits_correct [OF assms] wrote_def)
qed

lemma out_decimal_Sep:
  assumes "env_contiguous env \<or> length (grouped_decimal sep n) \<le> digits10 w + 2"
  shows "out_decimal env w n (length (grouped_decimal sep n)) (Sep sep 0) = Inr (grouped_decimal sep n)"
proof (cases "env_contiguous env")
  case True
  let ?g = "grouped_decimal sep n"
  show ?thesis
    using True format_decimal_loop_Sep [of sep 0 n "[]" "length ?g" "uninit env (length ?g)"]
    by (simp add: out_decimal_def format_decimal_buf_def grouped_decimal_def wrote_def)
qed (use assms format_decimal_out_Sep [of sep n w "uninit env (digits10 w + 2)"] in
      \<open>simp add: out_decimal_def\<close>)

lemma out_uint_correct:
  assumes "0 < bits" "n < 2 ^ w"
  shows "out_uint env w bits n (count_digits_base bits n) upper = Inr (base_text bits upper n)"
proof (cases "env_contiguous env")
  case True
  let ?t = "base_text bits upper n"
  have "count_digits_base bits n = length ?t" using assms by (simp add: count_digits_base_correct)
  then show ?thesis
    using True format_uint_loop_correct [OF assms(1), of upper n "[]" "length ?t" "uninit env (length ?t)"]
    by (simp add: out_uint_def format_uint_buf_def wrote_def)
qed (use assms format_uint_out_correct [of bits n w "uninit env (w div bits + 2)" upper] in
      \<open>simp add: out_uint_def\<close>)

lemma write_uint_ok:
  assumes "0 < bits" "n < 2 ^ w"
  shows "write_int_digits (count_digits_base bits n) prefix spec
      (out_uint env w bits n (count_digits_base bits n) upper) =
    Inr (int_text spec prefix (base_text bits upper n))"
  unfolding out_uint_correct [OF assms]
  by (rule write_int_digits_ok) (simp add: count_digits_base_correct assms)

lemma length_octal: "length (base_digits 8 n) = count_digits_base 3 n"
  using count_digits_base_correct [of 3 n] by simp

lemma write_decimal_correct:
  assumes "int_width w" "int_fits w v"
  shows "write_decimal env w v = Inr (signed_decimal v)"
proof -
  note a = abs_value_correct [OF assms]
  show ?thesis
    unfolding write_decimal_def Let_def a(1) out_decimal_No_sep [OF assms(1) a(2)]
    by (simp add: signed_decimal_def count_digits_correct [OF assms(1) a(2)])
qed

text \<open>Sign, digits and base prefix of an integer under its specifiers.\<close>

definition sign_text :: "format_specs \<Rightarrow> int \<Rightarrow> string" where
  "sign_text spec v =
     (if v < 0 then ''-''
      else if fs_flag spec SIGN_FLAG then (if fs_flag spec PLUS_FLAG then ''+'' else '' '') else [])"

definition digits_text :: "fmt_env \<Rightarrow> char \<Rightarrow> nat \<Rightarrow> string" where
  "digits_text env t n =
     handle_int_type_spec t (decimal n) (base_text 4 (t \<noteq> CHR ''x'') n) (base_text 1 False n)
       (base_text 3 False n) (grouped_decimal [env_sep env] n) []"

definition base_prefix :: "format_specs \<Rightarrow> string \<Rightarrow> string" where
  "base_prefix spec digits =
     (if \<not> fs_flag spec HASH_FLAG then []
      else handle_int_type_spec (fs_type spec) [] [CHR ''0'', fs_type spec] [CHR ''0'', fs_type spec]
             (if fs_precision spec \<le> int (length digits) then ''0'' else []) [] [])"

definition int_type_chars :: "char set" where
  "int_type_chars = {NUL, CHR ''d'', CHR ''x'', CHR ''X'', CHR ''b'', CHR ''B'', CHR ''o'', CHR ''n''}"

lemma int_writer_new_eq:
  assumes "int_width w" "int_fits w v"
  shows "int_writer_new w v s =
    \<lparr>iw_width = w, iw_spec = s, iw_abs_value = nat \<bar>v\<bar>, iw_prefix = sign_text s v\<rparr>"
  using abs_value_correct [OF assms] by (auto simp: int_writer_new_def sign_text_def Let_def)

lemma write_int_correct:
  assumes "int_width w" "int_fits w v"
    and "fs_type spec = CHR ''n'' \<longrightarrow>
      env_contiguous env \<or> length (grouped_decimal [env_sep env] (nat \<bar>v\<bar>)) \<le> digits10 w + 2"
  shows "write_int env w v spec =
    (if fs_type spec \<in> int_type_chars
     then let ds = digits_text env (fs_type spec) (nat \<bar>v\<bar>)
          in Inr (int_text spec (sign_text spec v @ base_prefix spec ds) ds)
     else Inl (Format_error ''invalid type specifier''))"
proof -
  let ?n = "nat \<bar>v\<bar>" and ?t = "fs_type spec"
  note n = abs_value_correct(2) [OF assms(1,2)]
  note iw = int_writer_new_eq [OF assms(1,2), of spec]
  note uint = write_uint_ok [OF _ n] length_octal
  have num: "count_digits w ?n + (count_digits w ?n - Suc 0) div 3 = length (grouped_decimal [env_sep env] ?n)"
    by (simp add: length_grouped_decimal count_digits_correct [OF assms(1) n])
  consider "?t = NUL \<or> ?t = CHR ''d''" | "?t = CHR ''x'' \<or> ?t = CHR ''X''" | "?t = CHR ''b'' \<or> ?t = CHR ''B''"
    | "?t = CHR ''o''" | "?t = CHR ''n''" | "?t \<notin> int_type_chars"
    by (auto simp: int_type_chars_def)
  then show ?thesis
  proof cases
    case 1
    then show ?thesis
      unfolding write_int_def iw
      by (auto simp: handle_int_type_spec_def int_type_chars_def digits_text_def base_prefix_def on_dec_def
          Let_def count_digits_correct [OF assms(1) n] write_int_digits_ok
          out_decimal_No_sep [OF assms(1) n, unfolded count_digits_correct [OF assms(1) n]])
  next
    case 2
    then show ?thesis
      unfolding write_int_def iw
      by (auto simp: handle_int_type_spec_def int_type_chars_def digits_text_def base_prefix_def on_hex_def
          hash_prefix_def Let_def uint)
  next
    case 3
    then show ?thesis
      unfolding write_int_def iw
      by (auto simp: handle_int_type_spec_def int_type_chars_def digits_text_def base_prefix_def on_bin_def
          hash_prefix_def Let_def uint)
  next
    case 4
    then show ?thesis
      unfolding write_int_def iw
      by (auto simp: handle_int_type_spec_def int_type_chars_def digits_text_def base_prefix_def on_oct_def
          Let_def uint)
  next
    case 5
    then show ?thesis
      unfolding write_int_def iw
      using assms(3) out_decimal_Sep [of env "[env_sep env]" ?n w]
      by (simp add: handle_int_type_spec_def int_type_chars_def digits_text_def base_prefix_def on_num_def
          Let_def num write_int_digits_ok)
  next
    case 6
    then show ?thesis
      by (simp add: write_int_def handle_int_type_spec_def int_type_chars_def Let_def)
  qed
qed

section \<open>What can go wrong\<close>

text \<open>The only failure of a formatting function is its own exception.\<close>

definition fmt_safe :: "'a res \<Rightarrow> bool" where
  "fmt_safe r = (case r of Inr _ \<Rightarrow> True | Inl (Format_error _) \<Rightarrow> True | Inl _ \<Rightarrow> False)"

lemma fmt_safe_simps [simp]:
  "fmt_safe (Inr x)" "fmt_safe (Inl (Format_error m))" "\<not> fmt_safe (Inl Out_of_bounds)" "\<not> fmt_safe (Inl Assert_failed)"
  by (simp_all add: fmt_safe_def)

lemma fmt_safe_bind: "fmt_safe m \<Longrightarrow> (\<And>x. m = Inr x \<Longrightarrow> fmt_safe (f x)) \<Longrightarrow> fmt_safe (res_bind m f)"
  by (cases m) (auto simp: fmt_safe_def split: cpp_error.splits)

lemma write_str_ok:
  "write_str s spec =
     Inr (pad_text spec (if fs_precision spec < 0 then s else take (nat (fs_precision spec)) s))"
  by (auto simp: write_str_def Let_def write_padded_ok)

lemma write_text_ok:
  "write_text s specs = Inr (case specs of None \<Rightarrow> s
     | Some sp \<Rightarrow> pad_text sp (if fs_precision sp < 0 then s else take (nat (fs_precision sp)) s))"
  by (simp add: write_text_def write_str_ok split: option.splits)

lemma write_char_ok: "write_char c specs = Inr (case specs of None \<Rightarrow> [c] | Some sp \<Rightarrow> pad_text sp [c])"
  by (simp add: write_char_def write_padded_ok split: option.splits)

lemma signed_char_fits: "int_fits 32 (signed_char c)"
proof -
  have "(of_char c :: int) mod 256 = of_char c" by (rule of_char_mod_256)
  then have "0 \<le> (of_char c :: int)" "(of_char c :: int) < 256"
    by (metis pos_mod_sign pos_mod_bound zero_less_numeral)+
  then show ?thesis by (simp add: int_fits_def signed_char_def Let_def)
qed

text \<open>A specifier \<open>n\<close> asks for separated digits.\<close>

definition separated :: "format_specs option \<Rightarrow> bool" where
  "separated specs = (case specs of None \<Rightarrow> False | Some sp \<Rightarrow> fs_type sp = CHR ''n'')"

lemma format_integer_safe:
  assumes "int_width w" "int_fits w v" "env_contiguous env \<or> \<not> separated specs"
  shows "fmt_safe (format_integer env specs w v)"
  using assms
  by (cases specs) (auto simp: format_integer_def write_decimal_correct write_int_correct separated_def Let_def)

lemma write_pointer_safe: "p < 2 ^ 64 \<Longrightarrow> fmt_safe (write_pointer env p specs)"
  by (auto simp: write_pointer_def write_int_correct int_width_def int_fits_def Let_def)

lemma arg_formatter_safe:
  assumes "arg_ok arg" "arg \<noteq> Arg_none" "env_contiguous env \<or> \<not> separated specs"
  shows "fmt_safe (arg_formatter env specs arg)"
proof -
  have int: "fmt_safe (format_integer env specs w v)" if "int_width w" "int_fits w v" for w v
    using format_integer_safe that assms(3) by blast
  have w: "int_width 32" "int_width 64" by (simp_all add: int_width_def)
  show ?thesis
  proof (cases arg)
    case (Arg_char c)
    then show ?thesis using int [OF w(1) signed_char_fits]
      by (auto simp: handle_char_specs_def write_char_ok split: option.splits)
  next
    case (Arg_cstring p s)
    then show ?thesis using assms(1) write_pointer_safe [of p]
      by (auto simp: handle_cstring_type_spec_def write_cstring_def write_text_ok split: option.splits)
  next
    case (Arg_pointer p)
    then show ?thesis using assms(1) write_pointer_safe [of p]
      by (auto simp: check_type_spec_def split: option.splits)
  next
    case (Arg_bool b)
    then show ?thesis using int [OF w(1)]
      by (auto simp: format_bool_def write_bool_def write_text_ok int_fits_def split: option.splits)
  next
    case (Arg_string s)
    then show ?thesis by (auto simp: check_type_spec_def write_text_ok split: option.splits)
  qed (use assms int [OF w(1)] int [OF w(2)] in \<open>auto simp: int_fits_def\<close>)
qed

text \<open>The array on the stack has no room for separators.\<close>

lemma write_int_num_overflow:
  assumes "int_width w" "int_fits w v" "fs_type spec = CHR ''n''" "\<not> env_contiguous env"
    and "digits10 w + 2 < length (grouped_decimal [env_sep env] (nat \<bar>v\<bar>))"
  shows "write_int env w v spec = Inl Out_of_bounds"
proof -
  let ?n = "nat \<bar>v\<bar>"
  note n = abs_value_correct(2) [OF assms(1,2)]
  have num: "count_digits w ?n + (count_digits w ?n - Suc 0) div 3 = length (grouped_decimal [env_sep env] ?n)"
    by (simp add: length_grouped_decimal count_digits_correct [OF assms(1) n])
  show ?thesis
    using assms(3,4,5) format_decimal_out_overflow [OF assms(5), of "uninit env (digits10 w + 2)"]
    by (simp add: write_int_def int_writer_new_eq [OF assms(1,2)] handle_int_type_spec_def on_num_def Let_def num
        out_decimal_def)
qed

section \<open>Properties\<close>

text \<open>An integer of 32 or 64 bits is written as its sign, the prefix of its base and its digits in decimal,
  hexadecimal, binary or octal or in groups of three, with the zeros of a numeric alignment or of a precision after the
  prefix and padded on the side of its alignment; an unknown type is an error. The output
  is a contiguous one, or digits are not separated.\<close>

theorem write_int_text:
  assumes "w = 32 \<or> w = 64" "- (2 ^ (w - 1)) \<le> v" "v < 2 ^ w"
    and "env_contiguous env \<or> fs_type spec \<noteq> CHR ''n''"
  shows "write_int env w v spec =
    (if fs_type spec \<in> int_type_chars
     then let ds = digits_text env (fs_type spec) (nat \<bar>v\<bar>)
          in Inr (int_text spec (sign_text spec v @ base_prefix spec ds) ds)
     else Inl (Format_error ''invalid type specifier''))"
  using assms by (intro write_int_correct) (auto simp: int_width_def int_fits_def)

theorem write_int_text_witness:
  "write_int \<lparr>env_sep = CHR '','', env_contiguous = False, env_junk = (\<lambda>_. CHR ''?'')\<rparr> 32 (-26)
     (default_specs\<lparr>fs_width := 7, fs_flags := HASH_FLAG, fs_type := CHR ''x''\<rparr>) = Inr ''  -0x1a''"
proof -
  have "base_digits 16 26 = [1, 10]" by (simp add: text_simps)
  then show ?thesis
    by (subst write_int_text)
       (simp_all add: default_specs_def int_type_chars_def digits_text_def handle_int_type_spec_def base_text_def
         base_char_def int_text_def pad_text_def sign_text_def base_prefix_def fs_flag_def eval_nat_numeral)
qed

text \<open>Writing a separated number to an output that is not contiguous goes through an array on the stack that
  has room for the digits but not for the separators: for every 32-bit argument of ten digits, and every 64-bit
  argument of seventeen digits or more, it is written out of bounds.\<close>

theorem write_int_separated_overflow:
  assumes "w = 32 \<or> w = 64" "- (2 ^ (w - 1)) \<le> v" "v < 2 ^ w"
    and "fs_type spec = CHR ''n''" "\<not> env_contiguous env"
    and "if w = 32 then 10 ^ 9 \<le> \<bar>v\<bar> else 10 ^ 16 \<le> \<bar>v\<bar>"
  shows "write_int env w v spec = Inl Out_of_bounds"
proof (rule write_int_num_overflow)
  let ?n = "nat \<bar>v\<bar>"
  have "length (decimal ?n) \<ge> (if w = 32 then 10 else 17)"
    using assms(6) length_decimal_ge [of 9 ?n] length_decimal_ge [of 16 ?n] by (auto simp: le_nat_iff split: if_splits)
  then show "digits10 w + 2 < length (grouped_decimal [env_sep env] ?n)"
    using assms(1) by (auto simp: length_grouped_decimal digits10_def)
qed (use assms in \<open>auto simp: int_width_def int_fits_def\<close>)

theorem write_int_separated_overflow_witness:
  "write_int \<lparr>env_sep = CHR '','', env_contiguous = False, env_junk = (\<lambda>_. CHR ''?'')\<rparr> 32 1000000000
     (default_specs\<lparr>fs_type := CHR ''n''\<rparr>) = Inl Out_of_bounds"
  by (rule write_int_separated_overflow) simp_all

end
