(* ===== verification/Fmt_Format.thy ===== *)
theory Fmt_Format
  imports Fmt_Writer
begin

text \<open>
  Format strings and their arguments (\<^verbatim>\<open>fmt/bundled/core.h\<close>, \<^verbatim>\<open>fmt/bundled/format.h\<close>): the
  packed array of arguments with the types in one 64-bit number, the lookup by index and by name, the parser of format
  specifiers with the checks against the type of the argument, and the parser of format strings that
  drives the writer of the theory \<open>Fmt_Writer\<close>.

  The lemmas show that arguments are found again in the packed array, that parsing ends and fails only with
  the exception of the library, and what formatted texts are.
\<close>

section \<open>Arguments\<close>

text \<open>
  A stored argument is a plain value or a named one. A value carries its type, which stands for the member of the
  union that was written; reading another member is an error.
\<close>

datatype store_arg = Plain fmt_arg | Named string fmt_arg

fun store_type :: "store_arg \<Rightarrow> arg_type" where
  "store_type (Plain a) = arg_type_of a"
| "store_type (Named _ _) = named_arg_type"

text \<open>\<^verbatim>\<open>basic_format_args\<close>: the types, and the array of values or of values with types.\<close>

record format_args =
  fa_types :: nat
  fa_values :: "store_arg list"

abbreviation (input) max_packed_args :: nat where "max_packed_args \<equiv> 15"

fun get_types :: "store_arg list \<Rightarrow> nat" where
  "get_types [] = 0"
| "get_types (a # as) = arg_type_code (store_type a) OR (push_bit 4 (get_types as)) mod 2 ^ 64"

definition store_types :: "store_arg list \<Rightarrow> nat" where
  "store_types as =
     (if length as < max_packed_args then get_types as else (2 ^ 64 - length as) mod 2 ^ 64)"

definition make_format_args :: "store_arg list \<Rightarrow> format_args" where
  "make_format_args as =
     \<lparr>fa_types = store_types as,
      fa_values = (if length as < max_packed_args \<and> as \<noteq> [] then as else as @ [Plain Arg_none])\<rparr>"

definition args_type :: "format_args \<Rightarrow> nat \<Rightarrow> nat" where
  "args_type fa index =
     (let shift = index * 4; mask = 15
      in drop_bit shift (fa_types fa AND (push_bit shift mask mod 2 ^ 64)))"

definition args_at :: "format_args \<Rightarrow> nat \<Rightarrow> store_arg res" where
  "args_at fa index =
     (if index < length (fa_values fa) then Inr (fa_values fa ! index) else Inl Out_of_bounds)"

definition value_at :: "format_args \<Rightarrow> nat \<Rightarrow> nat \<Rightarrow> store_arg res" where
  "value_at fa index t =
     res_bind (args_at fa index) (\<lambda>a.
       if arg_type_code (store_type a) = t then Inr a else Inl Out_of_bounds)"

definition args_do_get :: "format_args \<Rightarrow> nat \<Rightarrow> store_arg res" where
  "args_do_get fa index =
     (if 2 ^ 63 \<le> fa_types fa then
        let num_args = 2 ^ 64 - fa_types fa in
        if index < num_args then args_at fa index else Inr (Plain Arg_none)
      else if index > max_packed_args then Inr (Plain Arg_none)
      else if args_type fa index = 0 then Inr (Plain Arg_none)
      else value_at fa index (args_type fa index))"

definition deserialize :: "store_arg \<Rightarrow> fmt_arg" where
  "deserialize a = (case a of Plain x \<Rightarrow> x | Named _ x \<Rightarrow> x)"

definition args_get :: "format_args \<Rightarrow> nat \<Rightarrow> fmt_arg res" where
  "args_get fa index = res_bind (args_do_get fa index) (\<lambda>a. Inr (deserialize a))"

text \<open>The map of named arguments.\<close>

definition arg_map_push :: "store_arg \<Rightarrow> (string \<times> fmt_arg) list \<Rightarrow> (string \<times> fmt_arg) list" where
  "arg_map_push a m = (case a of Named nm x \<Rightarrow> m @ [(nm, x)] | Plain _ \<Rightarrow> m)"

fun arg_map_values :: "format_args \<Rightarrow> nat list \<Rightarrow> (string \<times> fmt_arg) list \<Rightarrow> (string \<times> fmt_arg) list res" where
  "arg_map_values fa [] m = Inr m"
| "arg_map_values fa (i # is) m =
     (if args_type fa i = 0 then Inr m
      else if args_type fa i = arg_type_code named_arg_type
      then res_bind (value_at fa i (args_type fa i)) (\<lambda>a. arg_map_values fa is (arg_map_push a m))
      else arg_map_values fa is m)"

fun arg_map_args :: "store_arg list \<Rightarrow> (string \<times> fmt_arg) list \<Rightarrow> (string \<times> fmt_arg) list res" where
  "arg_map_args [] m = Inl Out_of_bounds"
| "arg_map_args (a # as) m =
     (if store_type a = none_type then Inr m else arg_map_args as (arg_map_push a m))"

definition arg_map_init :: "format_args \<Rightarrow> (string \<times> fmt_arg) list res" where
  "arg_map_init fa =
     (if args_type fa (max_packed_args - 1) = 0
      then arg_map_values fa [0..<16] [] else arg_map_args (fa_values fa) [])"

fun arg_map_find :: "(string \<times> fmt_arg) list \<Rightarrow> string \<Rightarrow> fmt_arg" where
  "arg_map_find [] nm = Arg_none"
| "arg_map_find ((n, a) # m) nm = (if n = nm then a else arg_map_find m nm)"

section \<open>Contexts\<close>

datatype arg_id = Auto_id | Index_id nat | Name_id string

definition fmt_throw :: "string \<Rightarrow> 'a res" where
  "fmt_throw msg = Inl (Format_error msg)"

definition next_arg_id :: "int \<Rightarrow> (nat \<times> int) res" where
  "next_arg_id next =
     (if next \<ge> 0 then Inr (nat next, next + 1)
      else fmt_throw ''cannot switch from manual to automatic argument indexing'')"

definition check_arg_id :: "int \<Rightarrow> int res" where
  "check_arg_id next =
     (if next > 0 then fmt_throw ''cannot switch from automatic to manual argument indexing''
      else Inr (-1))"

definition do_get_arg :: "format_args \<Rightarrow> nat \<Rightarrow> fmt_arg res" where
  "do_get_arg fa i =
     res_bind (args_get fa i) (\<lambda>a.
       if a = Arg_none then fmt_throw ''argument index out of range'' else Inr a)"

definition get_arg_name :: "format_args \<Rightarrow> string \<Rightarrow> fmt_arg res" where
  "get_arg_name fa nm =
     res_bind (arg_map_init fa) (\<lambda>m.
       let a = arg_map_find m nm in
       if arg_type_of a = none_type then fmt_throw ''argument not found'' else Inr a)"

text \<open>\<^verbatim>\<open>get_arg\<close> of an identifier; the counter of automatic indexing is the state.\<close>

fun get_arg :: "format_args \<Rightarrow> arg_id \<Rightarrow> int \<Rightarrow> (fmt_arg \<times> int) res" where
  "get_arg fa Auto_id next =
     res_bind (next_arg_id next) (\<lambda>(i, next). res_bind (do_get_arg fa i) (\<lambda>a. Inr (a, next)))"
| "get_arg fa (Index_id i) next =
     res_bind (check_arg_id next) (\<lambda>next. res_bind (do_get_arg fa i) (\<lambda>a. Inr (a, next)))"
| "get_arg fa (Name_id nm) next = res_bind (get_arg_name fa nm) (\<lambda>a. Inr (a, next))"

section \<open>Scanning\<close>

text \<open>The rest of the format string; its end reads as a zero character.\<close>

definition at_it :: "string \<Rightarrow> char" where
  "at_it s = (case s of [] \<Rightarrow> NUL | c # _ \<Rightarrow> c)"

definition is_digit_char :: "char \<Rightarrow> bool" where
  "is_digit_char c \<longleftrightarrow> (48 :: nat) \<le> of_char c \<and> of_char c \<le> (57 :: nat)"

definition is_name_start :: "char \<Rightarrow> bool" where
  "is_name_start c \<longleftrightarrow>
     ((97 :: nat) \<le> of_char c \<and> of_char c \<le> (122 :: nat)) \<or>
     ((65 :: nat) \<le> of_char c \<and> of_char c \<le> (90 :: nat)) \<or> c = CHR ''_''"

definition max_int :: nat where
  "max_int = 2147483647"

fun parse_int_loop :: "nat \<Rightarrow> string \<Rightarrow> nat \<times> string" where
  "parse_int_loop v [] = (v, [])"
| "parse_int_loop v (c # s) =
     (if v > max_int div 10 then (max_int + 1, c # s)
      else let v = v * 10 + (of_char c - 48) in
        if is_digit_char (at_it s) then parse_int_loop v s else (v, s))"

definition parse_nonnegative_int :: "string \<Rightarrow> (nat \<times> string) res" where
  "parse_nonnegative_int s =
     (let (v, s) = parse_int_loop 0 s in
      if v > max_int then fmt_throw ''number is too big'' else Inr (v, s))"

definition parse_arg_id :: "string \<Rightarrow> (arg_id \<times> string) res" where
  "parse_arg_id s =
     (let c = at_it s in
      if c = CHR ''}'' \<or> c = CHR '':'' then Inr (Auto_id, s)
      else if is_digit_char c then
        res_bind (parse_nonnegative_int s) (\<lambda>(index, s).
          if at_it s \<noteq> CHR ''}'' \<and> at_it s \<noteq> CHR '':'' then fmt_throw ''invalid format string''
          else Inr (Index_id index, s))
      else if \<not> is_name_start c then fmt_throw ''invalid format string''
      else
        let nm = takeWhile (\<lambda>c. is_name_start c \<or> is_digit_char c) s
        in Inr (Name_id nm, drop (length nm) s))"

section \<open>Format specifiers\<close>

text \<open>The handler: the specifiers so far and the counter of automatic indexing.\<close>

type_synonym specs_state = "format_specs \<times> int"

definition require_numeric_argument :: "arg_type \<Rightarrow> unit res" where
  "require_numeric_argument t =
     (if \<not> is_arithmetic t then fmt_throw ''format specifier requires numeric argument'' else Inr ())"

definition check_sign :: "arg_type \<Rightarrow> unit res" where
  "check_sign t =
     res_bind (require_numeric_argument t) (\<lambda>_.
       if is_integral t \<and> t \<noteq> int_type \<and> t \<noteq> long_long_type \<and> t \<noteq> char_type
       then fmt_throw ''format specifier requires signed argument'' else Inr ())"

definition on_fill :: "char \<Rightarrow> specs_state \<Rightarrow> specs_state" where
  "on_fill c = (\<lambda>(sp, n). (sp\<lparr>fs_fill := c\<rparr>, n))"

definition on_align :: "arg_type \<Rightarrow> alignment \<Rightarrow> specs_state \<Rightarrow> specs_state res" where
  "on_align t a = (\<lambda>(sp, n).
     res_bind (if a = ALIGN_NUMERIC then require_numeric_argument t else Inr ()) (\<lambda>_.
       Inr (sp\<lparr>fs_align := a\<rparr>, n)))"

definition on_sign :: "arg_type \<Rightarrow> nat \<Rightarrow> specs_state \<Rightarrow> specs_state res" where
  "on_sign t flags = (\<lambda>(sp, n).
     res_bind (check_sign t) (\<lambda>_. Inr (sp\<lparr>fs_flags := fs_flags sp OR flags\<rparr>, n)))"

definition on_hash :: "arg_type \<Rightarrow> specs_state \<Rightarrow> specs_state res" where
  "on_hash t = (\<lambda>(sp, n).
     res_bind (require_numeric_argument t) (\<lambda>_. Inr (sp\<lparr>fs_flags := fs_flags sp OR HASH_FLAG\<rparr>, n)))"

definition on_zero :: "arg_type \<Rightarrow> specs_state \<Rightarrow> specs_state res" where
  "on_zero t = (\<lambda>(sp, n).
     res_bind (require_numeric_argument t) (\<lambda>_.
       Inr (sp\<lparr>fs_align := ALIGN_NUMERIC, fs_fill := CHR ''0''\<rparr>, n)))"

definition on_width :: "nat \<Rightarrow> specs_state \<Rightarrow> specs_state" where
  "on_width w = (\<lambda>(sp, n). (sp\<lparr>fs_width := w\<rparr>, n))"

definition on_precision :: "nat \<Rightarrow> specs_state \<Rightarrow> specs_state" where
  "on_precision p = (\<lambda>(sp, n). (sp\<lparr>fs_precision := int p\<rparr>, n))"

definition end_precision :: "arg_type \<Rightarrow> unit res" where
  "end_precision t =
     (if is_integral t \<or> t = pointer_type
      then fmt_throw ''precision not allowed for this argument type'' else Inr ())"

definition on_type :: "char \<Rightarrow> specs_state \<Rightarrow> specs_state" where
  "on_type c = (\<lambda>(sp, n). (sp\<lparr>fs_type := c\<rparr>, n))"

text \<open>\<^verbatim>\<open>width_checker\<close> and \<^verbatim>\<open>precision_checker\<close>, which differ in their messages.\<close>

fun spec_checker :: "string \<Rightarrow> fmt_arg \<Rightarrow> nat res" where
  "spec_checker what (Arg_int v) = (if v < 0 then fmt_throw (''negative '' @ what) else Inr (nat v))"
| "spec_checker what (Arg_uint n) = Inr n"
| "spec_checker what (Arg_long_long v) = (if v < 0 then fmt_throw (''negative '' @ what) else Inr (nat v))"
| "spec_checker what (Arg_ulong_long n) = Inr n"
| "spec_checker what _ = fmt_throw (what @ '' is not integer'')"

definition set_dynamic_spec :: "string \<Rightarrow> fmt_arg \<Rightarrow> nat res" where
  "set_dynamic_spec what a =
     res_bind (spec_checker what a) (\<lambda>big_value.
       if big_value > max_int then fmt_throw ''number is too big'' else Inr big_value)"

definition on_dynamic_width :: "format_args \<Rightarrow> arg_id \<Rightarrow> specs_state \<Rightarrow> specs_state res" where
  "on_dynamic_width fa aid = (\<lambda>(sp, n).
     res_bind (get_arg fa aid n) (\<lambda>(a, n).
     res_bind (set_dynamic_spec ''width'' a) (\<lambda>w. Inr (on_width w (sp, n)))))"

definition on_dynamic_precision :: "format_args \<Rightarrow> arg_id \<Rightarrow> specs_state \<Rightarrow> specs_state res" where
  "on_dynamic_precision fa aid = (\<lambda>(sp, n).
     res_bind (get_arg fa aid n) (\<lambda>(a, n).
     res_bind (set_dynamic_spec ''precision'' a) (\<lambda>p. Inr (on_precision p (sp, n)))))"

text \<open>The stages of \<^verbatim>\<open>parse_format_specs\<close>, in their order.\<close>

definition align_of :: "char \<Rightarrow> alignment" where
  "align_of c =
     (if c = CHR ''<'' then ALIGN_LEFT else if c = CHR ''>'' then ALIGN_RIGHT
      else if c = CHR ''='' then ALIGN_NUMERIC else if c = CHR ''^'' then ALIGN_CENTER
      else ALIGN_DEFAULT)"

definition parse_align :: "arg_type \<Rightarrow> string \<Rightarrow> specs_state \<Rightarrow> (string \<times> specs_state) res" where
  "parse_align t it st =
     (let c = at_it it;
          a1 = align_of (at_it (drop 1 it));
          a0 = align_of c
      in if a1 \<noteq> ALIGN_DEFAULT then
           (if c = CHR ''{'' then fmt_throw (''invalid fill character '' @ [CHR 0x27, CHR ''{'', CHR 0x27])
            else res_bind (on_align t a1 (on_fill c st)) (\<lambda>st. Inr (drop 2 it, st)))
         else if a0 \<noteq> ALIGN_DEFAULT then
           res_bind (on_align t a0 st) (\<lambda>st. Inr (drop 1 it, st))
         else Inr (it, st))"

definition parse_sign :: "arg_type \<Rightarrow> string \<Rightarrow> specs_state \<Rightarrow> (string \<times> specs_state) res" where
  "parse_sign t it st =
     (if at_it it = CHR ''+'' then
        res_bind (on_sign t (SIGN_FLAG OR PLUS_FLAG) st) (\<lambda>st. Inr (drop 1 it, st))
      else if at_it it = CHR ''-'' then
        res_bind (on_sign t MINUS_FLAG st) (\<lambda>st. Inr (drop 1 it, st))
      else if at_it it = CHR '' '' then
        res_bind (on_sign t SIGN_FLAG st) (\<lambda>st. Inr (drop 1 it, st))
      else Inr (it, st))"

definition parse_hash_zero :: "arg_type \<Rightarrow> string \<Rightarrow> specs_state \<Rightarrow> (string \<times> specs_state) res" where
  "parse_hash_zero t it st =
     res_bind (if at_it it = CHR ''#'' then res_bind (on_hash t st) (\<lambda>st. Inr (drop 1 it, st))
               else Inr (it, st)) (\<lambda>(it, st).
     if at_it it = CHR ''0'' then res_bind (on_zero t st) (\<lambda>st. Inr (drop 1 it, st))
     else Inr (it, st))"

text \<open>The braces of a dynamic width or precision.\<close>

definition parse_dynamic ::
  "(arg_id \<Rightarrow> specs_state \<Rightarrow> specs_state res) \<Rightarrow> string \<Rightarrow> specs_state \<Rightarrow> (string \<times> specs_state) res" where
  "parse_dynamic handler it st =
     res_bind (parse_arg_id (drop 1 it)) (\<lambda>(aid, it).
     res_bind (handler aid st) (\<lambda>st.
       if at_it it \<noteq> CHR ''}'' then fmt_throw ''invalid format string'' else Inr (drop 1 it, st)))"

definition parse_width :: "format_args \<Rightarrow> string \<Rightarrow> specs_state \<Rightarrow> (string \<times> specs_state) res" where
  "parse_width fa it st =
     (if is_digit_char (at_it it) then
        res_bind (parse_nonnegative_int it) (\<lambda>(w, it). Inr (it, on_width w st))
      else if at_it it = CHR ''{'' then parse_dynamic (on_dynamic_width fa) it st
      else Inr (it, st))"

definition parse_precision ::
  "format_args \<Rightarrow> arg_type \<Rightarrow> string \<Rightarrow> specs_state \<Rightarrow> (string \<times> specs_state) res" where
  "parse_precision fa t it st =
     (if at_it it = CHR ''.'' then
        let it = drop 1 it in
        res_bind
          (if is_digit_char (at_it it) then
             res_bind (parse_nonnegative_int it) (\<lambda>(p, it). Inr (it, on_precision p st))
           else if at_it it = CHR ''{'' then parse_dynamic (on_dynamic_precision fa) it st
           else fmt_throw ''missing precision specifier'') (\<lambda>(it, st).
        res_bind (end_precision t) (\<lambda>_. Inr (it, st)))
      else Inr (it, st))"

definition parse_type :: "string \<Rightarrow> specs_state \<Rightarrow> string \<times> specs_state" where
  "parse_type it st =
     (if at_it it \<noteq> CHR ''}'' \<and> at_it it \<noteq> NUL then (drop 1 it, on_type (at_it it) st) else (it, st))"

definition parse_format_specs ::
  "format_args \<Rightarrow> arg_type \<Rightarrow> string \<Rightarrow> specs_state \<Rightarrow> (string \<times> specs_state) res" where
  "parse_format_specs fa t it st =
     (if at_it it = CHR ''}'' \<or> at_it it = NUL then Inr (it, st)
      else
        res_bind (parse_align t it st) (\<lambda>(it, st).
        res_bind (parse_sign t it st) (\<lambda>(it, st).
        res_bind (parse_hash_zero t it st) (\<lambda>(it, st).
        res_bind (parse_width fa it st) (\<lambda>(it, st).
        res_bind (parse_precision fa t it st) (\<lambda>(it, st).
        Inr (parse_type it st)))))))"

section \<open>Format strings\<close>

text \<open>The handler of format strings: the counter, the argument found last and the output.\<close>

record fmt_handler =
  fh_next :: int
  fh_arg :: fmt_arg
  fh_out :: string

definition on_text :: "string \<Rightarrow> fmt_handler \<Rightarrow> fmt_handler" where
  "on_text s h = h\<lparr>fh_out := fh_out h @ s\<rparr>"

definition on_arg_id :: "format_args \<Rightarrow> arg_id \<Rightarrow> fmt_handler \<Rightarrow> fmt_handler res" where
  "on_arg_id fa aid h =
     res_bind (get_arg fa aid (fh_next h)) (\<lambda>(a, n). Inr (h\<lparr>fh_next := n, fh_arg := a\<rparr>))"

definition on_replacement_field :: "fmt_env \<Rightarrow> fmt_handler \<Rightarrow> fmt_handler res" where
  "on_replacement_field env h =
     res_bind (arg_formatter env None (fh_arg h)) (\<lambda>txt. Inr (on_text txt h))"

definition on_format_specs ::
  "fmt_env \<Rightarrow> format_args \<Rightarrow> string \<Rightarrow> fmt_handler \<Rightarrow> (string \<times> fmt_handler) res" where
  "on_format_specs env fa it h =
     res_bind (parse_format_specs fa (arg_type_of (fh_arg h)) it (default_specs, fh_next h)) (\<lambda>(it, sp, n).
       if at_it it \<noteq> CHR ''}'' then fmt_throw (''missing '' @ [CHR 0x27, CHR ''}'', CHR 0x27] @ '' in format string'')
       else res_bind (arg_formatter env (Some sp) (fh_arg h)) (\<lambda>txt.
         Inr (it, on_text txt (h\<lparr>fh_next := n\<rparr>))))"

text \<open>Literal text: a closing brace must be doubled.\<close>

function write_literal :: "string \<Rightarrow> fmt_handler \<Rightarrow> fmt_handler res" where
  "write_literal s h =
     (let pre = takeWhile (\<lambda>c. c \<noteq> CHR ''}'') s; p = drop (length pre) s in
      if p = [] then Inr (on_text s h)
      else if at_it (drop 1 p) \<noteq> CHR ''}'' then fmt_throw (''unmatched '' @ [CHR 0x27, CHR ''}'', CHR 0x27] @ '' in format string'')
      else write_literal (drop 2 p) (on_text (pre @ ''}'') h))"
  by pat_completeness auto
termination
  by (relation "measure (\<lambda>(s, h). length s)") auto

declare write_literal.simps [simp del]

text \<open>Scanning never moves back.\<close>

lemma length_parse_int_loop: "length (snd (parse_int_loop v s)) \<le> length s"
  by (induction v s rule: parse_int_loop.induct) (auto simp: Let_def)

lemma parse_nonnegative_int_length: "parse_nonnegative_int s = Inr (v, r) \<Longrightarrow> length r \<le> length s"
  using length_parse_int_loop [of 0 s]
  by (auto simp: parse_nonnegative_int_def fmt_throw_def split: prod.splits if_splits)

lemma parse_arg_id_length: "parse_arg_id s = Inr (i, r) \<Longrightarrow> length r \<le> length s"
  by (auto simp: parse_arg_id_def Let_def fmt_throw_def res_simps parse_nonnegative_int_length split: if_splits)

lemma parse_align_length: "parse_align t it st = Inr (r, st') \<Longrightarrow> length r \<le> length it"
  by (auto simp: parse_align_def Let_def fmt_throw_def res_simps split: if_splits)

lemma parse_sign_length: "parse_sign t it st = Inr (r, st') \<Longrightarrow> length r \<le> length it"
  by (auto simp: parse_sign_def res_simps split: if_splits)

lemma parse_hash_zero_length: "parse_hash_zero t it st = Inr (r, st') \<Longrightarrow> length r \<le> length it"
  by (auto simp: parse_hash_zero_def res_simps split: if_splits)

lemma parse_dynamic_length: "parse_dynamic hdl it st = Inr (r, st') \<Longrightarrow> length r \<le> length it"
  by (fastforce simp: parse_dynamic_def res_simps fmt_throw_def dest: parse_arg_id_length split: if_splits prod.splits)

lemma parse_width_length: "parse_width fa it st = Inr (r, st') \<Longrightarrow> length r \<le> length it"
  by (auto simp: parse_width_def res_simps dest: parse_dynamic_length parse_nonnegative_int_length split: if_splits)

lemma parse_precision_length: "parse_precision fa t it st = Inr (r, st') \<Longrightarrow> length r \<le> length it"
  by (fastforce simp: parse_precision_def res_simps Let_def fmt_throw_def
      dest: parse_dynamic_length parse_nonnegative_int_length split: if_splits)

lemma parse_type_length: "parse_type it st = (r, st') \<Longrightarrow> length r \<le> length it"
  by (auto simp: parse_type_def split: if_splits)

lemma parse_format_specs_length:
  assumes "parse_format_specs fa t it st = Inr (r, st')"
  shows "length r \<le> length it"
proof (cases "at_it it = CHR ''}'' \<or> at_it it = NUL")
  case False
  with assms obtain i1 s1 i2 s2 i3 s3 i4 s4 i5 s5 where
    "parse_align t it st = Inr (i1, s1)" "parse_sign t i1 s1 = Inr (i2, s2)"
    "parse_hash_zero t i2 s2 = Inr (i3, s3)" "parse_width fa i3 s3 = Inr (i4, s4)"
    "parse_precision fa t i4 s4 = Inr (i5, s5)" "parse_type i5 s5 = (r, st')"
    by (auto simp: parse_format_specs_def res_simps)
  then show ?thesis
    by (auto dest!: parse_align_length parse_sign_length parse_hash_zero_length parse_width_length
        parse_precision_length parse_type_length)
qed (use assms in \<open>auto simp: parse_format_specs_def\<close>)

lemma on_format_specs_length: "on_format_specs env fa it h = Inr (r, h') \<Longrightarrow> length r \<le> length it"
  by (fastforce simp: on_format_specs_def res_simps fmt_throw_def dest: parse_format_specs_length
      split: if_splits prod.splits)

text \<open>
  \<^verbatim>\<open>parse_format_string\<close>, for the handler that formats. The recursive calls are the rounds of its loop.
\<close>

lemmas res_bind_fundef_cong [fundef_cong] = res_bind_cong2

function parse_format_string ::
  "fmt_env \<Rightarrow> format_args \<Rightarrow> string \<Rightarrow> fmt_handler \<Rightarrow> fmt_handler res" where
  "parse_format_string env fa s h =
     (if s = [] then Inr h
      else let pre = takeWhile (\<lambda>c. c \<noteq> CHR ''{'') s; p = drop (length pre) s in
        if p = [] then write_literal s h
        else res_bind (write_literal pre h) (\<lambda>h.
          let p = drop 1 p; c = at_it p in
          if p = [] then fmt_throw ''invalid format string''
          else if c = CHR ''}'' then
            res_bind (on_arg_id fa Auto_id h) (\<lambda>h.
            res_bind (on_replacement_field env h) (\<lambda>h. parse_format_string env fa (drop 1 p) h))
          else if c = CHR ''{'' then parse_format_string env fa (drop 1 p) (on_text ''{'' h)
          else res_bind (parse_arg_id p) (\<lambda>(aid, q).
            res_bind (on_arg_id fa aid h) (\<lambda>h.
              let c = at_it q in
              if c = CHR ''}'' then
                res_bind (on_replacement_field env h) (\<lambda>h. parse_format_string env fa (drop 1 q) h)
              else if c = CHR '':'' then
                res_bind (on_format_specs env fa (drop 1 q) h) (\<lambda>(it, h).
                  if at_it it \<noteq> CHR ''}'' then fmt_throw ''unknown format specifier''
                  else parse_format_string env fa (drop 1 it) h)
              else fmt_throw (''missing '' @ [CHR 0x27, CHR ''}'', CHR 0x27] @ '' in format string'')))))"
  by pat_completeness auto
termination
proof (relation "measure (\<lambda>(env, fa, s, h). length s)", goal_cases)
  case 1 show ?case by simp
qed (auto dest!: parse_arg_id_length on_format_specs_length)

declare parse_format_string.simps [simp del]

definition vformat_to :: "fmt_env \<Rightarrow> string \<Rightarrow> string \<Rightarrow> format_args \<Rightarrow> string res" where
  "vformat_to env out fmt fa =
     res_bind (parse_format_string env fa fmt \<lparr>fh_next = 0, fh_arg = Arg_none, fh_out = out\<rparr>)
       (\<lambda>h. Inr (fh_out h))"

text \<open>\<^verbatim>\<open>fmt::format_to(buf, fmt, args...)\<close> on a memory buffer with the given contents.\<close>

definition format_to :: "fmt_env \<Rightarrow> string \<Rightarrow> string \<Rightarrow> store_arg list \<Rightarrow> string res" where
  "format_to env out fmt as = vformat_to env out fmt (make_format_args as)"

section \<open>Arguments are found again\<close>

definition store_ok :: "store_arg list \<Rightarrow> bool" where
  "store_ok as \<longleftrightarrow> length as \<le> 2 ^ 31 \<and> (\<forall>a \<in> set as. arg_ok (deserialize a) \<and> deserialize a \<noteq> Arg_none)"

lemma arg_type_code_less: "arg_type_code t < 16"
  by (simp add: arg_type_code_def split: arg_type.splits)

lemma arg_type_code_inj [simp]: "arg_type_code s = arg_type_code t \<longleftrightarrow> s = t"
  by (cases s; cases t) (simp_all add: arg_type_code_def)

lemma arg_type_code_0 [simp]: "arg_type_code t = 0 \<longleftrightarrow> t = none_type" "arg_type_code none_type = 0"
  by (cases t; simp add: arg_type_code_def)+

lemma or_push_bit_4:
  assumes "(a :: nat) < 16"
  shows "a OR push_bit 4 b = a + 16 * b"
proof -
  have "a AND push_bit 4 b = 0"
  proof (rule bit_eqI)
    fix n
    have "take_bit 4 a = a" using assms by (simp add: take_bit_nat_eq_self)
    then have "bit a n \<Longrightarrow> n < 4" by (metis bit_take_bit_iff)
    then show "bit (a AND push_bit 4 b) n = bit (0 :: nat) n"
      by (auto simp: bit_and_iff bit_push_bit_iff)
  qed
  then have "a OR push_bit 4 b = a + push_bit 4 b" by (simp add: disjunctive_add_eq_or)
  then show ?thesis by (simp add: push_bit_eq_mult)
qed

lemma get_types_Cons:
  assumes "length as \<le> 14"
  shows "get_types (a # as) = arg_type_code (store_type a) + 16 * get_types as" "get_types as < 16 ^ length as"
proof -
  have less: "get_types as < 16 ^ length as" if "length as \<le> 15" for as
    using that
  proof (induction as)
    case (Cons b bs)
    have "(16 :: nat) ^ length bs \<le> 16 ^ 14" using Cons.prems by (intro power_increasing) auto
    then have "push_bit 4 (get_types bs) < 2 ^ 64" using Cons by (simp add: push_bit_eq_mult)
    then have "get_types (b # bs) = arg_type_code (store_type b) + 16 * get_types bs"
      using or_push_bit_4 [OF arg_type_code_less] by simp
    moreover have "get_types bs < 16 ^ length bs" using Cons by simp
    ultimately show ?case using arg_type_code_less [of "store_type b"] by simp
  qed simp
  have "(16 :: nat) ^ length as \<le> 16 ^ 14" using assms by (intro power_increasing) auto
  then have "push_bit 4 (get_types as) < 2 ^ 64" using less [of as] assms by (simp add: push_bit_eq_mult)
  then show "get_types (a # as) = arg_type_code (store_type a) + 16 * get_types as"
    using or_push_bit_4 [OF arg_type_code_less] by simp
  show "get_types as < 16 ^ length as" using less [of as] assms by simp
qed

lemma get_types_div:
  "length as \<le> 15 \<Longrightarrow> get_types as div 16 ^ i mod 16 = (if i < length as then arg_type_code (store_type (as ! i)) else 0)"
proof (induction as arbitrary: i)
  case (Cons a as)
  have g: "get_types (a # as) = arg_type_code (store_type a) + 16 * get_types as"
    using Cons.prems by (intro get_types_Cons) simp
  show ?case
  proof (cases i)
    case 0
    then show ?thesis unfolding g using arg_type_code_less [of "store_type a"] by simp
  next
    case (Suc k)
    have "get_types (a # as) div 16 = get_types as"
      unfolding g using arg_type_code_less [of "store_type a"] by simp
    then have "get_types (a # as) div 16 ^ i = get_types as div 16 ^ k"
      by (simp add: Suc div_mult2_eq)
    with Cons Suc show ?thesis by simp
  qed
qed simp

lemma args_type_eq: "i \<le> 15 \<Longrightarrow> args_type fa i = fa_types fa div 16 ^ i mod 16"
proof -
  assume i: "i \<le> 15"
  have "(2 :: nat) ^ (i * 4) \<le> 2 ^ (15 * 4)" using i by (intro power_increasing) auto
  then have "push_bit (i * 4) 15 < (2 :: nat) ^ 64" by (simp add: push_bit_eq_mult)
  then have "args_type fa i = drop_bit (i * 4) (fa_types fa) AND 15"
    by (simp add: args_type_def Let_def drop_bit_and drop_bit_push_bit)
  also have "\<dots> = drop_bit (i * 4) (fa_types fa) mod 16"
  proof -
    have "(15 :: nat) = mask 4" by (simp add: mask_eq_exp_minus_1)
    then show ?thesis by (simp only: take_bit_eq_mask [symmetric] take_bit_eq_mod) simp
  qed
  also have "drop_bit (i * 4) (fa_types fa) = fa_types fa div 16 ^ i"
    using power_mult [of "2 :: nat" 4 i] by (simp add: drop_bit_eq_div mult.commute)
  finally show ?thesis .
qed

lemma packed_type:
  "length as < 15 \<Longrightarrow> i \<le> 15 \<Longrightarrow>
   args_type (make_format_args as) i = (if i < length as then arg_type_code (store_type (as ! i)) else 0)"
  using get_types_div [of as i]
  by (simp add: args_type_eq) (simp add: make_format_args_def store_types_def)

lemma store_type_none: "store_ok as \<Longrightarrow> a \<in> set as \<Longrightarrow> store_type a \<noteq> none_type"
proof (cases a)
  case (Plain x)
  assume "store_ok as" "a \<in> set as"
  then have "x \<noteq> Arg_none" using Plain by (auto simp: store_ok_def deserialize_def)
  then show ?thesis using Plain by (cases x) auto
qed simp

lemma types_packed: "length as < 15 \<Longrightarrow> fa_types (make_format_args as) < 2 ^ 63"
proof -
  assume l: "length as < 15"
  have "get_types as < 16 ^ length as" using get_types_Cons(2) [of as] l by simp
  moreover have "(16 :: nat) ^ length as \<le> 16 ^ 14" using l by (intro power_increasing) auto
  ultimately show ?thesis using l by (simp add: make_format_args_def store_types_def)
qed

lemma types_unpacked:
  "15 \<le> length as \<Longrightarrow> length as \<le> 2 ^ 31 \<Longrightarrow> fa_types (make_format_args as) = 2 ^ 64 - length as"
  by (simp add: make_format_args_def store_types_def)

lemma args_get_make:
  assumes "store_ok as"
  shows "args_get (make_format_args as) i = Inr (if i < length as then deserialize (as ! i) else Arg_none)"
proof (cases "length as < 15")
  case True
  have at: "args_at (make_format_args as) i = Inr (as ! i)" if "i < length as"
    using that by (auto simp: args_at_def make_format_args_def nth_append)
  have t: "\<not> 2 ^ 63 \<le> fa_types (make_format_args as)" using types_packed [OF True] by simp
  show ?thesis
    using True t at packed_type [OF True, of i] store_type_none [OF assms nth_mem, of i]
    by (auto simp: args_get_def args_do_get_def value_at_def deserialize_def)
next
  case False
  then have t: "fa_types (make_format_args as) = 2 ^ 64 - length as"
    using assms by (intro types_unpacked) (auto simp: store_ok_def)
  have l: "length as \<le> 2 ^ 31" using assms by (simp add: store_ok_def)
  then have "2 ^ 64 - (2 ^ 64 - length as) = length as" "2 ^ 63 \<le> 2 ^ 64 - length as" by auto
  then show ?thesis unfolding args_get_def args_do_get_def t
    using False by (simp add: args_at_def make_format_args_def nth_append deserialize_def Let_def)
qed

text \<open>The named arguments, in their order.\<close>

fun named_args :: "store_arg list \<Rightarrow> (string \<times> fmt_arg) list" where
  "named_args [] = []"
| "named_args (Named nm a # as) = (nm, a) # named_args as"
| "named_args (Plain a # as) = named_args as"

lemma named_args_append [simp]: "named_args (xs @ ys) = named_args xs @ named_args ys"
  by (induction xs rule: named_args.induct) auto

lemma arg_map_push_eq: "arg_map_push a m = m @ named_args [a]"
  by (cases a) (auto simp: arg_map_push_def)

lemma arg_map_args_eq:
  assumes "\<forall>a \<in> set as. store_type a \<noteq> none_type"
  shows "arg_map_args (as @ [Plain Arg_none]) m = Inr (m @ named_args as)"
  using assms
proof (induction as arbitrary: m)
  case (Cons a as)
  then show ?case by (cases a) (auto simp: arg_map_push_eq)
qed simp

lemma arg_map_values_eq:
  assumes "length as < 15" "\<forall>a \<in> set as. store_type a \<noteq> none_type" "n + k = 16" "n \<le> length as"
  shows "arg_map_values (make_format_args as) [n..<16] m = Inr (m @ named_args (drop n as))"
  using assms(3,4)
proof (induction k arbitrary: n m)
  case (Suc k)
  have n: "n < 16" using Suc.prems by simp
  note t = packed_type [OF assms(1), of n]
  show ?case
  proof (cases "n < length as")
    case True
    have d: "drop n as = as ! n # drop (Suc n) as" using True by (simp add: Cons_nth_drop_Suc)
    have at: "args_at (make_format_args as) n = Inr (as ! n)"
      using True assms(1) by (auto simp: args_at_def make_format_args_def)
    have IH: "\<And>m. arg_map_values (make_format_args as) [Suc n..<16] m = Inr (m @ named_args (drop (Suc n) as))"
      using Suc True by simp
    have "store_type (as ! n) \<noteq> none_type" using assms(2) True by simp
    then show ?thesis using True n t at IH
      by (cases "as ! n") (auto simp: upt_conv_Cons d value_at_def arg_map_push_eq)
  next
    case False
    then show ?thesis using n t by (simp add: upt_conv_Cons)
  qed
qed (use assms(1) in simp)

lemma arg_map_init_make:
  assumes "store_ok as"
  shows "arg_map_init (make_format_args as) = Inr (named_args as)"
proof -
  have none: "\<forall>a \<in> set as. store_type a \<noteq> none_type" using store_type_none [OF assms] by blast
  show ?thesis
  proof (cases "length as < 15")
    case True
    then show ?thesis
      using packed_type [OF True, of 14] arg_map_values_eq [OF True none, of 0 16 "[]"]
      by (simp add: arg_map_init_def)
  next
    case False
    have l: "length as \<le> 2 ^ 31" using assms by (simp add: store_ok_def)
    have t: "fa_types (make_format_args as) = 2 ^ 64 - length as"
      using False l by (intro types_unpacked) auto
    have eq: "2 ^ 64 - length as = 15 * 16 ^ 14 + (15 * 16 ^ 15 + (16 ^ 14 - length as))" using l by simp
    have "(2 ^ 64 - length as) div 16 ^ 14 = 255"
      using l False by (subst div_nat_eqI [of _ 255]) auto
    then have "args_type (make_format_args as) 14 = 15" by (simp add: args_type_eq t)
    then show ?thesis using False arg_map_args_eq [OF none, of "[]"]
      by (simp add: arg_map_init_def) (simp add: make_format_args_def)
  qed
qed

lemma arg_map_find_set: "arg_map_find m nm = a \<Longrightarrow> a \<noteq> Arg_none \<Longrightarrow> (nm, a) \<in> set m"
  by (induction m nm rule: arg_map_find.induct) (auto split: if_splits)

lemma named_args_set: "(nm, a) \<in> set (named_args as) \<Longrightarrow> Named nm a \<in> set as"
  by (induction as rule: named_args.induct) auto

section \<open>Parsing fails only with its exception\<close>

lemma fmt_safe_throw [simp]: "fmt_safe (fmt_throw m)"
  by (simp add: fmt_throw_def)

lemma fmt_throw_not_Inr [simp]: "fmt_throw m \<noteq> Inr x" "Inr x \<noteq> fmt_throw m"
  by (simp_all add: fmt_throw_def)

lemma do_get_arg_make:
  assumes "store_ok as"
  shows "do_get_arg (make_format_args as) i =
    (if i < length as then Inr (deserialize (as ! i)) else fmt_throw ''argument index out of range'')"
  using assms by (auto simp: do_get_arg_def args_get_make store_ok_def)

lemma get_arg_name_make:
  assumes "store_ok as"
  shows "get_arg_name (make_format_args as) nm =
    (let a = arg_map_find (named_args as) nm in
     if a = Arg_none then fmt_throw ''argument not found'' else Inr a)"
proof -
  have "arg_type_of a = none_type \<longleftrightarrow> a = Arg_none" for a by (cases a) auto
  then show ?thesis by (simp add: get_arg_name_def arg_map_init_make [OF assms] Let_def)
qed

lemma get_arg_safe: "store_ok as \<Longrightarrow> fmt_safe (get_arg (make_format_args as) aid n)"
  by (cases aid)
     (auto intro!: fmt_safe_bind simp: next_arg_id_def check_arg_id_def do_get_arg_make get_arg_name_make Let_def
       split: prod.splits)

lemma get_arg_ok:
  assumes "store_ok as" "get_arg (make_format_args as) aid n = Inr (a, n')"
  shows "arg_ok a \<and> a \<noteq> Arg_none"
proof (cases aid)
  case (Name_id nm)
  then have "arg_map_find (named_args as) nm = a" "a \<noteq> Arg_none"
    using assms by (auto simp: res_simps get_arg_name_make Let_def split: if_splits)
  then have "Named nm a \<in> set as" using arg_map_find_set named_args_set by blast
  then show ?thesis using assms(1) by (force simp: store_ok_def deserialize_def)
qed (use assms in \<open>auto simp: res_simps next_arg_id_def check_arg_id_def do_get_arg_make store_ok_def
      split: if_splits\<close>)

lemma parse_nonnegative_int_safe: "fmt_safe (parse_nonnegative_int s)"
  by (simp add: parse_nonnegative_int_def split: prod.splits)

lemma parse_arg_id_safe: "fmt_safe (parse_arg_id s)"
  by (auto simp: parse_arg_id_def Let_def parse_nonnegative_int_safe intro!: fmt_safe_bind)

lemma spec_handlers_safe:
  "fmt_safe (require_numeric_argument t)" "fmt_safe (check_sign t)" "fmt_safe (on_align t a st)"
  "fmt_safe (on_sign t f st)" "fmt_safe (on_hash t st)" "fmt_safe (on_zero t st)" "fmt_safe (end_precision t)"
proof -
  show r: "fmt_safe (require_numeric_argument t)" by (simp add: require_numeric_argument_def)
  show s: "fmt_safe (check_sign t)" using r by (auto simp: check_sign_def intro!: fmt_safe_bind)
  show "fmt_safe (on_align t a st)" "fmt_safe (on_sign t f st)" "fmt_safe (on_hash t st)" "fmt_safe (on_zero t st)"
    using r s by (auto simp: on_align_def on_sign_def on_hash_def on_zero_def split: prod.splits intro!: fmt_safe_bind)
  show "fmt_safe (end_precision t)" by (simp add: end_precision_def)
qed

lemma set_dynamic_spec_safe: "fmt_safe (set_dynamic_spec what a)"
  by (cases a) (auto simp: set_dynamic_spec_def intro!: fmt_safe_bind)

lemma dynamic_safe:
  assumes "store_ok as"
  shows "fmt_safe (on_dynamic_width (make_format_args as) aid st)"
    "fmt_safe (on_dynamic_precision (make_format_args as) aid st)"
  using get_arg_safe [OF assms]
  by (auto simp: on_dynamic_width_def on_dynamic_precision_def set_dynamic_spec_safe split: prod.splits
      intro!: fmt_safe_bind)

lemma parse_dynamic_safe: "(\<And>aid st. fmt_safe (hdl aid st)) \<Longrightarrow> fmt_safe (parse_dynamic hdl it st)"
  by (simp add: parse_dynamic_def, intro fmt_safe_bind)
     (simp_all add: parse_arg_id_safe fmt_safe_bind split: prod.split)

lemma parse_format_specs_safe:
  assumes "store_ok as"
  shows "fmt_safe (parse_format_specs (make_format_args as) t it st)"
proof -
  note i = fmt_safe_bind and h = spec_handlers_safe
  have al: "fmt_safe (parse_align t it st)" for it st
    by (auto simp: h parse_align_def Let_def intro!: i)
  have si: "fmt_safe (parse_sign t it st)" for it st
    by (auto simp: h parse_sign_def intro!: i)
  have ha: "fmt_safe (parse_hash_zero t it st)" for it st
    by (auto simp: h parse_hash_zero_def split: prod.splits intro!: i)
  have wi: "fmt_safe (parse_width (make_format_args as) it st)" for it st
    by (auto simp: dynamic_safe [OF assms] parse_width_def parse_nonnegative_int_safe parse_dynamic_safe split: prod.splits intro!: i)
  have pr: "fmt_safe (parse_precision (make_format_args as) t it st)" for it st
    by (auto simp: dynamic_safe [OF assms] h parse_precision_def Let_def parse_nonnegative_int_safe parse_dynamic_safe split: prod.splits
        intro!: i)
  show ?thesis
    by (auto simp: al si ha wi pr parse_format_specs_def split: prod.splits intro!: i)
qed

lemma write_literal_safe: "fmt_safe (write_literal s h)"
proof (induction s h rule: write_literal.induct)
  case (1 s h)
  then show ?case by (subst write_literal.simps) (simp add: Let_def)
qed

definition arg_good :: "fmt_handler \<Rightarrow> bool" where
  "arg_good h \<longleftrightarrow> arg_ok (fh_arg h) \<and> fh_arg h \<noteq> Arg_none"

lemma on_arg_id_safe: "store_ok as \<Longrightarrow> fmt_safe (on_arg_id (make_format_args as) aid h)"
  by (auto simp: on_arg_id_def get_arg_safe split: prod.splits intro!: fmt_safe_bind)

lemma on_arg_id_good: "store_ok as \<Longrightarrow> on_arg_id (make_format_args as) aid h = Inr h' \<Longrightarrow> arg_good h'"
  by (auto simp: on_arg_id_def arg_good_def res_simps dest!: get_arg_ok)

lemma on_replacement_field_safe: "arg_good h \<Longrightarrow> fmt_safe (on_replacement_field env h)"
  by (auto simp: on_replacement_field_def arg_good_def separated_def intro!: fmt_safe_bind arg_formatter_safe)

lemma on_format_specs_safe:
  "store_ok as \<Longrightarrow> arg_good h \<Longrightarrow> env_contiguous env \<Longrightarrow>
   fmt_safe (on_format_specs env (make_format_args as) it h)"
  by (auto simp: on_format_specs_def arg_good_def parse_format_specs_safe split: prod.splits
      intro!: fmt_safe_bind arg_formatter_safe)

lemma parse_format_string_safe:
  assumes "store_ok as" "env_contiguous env"
  shows "fmt_safe (parse_format_string env (make_format_args as) s h)"
proof (induction s arbitrary: h rule: measure_induct_rule [of length])
  case (less s)
  have IH: "length r < length s \<Longrightarrow> fmt_safe (parse_format_string env (make_format_args as) r h)" for r h
    using less by blast
  let ?p = "drop (Suc (length (takeWhile (\<lambda>c. c \<noteq> CHR ''{'') s))) s"
  note safe = write_literal_safe on_arg_id_safe [OF assms(1)] on_replacement_field_safe parse_arg_id_safe
    on_format_specs_safe [OF assms(1) _ assms(2)]
  show ?case
  proof (subst parse_format_string.simps, simp add: Let_def safe, intro impI fmt_safe_bind, goal_cases)
    case (1)
    show ?case by (rule safe)
  next
    case (2 h1)
    show ?case
    proof (auto simp: Let_def intro!: fmt_safe_bind safe IH split: prod.splits dest: on_arg_id_good [OF assms(1)], goal_cases)
    qed (use 2 in \<open>auto dest!: parse_arg_id_length on_format_specs_length intro: on_arg_id_good [OF assms(1)]\<close>)
  qed
qed

section \<open>Format strings as sequences of tokens\<close>

text \<open>
  A character that is no brace, a doubled brace, or an empty replacement field. Formatting the text of a sequence of tokens
  processes the tokens one after the other.
\<close>

datatype fmt_token = Chr char | Open_brace | Close_brace | Auto_field

fun token_ok :: "fmt_token \<Rightarrow> bool" where
  "token_ok (Chr c) \<longleftrightarrow> c \<noteq> CHR ''{'' \<and> c \<noteq> CHR ''}''"
| "token_ok _ \<longleftrightarrow> True"

fun render_token :: "fmt_token \<Rightarrow> string" where
  "render_token (Chr c) = [c]"
| "render_token Open_brace = ''{{''"
| "render_token Close_brace = ''}}''"
| "render_token Auto_field = ''{}''"

definition render :: "fmt_token list \<Rightarrow> string" where
  "render ts = concat (map render_token ts)"

fun token_step :: "fmt_env \<Rightarrow> format_args \<Rightarrow> fmt_token \<Rightarrow> fmt_handler \<Rightarrow> fmt_handler res" where
  "token_step env fa (Chr c) h = Inr (on_text [c] h)"
| "token_step env fa Open_brace h = Inr (on_text ''{'' h)"
| "token_step env fa Close_brace h = Inr (on_text ''}'' h)"
| "token_step env fa Auto_field h =
     res_bind (on_arg_id fa Auto_id h) (\<lambda>h. on_replacement_field env h)"

lemma render_simps [simp]: "render [] = []" "render (t # ts) = render_token t @ render ts"
  "render (xs @ ys) = render xs @ render ys"
  by (simp_all add: render_def)

lemma on_text_on_text [simp]: "on_text s (on_text r h) = on_text (r @ s) h"
  by (simp add: on_text_def)

lemma on_text_Nil [simp]: "on_text [] h = h"
  by (simp add: on_text_def)

lemma at_it_simps [simp]: "at_it [] = NUL" "at_it (c # s) = c"
  by (simp_all add: at_it_def)

text \<open>Tokens without an opening brace are literal text.\<close>

definition literal_token :: "fmt_token \<Rightarrow> bool" where
  "literal_token t \<longleftrightarrow> token_ok t \<and> t \<noteq> Open_brace \<and> t \<noteq> Auto_field"

lemma literal_no_open: "\<forall>t \<in> set ts. literal_token t \<Longrightarrow> CHR ''{'' \<notin> set (render ts)"
proof (induction ts)
  case (Cons t ts)
  then show ?case by (cases t) (auto simp: literal_token_def)
qed simp

lemma write_literal_Chr: "c \<noteq> CHR ''}'' \<Longrightarrow> write_literal (c # s) h = write_literal s (on_text [c] h)"
proof -
  assume "c \<noteq> CHR ''}''"
  then show ?thesis
    by (subst (1 2) write_literal.simps) (simp add: Let_def)
qed

lemma write_literal_Close:
  "write_literal (CHR ''}'' # CHR ''}'' # s) h = write_literal s (on_text ''}'' h)"
  by (subst write_literal.simps) (simp add: Let_def numeral_2_eq_2)

lemma write_literal_Nil: "write_literal [] h = Inr h"
  by (subst write_literal.simps) simp

lemma write_literal_tokens:
  "\<forall>t \<in> set ts. literal_token t \<Longrightarrow> write_literal (render ts) h = res_fold (token_step env fa) ts h"
proof (induction ts arbitrary: h)
  case (Cons t ts)
  then show ?case
    by (cases t) (auto simp: literal_token_def write_literal_Chr write_literal_Close)
qed (simp add: write_literal_Nil)

lemma res_fold_prefix: "res_fold f xs s = Inr s' \<Longrightarrow> res_fold f (xs @ ys) s = res_fold f ys s'"
  by (simp add: res_fold_append)

lemma literal_tokens_Inr: "\<forall>t \<in> set ts. literal_token t \<Longrightarrow> \<exists>h'. res_fold (token_step env fa) ts h = Inr h'"
proof (induction ts arbitrary: h)
  case (Cons t ts)
  then show ?case by (cases t) (auto simp: literal_token_def)
qed simp

lemma parse_format_string_tokens:
  assumes "\<forall>t \<in> set ts. token_ok t"
  shows "parse_format_string env fa (render ts) h = res_fold (token_step env fa) ts h"
  using assms
proof (induction ts arbitrary: h rule: measure_induct_rule [of length])
  case (less ts)
  define pre where "pre = takeWhile literal_token ts"
  define rest where "rest = dropWhile literal_token ts"
  have ts: "ts = pre @ rest" by (simp add: pre_def rest_def)
  have lit: "\<forall>t \<in> set pre. literal_token t" by (auto simp: pre_def dest: set_takeWhileD)
  obtain h1 where h1: "res_fold (token_step env fa) pre h = Inr h1"
    using literal_tokens_Inr [OF lit] by blast
  have w: "write_literal (render pre) h = Inr h1" using write_literal_tokens [OF lit] h1 by metis
  have tw: "takeWhile (\<lambda>c. c \<noteq> CHR ''{'') (render pre) = render pre"
    using literal_no_open [OF lit] by (auto simp: takeWhile_eq_all_conv)
  have tw2: "takeWhile (\<lambda>c. c \<noteq> CHR ''{'') (render pre @ CHR ''{'' # s) = render pre" for s
    using literal_no_open [OF lit] by (subst takeWhile_append2) auto
  show ?case
  proof (cases rest)
    case Nil
    then have eq: "ts = pre" using ts by simp
    show ?thesis
    proof (cases "render pre = []")
      case True
      then show ?thesis unfolding eq h1 using w
        by (simp add: parse_format_string.simps [of env fa "[]"] write_literal_Nil)
    next
      case False
      then show ?thesis unfolding eq h1 using w
        by (subst parse_format_string.simps) (simp add: Let_def tw)
    qed
  next
    case (Cons t rs)
    have "\<not> literal_token t" using Cons rest_def by (metis hd_dropWhile list.distinct(1) list.sel(1))
    then have t: "t = Open_brace \<or> t = Auto_field"
      using less.prems ts Cons by (auto simp: literal_token_def)
    have IH: "parse_format_string env fa (render rs) = res_fold (token_step env fa) rs"
      using less.prems less.IH [of rs] ts Cons by (simp add: fun_eq_iff)
    have fold: "res_fold (token_step env fa) ts h = res_bind (token_step env fa t h1) (res_fold (token_step env fa) rs)"
      using h1 ts Cons by (simp add: res_fold_prefix)
    from t show ?thesis
    proof
      assume "t = Open_brace"
      then show ?thesis unfolding fold using ts Cons w tw2 IH
        by (subst parse_format_string.simps) (simp add: Let_def)
    next
      assume "t = Auto_field"
      then show ?thesis unfolding fold using ts Cons w tw2 IH
        by (subst parse_format_string.simps) (simp add: Let_def res_bind_assoc)
    qed
  qed
qed

section \<open>Texts of arguments\<close>

text \<open>The text of an argument in an empty replacement field.\<close>

fun default_text :: "fmt_arg \<Rightarrow> string" where
  "default_text Arg_none = []"
| "default_text (Arg_int v) = signed_decimal v"
| "default_text (Arg_uint n) = decimal n"
| "default_text (Arg_long_long v) = signed_decimal v"
| "default_text (Arg_ulong_long n) = decimal n"
| "default_text (Arg_bool b) = (if b then ''true'' else ''false'')"
| "default_text (Arg_char c) = [c]"
| "default_text (Arg_cstring p s) = s"
| "default_text (Arg_string s) = s"
| "default_text (Arg_pointer p) = ''0x'' @ base_text 4 False p"

fun not_null :: "fmt_arg \<Rightarrow> bool" where
  "not_null (Arg_cstring p s) \<longleftrightarrow> p \<noteq> 0"
| "not_null _ \<longleftrightarrow> True"

lemma signed_decimal_nat [simp]: "signed_decimal (int n) = decimal n"
  by (simp add: signed_decimal_def)

lemma pointer_text:
  "p < 2 ^ 64 \<Longrightarrow> write_pointer env p None = Inr (''0x'' @ base_text 4 False p)"
  by (simp add: write_pointer_def write_int_correct int_width_def int_fits_def Let_def int_type_chars_def
      digits_text_def handle_int_type_spec_def int_text_def pad_text_def default_specs_def sign_text_def
      base_prefix_def fs_flag_def)

lemma arg_formatter_default:
  assumes "arg_ok a" "a \<noteq> Arg_none" "not_null a"
  shows "arg_formatter env None a = Inr (default_text a)"
proof -
  have w: "int_width 32" "int_width 64" by (simp_all add: int_width_def)
  show ?thesis
    using assms
    by (cases a) (auto simp: format_integer_def write_decimal_correct [OF w(1)] write_decimal_correct [OF w(2)]
        int_fits_def format_bool_def write_bool_def write_text_ok handle_char_specs_def write_char_ok
        write_cstring_def pointer_text)
qed

text \<open>The text of a sequence of tokens with automatic numbering from \<open>k\<close>.\<close>

fun tokens_text :: "store_arg list \<Rightarrow> nat \<Rightarrow> fmt_token list \<Rightarrow> string" where
  "tokens_text as k [] = []"
| "tokens_text as k (Chr c # ts) = c # tokens_text as k ts"
| "tokens_text as k (Open_brace # ts) = CHR ''{'' # tokens_text as k ts"
| "tokens_text as k (Close_brace # ts) = CHR ''}'' # tokens_text as k ts"
| "tokens_text as k (Auto_field # ts) = default_text (deserialize (as ! k)) @ tokens_text as (Suc k) ts"

fun fields :: "fmt_token list \<Rightarrow> nat" where
  "fields [] = 0"
| "fields (Auto_field # ts) = Suc (fields ts)"
| "fields (_ # ts) = fields ts"

lemma on_text_append: "fh_out (on_text s h) = fh_out h @ s" "fh_next (on_text s h) = fh_next h"
  by (simp_all add: on_text_def)

lemma tokens_out:
  assumes "store_ok as" "\<forall>a \<in> set as. not_null (deserialize a)"
    and "fh_next h = int k" "k + fields ts \<le> length as"
  shows "\<exists>h'. res_fold (token_step env (make_format_args as)) ts h = Inr h' \<and>
    fh_out h' = fh_out h @ tokens_text as k ts"
  using assms(3,4)
proof (induction ts arbitrary: h k)
  case (Cons t ts)
  show ?case
  proof (cases t)
    case Auto_field
    have k: "k < length as" using Cons.prems Auto_field by simp
    let ?a = "deserialize (as ! k)" and ?h = "h\<lparr>fh_next := int k + 1, fh_arg := deserialize (as ! k)\<rparr>"
    have id: "on_arg_id (make_format_args as) Auto_id h = Inr ?h"
      using Cons.prems k by (simp add: on_arg_id_def next_arg_id_def do_get_arg_make [OF assms(1)])
    have "arg_formatter env None ?a = Inr (default_text ?a)"
      using assms(1,2) k by (intro arg_formatter_default) (auto simp: store_ok_def)
    then have rep: "on_replacement_field env ?h = Inr (on_text (default_text ?a) ?h)"
      by (simp add: on_replacement_field_def)
    obtain h' where "res_fold (token_step env (make_format_args as)) ts (on_text (default_text ?a) ?h) = Inr h'"
      "fh_out h' = fh_out (on_text (default_text ?a) ?h) @ tokens_text as (Suc k) ts"
      using Cons.IH [of "on_text (default_text ?a) ?h" "Suc k"] Cons.prems Auto_field
      by (auto simp: on_text_append)
    then show ?thesis using Auto_field id rep by (simp add: on_text_append)
  next
    case (Chr c)
    then show ?thesis using Cons.IH [of "on_text [c] h" k] Cons.prems by (auto simp: on_text_append)
  next
    case Open_brace
    then show ?thesis using Cons.IH [of "on_text ''{'' h" k] Cons.prems by (auto simp: on_text_append)
  next
    case Close_brace
    then show ?thesis using Cons.IH [of "on_text ''}'' h" k] Cons.prems by (auto simp: on_text_append)
  qed
qed simp

lemma format_to_tokens:
  assumes "store_ok as" "\<forall>a \<in> set as. not_null (deserialize a)"
    and "\<forall>t \<in> set ts. token_ok t" "fields ts \<le> length as"
  shows "format_to env out (render ts) as = Inr (out @ tokens_text as 0 ts)"
proof -
  let ?h = "\<lparr>fh_next = 0, fh_arg = Arg_none, fh_out = out\<rparr>"
  obtain h' where "res_fold (token_step env (make_format_args as)) ts ?h = Inr h'"
    "fh_out h' = out @ tokens_text as 0 ts"
    using tokens_out [OF assms(1,2), of ?h 0 ts env] assms(4) by auto
  then show ?thesis
    by (simp add: format_to_def vformat_to_def parse_format_string_tokens [OF assms(3)])
qed

section \<open>Specifiers fit the type of the argument\<close>

definition specs_typed :: "arg_type \<Rightarrow> format_specs \<Rightarrow> bool" where
  "specs_typed t sp \<longleftrightarrow>
     (fs_align sp = ALIGN_NUMERIC \<longrightarrow> is_arithmetic t) \<and>
     (fs_flags sp \<noteq> 0 \<longrightarrow> is_arithmetic t) \<and>
     (fs_flags sp \<notin> {0, HASH_FLAG} \<longrightarrow>
        \<not> is_integral t \<or> t = int_type \<or> t = long_long_type \<or> t = char_type) \<and>
     (is_integral t \<or> t = pointer_type \<longrightarrow> fs_precision sp = -1) \<and>
     fs_width sp \<le> max_int \<and> fs_precision sp \<le> int max_int"

lemma specs_typed_default: "specs_typed t default_specs"
  by (simp add: specs_typed_def default_specs_def)

lemma specs_typed_update:
  "specs_typed t (sp\<lparr>fs_fill := c\<rparr>) = specs_typed t sp"
  "specs_typed t sp \<Longrightarrow> (a = ALIGN_NUMERIC \<Longrightarrow> is_arithmetic t) \<Longrightarrow> specs_typed t (sp\<lparr>fs_align := a\<rparr>)"
  "specs_typed t sp \<Longrightarrow> w \<le> max_int \<Longrightarrow> specs_typed t (sp\<lparr>fs_width := w\<rparr>)"
  "specs_typed t sp \<Longrightarrow> p \<le> max_int \<Longrightarrow> \<not> is_integral t \<Longrightarrow> t \<noteq> pointer_type \<Longrightarrow>
   specs_typed t (sp\<lparr>fs_precision := int p\<rparr>)"
  "specs_typed t (sp\<lparr>fs_type := c\<rparr>) = specs_typed t sp"
  by (auto simp: specs_typed_def)

lemma on_align_typed:
  "on_align t a (sp, n) = Inr (sp', n') \<Longrightarrow> specs_typed t sp \<Longrightarrow>
   specs_typed t sp' \<and> fs_flags sp' = fs_flags sp"
  by (cases "a = ALIGN_NUMERIC")
     (auto simp: on_align_def require_numeric_argument_def res_bind_eq_Inr intro: specs_typed_update
       split: if_splits)

lemma parse_align_typed:
  assumes "parse_align t it (sp, n) = Inr (r, sp', n')" "specs_typed t sp"
  shows "specs_typed t sp' \<and> fs_flags sp' = fs_flags sp"
proof -
  have "(sp', n') = (sp, n) \<or> (\<exists>a. on_align t a (sp, n) = Inr (sp', n')) \<or>
      (\<exists>a c. on_align t a (sp\<lparr>fs_fill := c\<rparr>, n) = Inr (sp', n'))"
    using assms(1) by (auto simp: parse_align_def on_fill_def Let_def res_bind_eq_Inr split: if_splits)
  then show ?thesis using assms(2) by (auto simp: specs_typed_update dest!: on_align_typed)
qed

lemma parse_sign_typed:
  "parse_sign t it (sp, n) = Inr (r, sp', n') \<Longrightarrow> specs_typed t sp \<Longrightarrow> fs_flags sp = 0 \<Longrightarrow>
   specs_typed t sp'"
  by (auto simp: parse_sign_def on_sign_def check_sign_def require_numeric_argument_def res_simps
      specs_typed_def split: if_splits)

lemma or_8: "(f :: nat) \<notin> {0, 8} \<or> f OR 8 = 8"
  by (cases "f = 0"; cases "f = 8") simp_all

lemma parse_hash_zero_typed:
  "parse_hash_zero t it (sp, n) = Inr (r, sp', n') \<Longrightarrow> specs_typed t sp \<Longrightarrow>
   specs_typed t sp'"
  using or_8 [of "fs_flags sp"]
  by (auto simp: parse_hash_zero_def on_hash_def on_zero_def require_numeric_argument_def res_simps
      specs_typed_def split: if_splits)

lemma parse_nonnegative_int_le: "parse_nonnegative_int s = Inr (v, r) \<Longrightarrow> v \<le> max_int"
  by (auto simp: parse_nonnegative_int_def split: prod.splits if_splits)

lemma set_dynamic_spec_le: "set_dynamic_spec what a = Inr v \<Longrightarrow> v \<le> max_int"
  by (auto simp: set_dynamic_spec_def res_simps split: if_splits)

lemma on_dynamic_width_typed:
  "on_dynamic_width fa aid (sp, n) = Inr (sp', n') \<Longrightarrow> specs_typed t sp \<Longrightarrow> specs_typed t sp'"
  by (auto simp: on_dynamic_width_def on_width_def res_bind_eq_Inr dest!: set_dynamic_spec_le
      intro: specs_typed_update)

lemma parse_dynamic_Inr: "parse_dynamic hdl it st = Inr (r, st') \<Longrightarrow> \<exists>aid. hdl aid st = Inr st'"
  by (auto simp: parse_dynamic_def res_bind_eq_Inr split: if_splits)

lemma parse_width_typed:
  "parse_width fa it (sp, n) = Inr (r, sp', n') \<Longrightarrow> specs_typed t sp \<Longrightarrow> specs_typed t sp'"
  by (auto simp: parse_width_def on_width_def res_bind_eq_Inr intro: specs_typed_update
      dest!: parse_nonnegative_int_le parse_dynamic_Inr dest: on_dynamic_width_typed split: if_splits)

lemma on_dynamic_precision_typed:
  "on_dynamic_precision fa aid (sp, n) = Inr (sp', n') \<Longrightarrow> specs_typed t sp \<Longrightarrow>
   \<not> is_integral t \<Longrightarrow> t \<noteq> pointer_type \<Longrightarrow> specs_typed t sp'"
  by (auto simp: on_dynamic_precision_def on_precision_def res_bind_eq_Inr dest!: set_dynamic_spec_le
      intro: specs_typed_update)

lemma parse_precision_typed:
  "parse_precision fa t it (sp, n) = Inr (r, sp', n') \<Longrightarrow> specs_typed t sp \<Longrightarrow> specs_typed t sp'"
  by (auto simp: parse_precision_def on_precision_def end_precision_def Let_def res_bind_eq_Inr
      intro: specs_typed_update dest!: parse_nonnegative_int_le parse_dynamic_Inr
      dest: on_dynamic_precision_typed split: if_splits)

lemma parse_type_typed: "parse_type it (sp, n) = (r, sp', n') \<Longrightarrow> specs_typed t sp \<Longrightarrow> specs_typed t sp'"
  by (auto simp: parse_type_def on_type_def specs_typed_update split: if_splits)

lemma parse_format_specs_typed:
  assumes "parse_format_specs fa t it (sp, n) = Inr (r, sp', n')" "specs_typed t sp" "fs_flags sp = 0"
  shows "specs_typed t sp'"
proof (cases "at_it it = CHR ''}'' \<or> at_it it = NUL")
  case False
  with assms(1) obtain i1 s1 n1 i2 s2 n2 i3 s3 n3 i4 s4 n4 i5 s5 n5 where
    p: "parse_align t it (sp, n) = Inr (i1, s1, n1)" "parse_sign t i1 (s1, n1) = Inr (i2, s2, n2)"
    "parse_hash_zero t i2 (s2, n2) = Inr (i3, s3, n3)" "parse_width fa i3 (s3, n3) = Inr (i4, s4, n4)"
    "parse_precision fa t i4 (s4, n4) = Inr (i5, s5, n5)" "parse_type i5 (s5, n5) = (r, sp', n')"
    by (auto simp: parse_format_specs_def res_simps)
  from parse_align_typed [OF p(1) assms(2)] have 1: "specs_typed t s1" "fs_flags s1 = 0" using assms(3) by auto
  from parse_sign_typed [OF p(2) 1] have "specs_typed t s2" by simp
  from parse_hash_zero_typed [OF p(3) this] have "specs_typed t s3" by simp
  from parse_width_typed [OF p(4) this] have "specs_typed t s4" by simp
  from parse_precision_typed [OF p(5) this] have "specs_typed t s5" .
  from parse_type_typed [OF p(6) this] show ?thesis .
qed (use assms in \<open>auto simp: parse_format_specs_def\<close>)

section \<open>Properties\<close>


definition test_env :: fmt_env where
  "test_env = \<lparr>env_sep = CHR '','', env_contiguous = True, env_junk = (\<lambda>_. CHR ''?'')\<rparr>"


text \<open>C24: Text with doubled braces and empty replacement fields is formatted to the text with single
  braces and the texts of the arguments, in order: decimal numbers, true or false, characters, strings, and
  addresses in hexadecimal. The output so far is kept in front.\<close>

theorem format_to_text:
  assumes "store_ok as" "\<forall>a \<in> set as. not_null (deserialize a)"
    and "\<forall>t \<in> set ts. token_ok t" "fields ts \<le> length as"
  shows "format_to env out (render ts) as = Inr (out @ tokens_text as 0 ts)"
  using assms by (rule format_to_tokens)

theorem format_to_text_witness:
  "format_to test_env ''a'' (render [Chr (CHR ''x''), Open_brace, Auto_field, Close_brace, Auto_field])
     [Plain (Arg_int (-42)), Named ''n'' (Arg_string ''yes'')] = Inr ''ax{-42}yes''"
proof -
  have "decimal 42 = ''42''"
    by (simp add: text_simps digit_char_def char_of_def bit_Suc_0_iff)
  then show ?thesis
    by (subst format_to_text) (simp_all add: store_ok_def deserialize_def signed_decimal_def)
qed

text \<open>The packed array of arguments, with the types of up to fourteen arguments in the groups of four bits of
  one number, gives back every argument under its index and every named argument under its name, and
  none for other indices.\<close>

theorem format_args_roundtrip:
  assumes "store_ok as"
  shows "args_get (make_format_args as) i = Inr (if i < length as then deserialize (as ! i) else Arg_none) \<and>
    arg_map_init (make_format_args as) = Inr (named_args as)"
  using assms by (simp add: args_get_make arg_map_init_make)

theorem format_args_roundtrip_witness:
  "args_get (make_format_args [Plain (Arg_bool True), Named ''k'' (Arg_uint 7)]) 1 = Inr (Arg_uint 7)"
  using format_args_roundtrip [of "[Plain (Arg_bool True), Named ''k'' (Arg_uint 7)]" 1]
  by (simp add: store_ok_def deserialize_def)

text \<open>C25: Format specifiers that were parsed fit the type of the argument: numeric alignment and flags only for
  numbers, signs only for signed ones, a precision never for integers and pointers, and width and precision fit
  an int, also when they are taken from arguments.\<close>

theorem parse_format_specs_type:
  assumes "parse_format_specs fa t it (default_specs, n) = Inr (r, sp, n')"
  shows "specs_typed t sp"
  using parse_format_specs_typed [OF assms specs_typed_default] by (simp add: default_specs_def)

theorem parse_format_specs_type_witness:
  "specs_typed int_type (default_specs\<lparr>fs_align := ALIGN_NUMERIC, fs_fill := CHR ''0'', fs_width := 2\<rparr>)"
  by (rule parse_format_specs_type [of "make_format_args []" _ "''02}''" 0 "''}''" _ 0])
     (simp add: parse_format_specs_def parse_align_def parse_sign_def parse_hash_zero_def parse_width_def
       parse_precision_def parse_type_def on_zero_def on_width_def require_numeric_argument_def is_arithmetic_def
       arg_type_code_def align_of_def is_digit_char_def parse_nonnegative_int_def max_int_def Let_def)

end
