(* ===== verification/Log_Message.thy ===== *)
theory Log_Message
  imports Fmt_Format
begin

text \<open>
  Messages of the logging library under \<^verbatim>\<open>src/deps/spdlog\<close> and the helpers that put them into text
  (\<^verbatim>\<open>common.h\<close>, \<^verbatim>\<open>details/log_msg.h\<close>, \<^verbatim>\<open>details/fmt_helper.h\<close>): levels and their names, source
  locations, messages, and the appending of strings and padded numbers to a memory buffer. A memory buffer is its
  contents. Times are nanoseconds since the epoch.

  The lemmas give the exact text every helper appends; none of them fails.
\<close>

section \<open>Levels\<close>

datatype level_enum =
  level_trace | level_debug | level_info | level_warn | level_err | level_critical | level_off

definition level_code :: "level_enum \<Rightarrow> nat" where
  "level_code l = (case l of level_trace \<Rightarrow> 0 | level_debug \<Rightarrow> 1 | level_info \<Rightarrow> 2 | level_warn \<Rightarrow> 3
     | level_err \<Rightarrow> 4 | level_critical \<Rightarrow> 5 | level_off \<Rightarrow> 6)"

definition level_string_views :: "string list" where
  "level_string_views = [''trace'', ''debug'', ''info'', ''warning'', ''error'', ''critical'', ''off'']"

definition short_level_names :: "string list" where
  "short_level_names = [''T'', ''D'', ''I'', ''W'', ''E'', ''C'', ''O'']"

definition level_to_string_view :: "level_enum \<Rightarrow> string" where
  "level_to_string_view l = level_string_views ! level_code l"

definition level_to_short_c_str :: "level_enum \<Rightarrow> string" where
  "level_to_short_c_str l = short_level_names ! level_code l"

definition level_of_code :: "nat \<Rightarrow> level_enum" where
  "level_of_code n = (if n = 0 then level_trace else if n = 1 then level_debug else if n = 2 then level_info
     else if n = 3 then level_warn else if n = 4 then level_err else if n = 5 then level_critical
     else level_off)"

fun level_from_str_loop :: "string \<Rightarrow> string list \<Rightarrow> nat \<Rightarrow> level_enum" where
  "level_from_str_loop nm [] level = level_off"
| "level_from_str_loop nm (s # ss) level =
     (if s = nm then level_of_code level else level_from_str_loop nm ss (level + 1))"

definition level_from_str :: "string \<Rightarrow> level_enum" where
  "level_from_str nm = level_from_str_loop nm level_string_views 0"

section \<open>Messages\<close>

record source_loc =
  sl_filename :: string
  sl_line :: nat

definition source_loc_empty :: "source_loc \<Rightarrow> bool" where
  "source_loc_empty loc \<longleftrightarrow> sl_line loc = 0"

definition no_source :: source_loc where
  "no_source = \<lparr>sl_filename = [], sl_line = 0\<rparr>"

text \<open>The line number is converted from \<^verbatim>\<open>int\<close> to 32 bits.\<close>

definition source_loc_new :: "string \<Rightarrow> int \<Rightarrow> source_loc" where
  "source_loc_new filename line = \<lparr>sl_filename = filename, sl_line = nat (line mod 2 ^ 32)\<rparr>"

record log_msg =
  lm_logger_name :: string
  lm_level :: level_enum
  lm_time :: int
  lm_thread_id :: nat
  lm_msg_id :: nat
  lm_color_start :: nat
  lm_color_end :: nat
  lm_source :: source_loc
  lm_payload :: string

definition log_msg_new :: "int \<Rightarrow> nat \<Rightarrow> source_loc \<Rightarrow> string \<Rightarrow> level_enum \<Rightarrow> string \<Rightarrow> log_msg" where
  "log_msg_new now tid loc nm lvl view =
     \<lparr>lm_logger_name = nm, lm_level = lvl, lm_time = now, lm_thread_id = tid, lm_msg_id = 0,
      lm_color_start = 0, lm_color_end = 0, lm_source = loc, lm_payload = view\<rparr>"

text \<open>The fields fit their types.\<close>

definition msg_ok :: "log_msg \<Rightarrow> bool" where
  "msg_ok m \<longleftrightarrow> - (2 ^ 63) \<le> lm_time m \<and> lm_time m < 2 ^ 63 \<and> lm_thread_id m < 2 ^ 64 \<and>
     lm_msg_id m < 2 ^ 64 \<and> sl_line (lm_source m) < 2 ^ 32"

section \<open>Calendar time\<close>

record tm =
  tm_sec :: int
  tm_min :: int
  tm_hour :: int
  tm_mday :: int
  tm_mon :: int
  tm_year :: int
  tm_wday :: int
  tm_gmtoff :: int

definition zero_tm :: tm where
  "zero_tm = \<lparr>tm_sec = 0, tm_min = 0, tm_hour = 0, tm_mday = 0, tm_mon = 0, tm_year = 0, tm_wday = 0,
     tm_gmtoff = 0\<rparr>"

section \<open>Appending\<close>

text \<open>
  What is appended to a memory buffer may fail; a sequence of appending calls is a list, run in order. The environment of
  the formatting library gives the contents of uninitialised memory.
\<close>

type_synonym appender = "string \<Rightarrow> string res"

definition do_append :: "appender list \<Rightarrow> appender" where
  "do_append fs = res_fold (\<lambda>f dest. f dest) fs"

definition push_back :: "char \<Rightarrow> appender" where
  "push_back c dest = Inr (dest @ [c])"

definition append_buf :: "string \<Rightarrow> appender" where
  "append_buf buf dest = Inr (dest @ buf)"

definition append_string_view :: "string \<Rightarrow> appender" where
  "append_string_view view dest = Inr (dest @ view)"

text \<open>An element of a static array of strings; the subscript is not checked by the code.\<close>

definition append_name :: "string list \<Rightarrow> int \<Rightarrow> appender" where
  "append_name names i dest =
     (if 0 \<le> i \<and> nat i < length names then append_string_view (names ! nat i) dest else Inl Out_of_bounds)"

definition append_int :: "fmt_env \<Rightarrow> int \<Rightarrow> appender" where
  "append_int env n dest =
     res_bind (format_int_signed (uninit env BUFFER_SIZE) n) (\<lambda>i. Inr (dest @ format_int_str i))"

definition append_uint :: "fmt_env \<Rightarrow> nat \<Rightarrow> appender" where
  "append_uint env n dest =
     res_bind (format_int_unsigned (uninit env BUFFER_SIZE) n) (\<lambda>i. Inr (dest @ format_int_str i))"

definition pad2 :: "fmt_env \<Rightarrow> int \<Rightarrow> appender" where
  "pad2 env n dest =
     (if n > 99 then append_int env n dest
      else if n > 9 then
        do_append [push_back (digit_char (nat (n div 10))), push_back (digit_char (nat (n mod 10)))] dest
      else if n \<ge> 0 then
        do_append [push_back (CHR ''0''), push_back (digit_char (nat n))] dest
      else format_to env dest ''{:02}'' [Plain (Arg_int n)])"

text \<open>Unsigned numbers of \<open>w\<close> bits; the string of zeros has 19 characters.\<close>

definition pad_uint :: "fmt_env \<Rightarrow> nat \<Rightarrow> nat \<Rightarrow> nat \<Rightarrow> appender" where
  "pad_uint env w n width dest =
     (let digits = count_digits w n in
      res_bind
        (if width > digits then
           res_bind (copy_n (replicate 19 (CHR ''0'')) (width - digits)) (\<lambda>z. Inr (dest @ z))
         else Inr dest) (append_uint env n))"

definition pad3 :: "fmt_env \<Rightarrow> nat \<Rightarrow> nat \<Rightarrow> appender" where
  "pad3 env w n = pad_uint env w n 3"

definition pad6 :: "fmt_env \<Rightarrow> nat \<Rightarrow> nat \<Rightarrow> appender" where
  "pad6 env w n = pad_uint env w n 6"

definition pad9 :: "fmt_env \<Rightarrow> nat \<Rightarrow> nat \<Rightarrow> appender" where
  "pad9 env w n = pad_uint env w n 9"

text \<open>\<^verbatim>\<open>duration_cast\<close> truncates towards zero.\<close>

definition to_secs :: "int \<Rightarrow> int" where
  "to_secs ns = ns sdiv 1000000000"

definition time_fraction :: "int \<Rightarrow> int \<Rightarrow> int" where
  "time_fraction per_sec ns =
     ns sdiv (1000000000 div per_sec) - to_secs ns * per_sec"

section \<open>Texts of the helpers\<close>

named_theorems append_simps \<open>what the helpers append\<close>

lemma do_append_Nil [append_simps]: "do_append [] dest = Inr dest"
  by (simp add: do_append_def)

lemma do_append_Cons [append_simps]: "do_append (f # fs) dest = res_bind (f dest) (do_append fs)"
  by (simp add: do_append_def)

lemma push_back_eq [append_simps]: "push_back c dest = Inr (dest @ [c])"
  by (simp add: push_back_def)

lemma append_string_view_eq [append_simps]: "append_string_view s dest = Inr (dest @ s)"
  by (simp add: append_string_view_def)

lemma append_buf_eq [append_simps]: "append_buf s dest = Inr (dest @ s)"
  by (simp add: append_buf_def)

lemma append_int_eq:
  assumes "- (2 ^ 63) \<le> n" "n < 2 ^ 63"
  shows "append_int env n dest = Inr (dest @ signed_decimal n)"
proof -
  obtain f where "format_int_signed (uninit env BUFFER_SIZE) n = Inr f" "format_int_str f = signed_decimal n"
    using format_int_signed_correct [OF assms, of "uninit env BUFFER_SIZE"] by (auto simp: res_simps)
  then show ?thesis by (simp add: append_int_def)
qed

lemma append_uint_eq:
  assumes "n < 2 ^ 64"
  shows "append_uint env n dest = Inr (dest @ decimal n)"
proof -
  obtain f where "format_int_unsigned (uninit env BUFFER_SIZE) n = Inr f" "format_int_str f = decimal n"
    using format_int_unsigned_correct [OF assms, of "uninit env BUFFER_SIZE"] by (auto simp: res_simps)
  then show ?thesis by (simp add: append_uint_def)
qed

text \<open>A number with at least \<open>k\<close> digits.\<close>

definition zero_padded :: "nat \<Rightarrow> nat \<Rightarrow> string" where
  "zero_padded k n = replicate (k - length (decimal n)) (CHR ''0'') @ decimal n"

definition two_digits :: "int \<Rightarrow> string" where
  "two_digits n = (if n < 0 then signed_decimal n else zero_padded 2 (nat n))"

lemma length_zero_padded: "length (zero_padded k n) = max k (length (decimal n))"
  by (simp add: zero_padded_def)

lemma two_digits_length: "0 \<le> n \<Longrightarrow> n \<le> 99 \<Longrightarrow> length (two_digits n) = 2"
  using length_decimal_le [of "nat n" 2] by (simp add: two_digits_def length_zero_padded)

lemma digit_char_0 [simp]: "digit_char 0 = CHR ''0''"
  by (simp add: digit_char_def char_of_def bit_Suc_0_iff)

text \<open>The specifier of the last branch of \<^verbatim>\<open>pad2\<close>, parsed and applied.\<close>

lemma format_02:
  assumes "- (2 ^ 31) \<le> n" "n < 0"
  shows "format_to env dest ''{:02}'' [Plain (Arg_int n)] = Inr (dest @ signed_decimal n)"
proof -
  let ?as = "[Plain (Arg_int n)]" and ?sp = "default_specs\<lparr>fs_align := ALIGN_NUMERIC, fs_fill := CHR ''0'', fs_width := 2\<rparr>"
  have ok: "store_ok ?as" using assms by (simp add: store_ok_def deserialize_def)
  have specs: "parse_format_specs (make_format_args ?as) int_type ''02}'' (default_specs, 1) = Inr (''}'', ?sp, 1)"
    by (simp add: parse_format_specs_def parse_align_def parse_sign_def parse_hash_zero_def parse_width_def
       parse_precision_def parse_type_def on_zero_def on_width_def require_numeric_argument_def is_arithmetic_def
       arg_type_code_def align_of_def is_digit_char_def parse_nonnegative_int_def max_int_def Let_def)
  have len: "2 - length ''-'' - length (decimal (nat (- n))) = 0"
    using length_decimal_pos [of "nat (- n)"] by (simp del: length_decimal_pos length_greater_0_conv)
  have tx: "format_integer env (Some ?sp) 32 n = Inr (signed_decimal n)"
    unfolding format_integer_def
    using assms len
    by (simp add: write_int_correct int_width_def int_fits_def default_specs_def int_type_chars_def digits_text_def
        handle_int_type_spec_def int_text_def sign_text_def base_prefix_def fs_flag_def signed_decimal_def Let_def)
  show ?thesis
    unfolding format_to_def vformat_to_def
    by (subst parse_format_string.simps)
       (simp add: Let_def write_literal_Nil parse_arg_id_def on_arg_id_def next_arg_id_def
         do_get_arg_make [OF ok] deserialize_def on_format_specs_def specs tx on_text_def
         parse_format_string.simps [of _ _ "[]"])
qed

lemma pad2_eq:
  assumes "- (2 ^ 31) \<le> n" "n < 2 ^ 31"
  shows "pad2 env n dest = Inr (dest @ two_digits n)"
proof -
  consider "n > 99" | "10 \<le> n" "n \<le> 99" | "0 \<le> n" "n < 10" | "n < 0" by linarith
  then show ?thesis
  proof cases
    case 1
    then have "10 ^ 2 \<le> nat n" by simp
    from length_decimal_ge [OF this] 1 assms show ?thesis
      by (simp add: pad2_def append_int_eq two_digits_def zero_padded_def signed_decimal_def)
  next
    case 2
    then have "10 \<le> nat n" "nat n < 100" by linarith+
    with 2 show ?thesis
      by (simp add: pad2_def append_simps two_digits_def zero_padded_def decimal_pair nat_div_distrib nat_mod_distrib)
  next
    case 3
    then have "nat n < 10" by linarith
    with 3 show ?thesis
      by (simp add: pad2_def append_simps two_digits_def zero_padded_def decimal_small)
  next
    case 4
    then show ?thesis using assms by (simp add: pad2_def format_02 two_digits_def)
  qed
qed

lemma pad_uint_eq:
  assumes "int_width w" "n < 2 ^ w" "width \<le> 19"
  shows "pad_uint env w n width dest = Inr (dest @ zero_padded width n)"
proof -
  have n: "n < 2 ^ 64" using assms by (auto simp: int_width_def)
  show ?thesis
    using assms(3) by (auto simp: pad_uint_def Let_def count_digits_correct [OF assms(1,2)] append_uint_eq [OF n]
        zero_padded_def min_def)
qed

lemma to_secs_bounds:
  assumes "- (2 ^ 63) \<le> ns" "ns < 2 ^ 63"
  shows "- (2 ^ 63) \<le> to_secs ns" "to_secs ns < 2 ^ 63"
  using assms by (auto simp: to_secs_def signed_divide_int_def sgn_if zdiv_zminus1_eq_if)

lemma level_names [simp]:
  "level_to_string_view level_trace = ''trace''" "level_to_string_view level_debug = ''debug''"
  "level_to_string_view level_info = ''info''" "level_to_string_view level_warn = ''warning''"
  "level_to_string_view level_err = ''error''" "level_to_string_view level_critical = ''critical''"
  "level_to_string_view level_off = ''off''"
  by (simp_all add: level_to_string_view_def level_string_views_def level_code_def)

lemma level_from_str_to_string: "level_from_str (level_to_string_view l) = l"
  by (cases l) (simp_all add: level_from_str_def level_string_views_def level_of_code_def)

end
