(* ===== verification/Log_Pattern.thy ===== *)
theory Log_Pattern
  imports Log_Message
begin

text \<open>
  Patterns of log lines (\<^verbatim>\<open>details/pattern_formatter.h\<close>): padding, one formatter per flag,
  the compiler of patterns and the class \<^verbatim>\<open>pattern_formatter\<close> with its cached calendar time and the
  cached date of its full formatter. The preprocessor switches have their default values on Linux: dates, names and thread ids are
  on, the message counter is off.

  The lemmas give the text of every flag, show that no pattern and no message makes formatting fail, that the caches
  do not change what is written, and how patterns are split into literal text and flags.
\<close>

section \<open>Environment\<close>

text \<open>The conversions of times by the operating system and the number of the process.\<close>

record log_env =
  le_fmt :: fmt_env
  le_localtime :: "int \<Rightarrow> tm"
  le_gmtime :: "int \<Rightarrow> tm"
  le_pid :: int

section \<open>Padding\<close>

datatype pad_side = pad_left | pad_right | pad_center

record padding_info =
  pi_width :: nat
  pi_side :: pad_side

definition no_padding :: padding_info where
  "no_padding = \<lparr>pi_width = 0, pi_side = pad_left\<rparr>"

definition padding_enabled :: "padding_info \<Rightarrow> bool" where
  "padding_enabled p \<longleftrightarrow> pi_width p \<noteq> 0"

definition pad_it :: "nat \<Rightarrow> appender" where
  "pad_it count dest =
     (if \<not> count \<le> 128 then Inl Assert_failed
      else append_string_view (take count (replicate 128 (CHR '' ''))) dest)"

text \<open>The constructor gives the padding that is left for the destructor.\<close>

definition scoped_pad_new :: "nat \<Rightarrow> padding_info \<Rightarrow> string \<Rightarrow> (nat \<times> string) res" where
  "scoped_pad_new wrapped_size p dest =
     (if pi_width p \<le> wrapped_size then Inr (0, dest)
      else
        let total_pad = pi_width p - wrapped_size in
        if pi_side p = pad_left then res_bind (pad_it total_pad dest) (\<lambda>dest. Inr (0, dest))
        else if pi_side p = pad_center then
          let half_pad = total_pad div 2; reminder = total_pad AND 1 in
          res_bind (pad_it half_pad dest) (\<lambda>dest. Inr (half_pad + reminder, dest))
        else Inr (total_pad, dest))"

definition scoped_pad_delete :: "nat \<Rightarrow> appender" where
  "scoped_pad_delete total_pad dest = (if total_pad \<noteq> 0 then pad_it total_pad dest else Inr dest)"

text \<open>A block with a local \<^verbatim>\<open>scoped_pad\<close>.\<close>

definition with_pad :: "nat \<Rightarrow> padding_info \<Rightarrow> appender list \<Rightarrow> appender" where
  "with_pad wrapped_size p body dest =
     res_bind (scoped_pad_new wrapped_size p dest) (\<lambda>(total_pad, dest).
     res_bind (do_append body dest) (scoped_pad_delete total_pad))"

section \<open>Names and clocks\<close>

definition ampm :: "tm \<Rightarrow> string" where
  "ampm t = (if tm_hour t \<ge> 12 then ''PM'' else ''AM'')"

definition to12h :: "tm \<Rightarrow> int" where
  "to12h t = (if tm_hour t > 12 then tm_hour t - 12 else tm_hour t)"

definition days :: "string list" where
  "days = [''Sun'', ''Mon'', ''Tue'', ''Wed'', ''Thu'', ''Fri'', ''Sat'']"

definition full_days :: "string list" where
  "full_days = [''Sunday'', ''Monday'', ''Tuesday'', ''Wednesday'', ''Thursday'', ''Friday'', ''Saturday'']"

definition months :: "string list" where
  "months = [''Jan'', ''Feb'', ''Mar'', ''Apr'', ''May'', ''Jun'', ''Jul'', ''Aug'', ''Sept'', ''Oct'',
     ''Nov'', ''Dec'']"

definition full_months :: "string list" where
  "full_months = [''January'', ''February'', ''March'', ''April'', ''May'', ''June'', ''July'', ''August'',
     ''September'', ''October'', ''November'', ''December'']"

definition utc_minutes_offset :: "tm \<Rightarrow> int" where
  "utc_minutes_offset t = tm_gmtoff t sdiv 60"

section \<open>Flag formatters\<close>

text \<open>The name of the logger, the level and its letter.\<close>

definition name_formatter_format :: "padding_info \<Rightarrow> log_msg \<Rightarrow> appender" where
  "name_formatter_format p msg =
     (if padding_enabled p then
        with_pad (length (lm_logger_name msg)) p [append_string_view (lm_logger_name msg)]
      else append_string_view (lm_logger_name msg))"

definition level_formatter_format :: "padding_info \<Rightarrow> log_msg \<Rightarrow> appender" where
  "level_formatter_format p msg =
     (let level_name = level_to_string_view (lm_level msg) in
      if padding_enabled p then with_pad (length level_name) p [append_string_view level_name]
      else append_string_view level_name)"

definition short_level_formatter_format :: "padding_info \<Rightarrow> log_msg \<Rightarrow> appender" where
  "short_level_formatter_format p msg =
     (let level_name = level_to_short_c_str (lm_level msg) in
      with_pad (length level_name) p [append_string_view level_name])"

text \<open>Names of days and months: the view of the field is made before the padding.\<close>

definition name_field :: "string list \<Rightarrow> int \<Rightarrow> padding_info \<Rightarrow> appender" where
  "name_field names i p dest =
     (if 0 \<le> i \<and> nat i < length names then
        let field_value = names ! nat i in
        with_pad (length field_value) p [append_string_view field_value] dest
      else Inl Out_of_bounds)"

definition a_formatter_format :: "padding_info \<Rightarrow> tm \<Rightarrow> appender" where
  "a_formatter_format p tm_time = name_field days (tm_wday tm_time) p"

definition A_formatter_format :: "padding_info \<Rightarrow> tm \<Rightarrow> appender" where
  "A_formatter_format p tm_time = name_field full_days (tm_wday tm_time) p"

definition b_formatter_format :: "padding_info \<Rightarrow> tm \<Rightarrow> appender" where
  "b_formatter_format p tm_time = name_field months (tm_mon tm_time) p"

definition B_formatter_format :: "padding_info \<Rightarrow> tm \<Rightarrow> appender" where
  "B_formatter_format p tm_time = name_field full_months (tm_mon tm_time) p"

text \<open>Dates and times; the width of each field is a constant.\<close>

definition c_formatter_format :: "fmt_env \<Rightarrow> padding_info \<Rightarrow> tm \<Rightarrow> appender" where
  "c_formatter_format env p tm_time = with_pad 24 p
     [append_name days (tm_wday tm_time), push_back (CHR '' ''),
      append_name months (tm_mon tm_time), push_back (CHR '' ''),
      append_int env (tm_mday tm_time), push_back (CHR '' ''),
      pad2 env (tm_hour tm_time), push_back (CHR '':''),
      pad2 env (tm_min tm_time), push_back (CHR '':''),
      pad2 env (tm_sec tm_time), push_back (CHR '' ''),
      append_int env (tm_year tm_time + 1900)]"

definition C_formatter_format :: "fmt_env \<Rightarrow> padding_info \<Rightarrow> tm \<Rightarrow> appender" where
  "C_formatter_format env p tm_time = with_pad 2 p [pad2 env (tm_year tm_time smod 100)]"

definition D_formatter_format :: "fmt_env \<Rightarrow> padding_info \<Rightarrow> tm \<Rightarrow> appender" where
  "D_formatter_format env p tm_time = with_pad 10 p
     [pad2 env (tm_mon tm_time + 1), push_back (CHR ''/''),
      pad2 env (tm_mday tm_time), push_back (CHR ''/''),
      pad2 env (tm_year tm_time smod 100)]"

definition Y_formatter_format :: "fmt_env \<Rightarrow> padding_info \<Rightarrow> tm \<Rightarrow> appender" where
  "Y_formatter_format env p tm_time = with_pad 4 p [append_int env (tm_year tm_time + 1900)]"

definition m_formatter_format :: "fmt_env \<Rightarrow> padding_info \<Rightarrow> tm \<Rightarrow> appender" where
  "m_formatter_format env p tm_time = with_pad 2 p [pad2 env (tm_mon tm_time + 1)]"

definition d_formatter_format :: "fmt_env \<Rightarrow> padding_info \<Rightarrow> tm \<Rightarrow> appender" where
  "d_formatter_format env p tm_time = with_pad 2 p [pad2 env (tm_mday tm_time)]"

definition H_formatter_format :: "fmt_env \<Rightarrow> padding_info \<Rightarrow> tm \<Rightarrow> appender" where
  "H_formatter_format env p tm_time = with_pad 2 p [pad2 env (tm_hour tm_time)]"

definition I_formatter_format :: "fmt_env \<Rightarrow> padding_info \<Rightarrow> tm \<Rightarrow> appender" where
  "I_formatter_format env p tm_time = with_pad 2 p [pad2 env (to12h tm_time)]"

definition M_formatter_format :: "fmt_env \<Rightarrow> padding_info \<Rightarrow> tm \<Rightarrow> appender" where
  "M_formatter_format env p tm_time = with_pad 2 p [pad2 env (tm_min tm_time)]"

definition S_formatter_format :: "fmt_env \<Rightarrow> padding_info \<Rightarrow> tm \<Rightarrow> appender" where
  "S_formatter_format env p tm_time = with_pad 2 p [pad2 env (tm_sec tm_time)]"

text \<open>Fractions of a second, cast to unsigned numbers of 32 and 64 bits.\<close>

definition e_formatter_format :: "fmt_env \<Rightarrow> padding_info \<Rightarrow> log_msg \<Rightarrow> appender" where
  "e_formatter_format env p msg =
     (let millis = time_fraction 1000 (lm_time msg) in
      if padding_enabled p then with_pad 3 p [pad3 env 32 (unsigned_of 32 millis)]
      else pad3 env 32 (unsigned_of 32 millis))"

definition f_formatter_format :: "fmt_env \<Rightarrow> padding_info \<Rightarrow> log_msg \<Rightarrow> appender" where
  "f_formatter_format env p msg =
     (let micros = time_fraction 1000000 (lm_time msg) in
      if padding_enabled p then with_pad 6 p [pad6 env 64 (unsigned_of 64 micros)]
      else pad6 env 64 (unsigned_of 64 micros))"

definition F_formatter_format :: "fmt_env \<Rightarrow> padding_info \<Rightarrow> log_msg \<Rightarrow> appender" where
  "F_formatter_format env p msg =
     (let ns = time_fraction 1000000000 (lm_time msg) in
      if padding_enabled p then with_pad 9 p [pad9 env 64 (unsigned_of 64 ns)]
      else pad9 env 64 (unsigned_of 64 ns))"

definition E_formatter_format :: "fmt_env \<Rightarrow> padding_info \<Rightarrow> log_msg \<Rightarrow> appender" where
  "E_formatter_format env p msg = with_pad 10 p [append_int env (to_secs (lm_time msg))]"

definition p_formatter_format :: "padding_info \<Rightarrow> tm \<Rightarrow> appender" where
  "p_formatter_format p tm_time = with_pad 2 p [append_string_view (ampm tm_time)]"

definition r_formatter_format :: "fmt_env \<Rightarrow> padding_info \<Rightarrow> tm \<Rightarrow> appender" where
  "r_formatter_format env p tm_time = with_pad 11 p
     [pad2 env (to12h tm_time), push_back (CHR '':''),
      pad2 env (tm_min tm_time), push_back (CHR '':''),
      pad2 env (tm_sec tm_time), push_back (CHR '' ''),
      append_string_view (ampm tm_time)]"

definition R_formatter_format :: "fmt_env \<Rightarrow> padding_info \<Rightarrow> tm \<Rightarrow> appender" where
  "R_formatter_format env p tm_time = with_pad 5 p
     [pad2 env (tm_hour tm_time), push_back (CHR '':''), pad2 env (tm_min tm_time)]"

definition T_formatter_format :: "fmt_env \<Rightarrow> padding_info \<Rightarrow> tm \<Rightarrow> appender" where
  "T_formatter_format env p tm_time = with_pad 8 p
     [pad2 env (tm_hour tm_time), push_back (CHR '':''),
      pad2 env (tm_min tm_time), push_back (CHR '':''),
      pad2 env (tm_sec tm_time)]"

definition z_formatter_format :: "fmt_env \<Rightarrow> padding_info \<Rightarrow> tm \<Rightarrow> appender" where
  "z_formatter_format env p tm_time =
     (let total_minutes = utc_minutes_offset tm_time;
          is_negative = total_minutes < 0;
          total_minutes = (if is_negative then - total_minutes else total_minutes)
      in with_pad 6 p
        [push_back (if is_negative then CHR ''-'' else CHR ''+''),
         pad2 env (total_minutes sdiv 60), push_back (CHR '':''),
         pad2 env (total_minutes smod 60)])"

text \<open>Thread, process, counter, text, source location.\<close>

definition t_formatter_format :: "fmt_env \<Rightarrow> padding_info \<Rightarrow> log_msg \<Rightarrow> appender" where
  "t_formatter_format env p msg =
     (if padding_enabled p then
        with_pad (count_digits 64 (lm_thread_id msg)) p [append_uint env (lm_thread_id msg)]
      else append_uint env (lm_thread_id msg))"

definition pid_formatter_format :: "fmt_env \<Rightarrow> int \<Rightarrow> padding_info \<Rightarrow> appender" where
  "pid_formatter_format env os_pid p =
     (let pid = unsigned_of 32 os_pid in
      if padding_enabled p then with_pad (count_digits 32 pid) p [append_uint env pid]
      else append_uint env pid)"

definition i_formatter_format :: "fmt_env \<Rightarrow> padding_info \<Rightarrow> log_msg \<Rightarrow> appender" where
  "i_formatter_format env p msg = with_pad 6 p [pad6 env 64 (lm_msg_id msg)]"

definition v_formatter_format :: "padding_info \<Rightarrow> log_msg \<Rightarrow> appender" where
  "v_formatter_format p msg =
     (if padding_enabled p then with_pad (length (lm_payload msg)) p [append_string_view (lm_payload msg)]
      else append_string_view (lm_payload msg))"

definition ch_formatter_format :: "char \<Rightarrow> appender" where
  "ch_formatter_format ch = with_pad 1 no_padding [push_back ch]"

definition aggregate_add_ch :: "char \<Rightarrow> string \<Rightarrow> string" where
  "aggregate_add_ch ch str = str @ [ch]"

definition aggregate_formatter_format :: "string \<Rightarrow> appender" where
  "aggregate_formatter_format str = append_string_view str"

definition color_start_formatter_format :: "log_msg \<Rightarrow> string \<Rightarrow> log_msg" where
  "color_start_formatter_format msg dest = msg\<lparr>lm_color_start := length dest\<rparr>"

definition color_stop_formatter_format :: "log_msg \<Rightarrow> string \<Rightarrow> log_msg" where
  "color_stop_formatter_format msg dest = msg\<lparr>lm_color_end := length dest\<rparr>"

definition source_location_formatter_format :: "fmt_env \<Rightarrow> padding_info \<Rightarrow> log_msg \<Rightarrow> appender" where
  "source_location_formatter_format env p msg dest =
     (let loc = lm_source msg in
      if source_loc_empty loc then Inr dest
      else
        let body = [append_string_view (sl_filename loc), push_back (CHR '':''), append_uint env (sl_line loc)] in
        if padding_enabled p then
          let text_size = length (sl_filename loc) + count_digits 32 (sl_line loc) + 1
          in with_pad text_size p body dest
        else do_append body dest)"

definition source_filename_formatter_format :: "padding_info \<Rightarrow> log_msg \<Rightarrow> appender" where
  "source_filename_formatter_format p msg dest =
     (let loc = lm_source msg in
      if source_loc_empty loc then Inr dest
      else with_pad (length (sl_filename loc)) p [append_string_view (sl_filename loc)] dest)"

definition source_linenum_formatter_format :: "fmt_env \<Rightarrow> padding_info \<Rightarrow> log_msg \<Rightarrow> appender" where
  "source_linenum_formatter_format env p msg dest =
     (let loc = lm_source msg in
      if source_loc_empty loc then Inr dest
      else if padding_enabled p then
        with_pad (count_digits 32 (sl_line loc)) p [append_uint env (sl_line loc)] dest
      else append_uint env (sl_line loc) dest)"

text \<open>The full formatter with its cache: the second of the cached date and its text.\<close>

record full_cache =
  fc_timestamp :: int
  fc_datetime :: string

definition empty_cache :: full_cache where
  "empty_cache = \<lparr>fc_timestamp = 0, fc_datetime = []\<rparr>"

definition full_formatter_datetime :: "fmt_env \<Rightarrow> tm \<Rightarrow> appender" where
  "full_formatter_datetime env tm_time = do_append
     [push_back (CHR ''[''), append_int env (tm_year tm_time + 1900), push_back (CHR ''-''),
      pad2 env (tm_mon tm_time + 1), push_back (CHR ''-''),
      pad2 env (tm_mday tm_time), push_back (CHR '' ''),
      pad2 env (tm_hour tm_time), push_back (CHR '':''),
      pad2 env (tm_min tm_time), push_back (CHR '':''),
      pad2 env (tm_sec tm_time), push_back (CHR ''.'')]"

definition full_formatter_cache :: "fmt_env \<Rightarrow> log_msg \<Rightarrow> tm \<Rightarrow> full_cache \<Rightarrow> full_cache res" where
  "full_formatter_cache env msg tm_time fc =
     (let secs = to_secs (lm_time msg) in
      if fc_timestamp fc \<noteq> secs \<or> length (fc_datetime fc) = 0 then
        res_bind (full_formatter_datetime env tm_time []) (\<lambda>dt.
          Inr \<lparr>fc_timestamp = secs, fc_datetime = dt\<rparr>)
      else Inr fc)"

definition full_formatter_format ::
  "fmt_env \<Rightarrow> full_cache \<Rightarrow> log_msg \<Rightarrow> tm \<Rightarrow> string \<Rightarrow> (full_cache \<times> log_msg \<times> string) res" where
  "full_formatter_format env fc msg tm_time dest =
     res_bind (full_formatter_cache env msg tm_time fc) (\<lambda>fc.
     let millis = time_fraction 1000 (lm_time msg);
         nm = lm_logger_name msg;
         loc = lm_source msg in
     res_bind (do_append
       ([append_buf (fc_datetime fc), pad3 env 32 (unsigned_of 32 millis), push_back (CHR '']''), push_back (CHR '' '')]
        @ (if nm \<noteq> [] then
             [push_back (CHR ''[''), append_string_view nm, push_back (CHR '']''), push_back (CHR '' '')] else [])
        @ [push_back (CHR ''['')]) dest) (\<lambda>dest.
     let msg = msg\<lparr>lm_color_start := length dest\<rparr> in
     res_bind (append_string_view (level_to_string_view (lm_level msg)) dest) (\<lambda>dest.
     let msg = msg\<lparr>lm_color_end := length dest\<rparr> in
     res_bind (do_append
       ([push_back (CHR '']''), push_back (CHR '' '')]
        @ (if \<not> source_loc_empty loc then
             [push_back (CHR ''[''), append_string_view (sl_filename loc), push_back (CHR '':''),
              append_uint env (sl_line loc), push_back (CHR '']''), push_back (CHR '' '')] else [])
        @ [append_string_view (lm_payload msg)]) dest) (\<lambda>dest.
     Inr (fc, msg, dest)))))"

section \<open>Dispatch\<close>

text \<open>The class hierarchy of flag formatters.\<close>

datatype flag_formatter =
    name_formatter padding_info | level_formatter padding_info | short_level_formatter padding_info
  | a_formatter padding_info | A_formatter padding_info | b_formatter padding_info | B_formatter padding_info
  | c_formatter padding_info | C_formatter padding_info | D_formatter padding_info | Y_formatter padding_info
  | m_formatter padding_info | d_formatter padding_info | H_formatter padding_info | I_formatter padding_info
  | M_formatter padding_info | S_formatter padding_info | e_formatter padding_info | f_formatter padding_info
  | F_formatter padding_info | E_formatter padding_info | p_formatter padding_info | r_formatter padding_info
  | R_formatter padding_info | T_formatter padding_info | z_formatter padding_info | t_formatter padding_info
  | pid_formatter padding_info | i_formatter padding_info | v_formatter padding_info
  | ch_formatter char | aggregate_formatter string
  | color_start_formatter padding_info | color_stop_formatter padding_info
  | source_location_formatter padding_info | source_filename_formatter padding_info
  | source_linenum_formatter padding_info | full_formatter padding_info full_cache

text \<open>What a formatter without state of its own appends.\<close>

fun flag_append :: "log_env \<Rightarrow> log_msg \<Rightarrow> tm \<Rightarrow> flag_formatter \<Rightarrow> appender" where
  "flag_append env msg t (name_formatter p) = name_formatter_format p msg"
| "flag_append env msg t (level_formatter p) = level_formatter_format p msg"
| "flag_append env msg t (short_level_formatter p) = short_level_formatter_format p msg"
| "flag_append env msg t (a_formatter p) = a_formatter_format p t"
| "flag_append env msg t (A_formatter p) = A_formatter_format p t"
| "flag_append env msg t (b_formatter p) = b_formatter_format p t"
| "flag_append env msg t (B_formatter p) = B_formatter_format p t"
| "flag_append env msg t (c_formatter p) = c_formatter_format (le_fmt env) p t"
| "flag_append env msg t (C_formatter p) = C_formatter_format (le_fmt env) p t"
| "flag_append env msg t (D_formatter p) = D_formatter_format (le_fmt env) p t"
| "flag_append env msg t (Y_formatter p) = Y_formatter_format (le_fmt env) p t"
| "flag_append env msg t (m_formatter p) = m_formatter_format (le_fmt env) p t"
| "flag_append env msg t (d_formatter p) = d_formatter_format (le_fmt env) p t"
| "flag_append env msg t (H_formatter p) = H_formatter_format (le_fmt env) p t"
| "flag_append env msg t (I_formatter p) = I_formatter_format (le_fmt env) p t"
| "flag_append env msg t (M_formatter p) = M_formatter_format (le_fmt env) p t"
| "flag_append env msg t (S_formatter p) = S_formatter_format (le_fmt env) p t"
| "flag_append env msg t (e_formatter p) = e_formatter_format (le_fmt env) p msg"
| "flag_append env msg t (f_formatter p) = f_formatter_format (le_fmt env) p msg"
| "flag_append env msg t (F_formatter p) = F_formatter_format (le_fmt env) p msg"
| "flag_append env msg t (E_formatter p) = E_formatter_format (le_fmt env) p msg"
| "flag_append env msg t (p_formatter p) = p_formatter_format p t"
| "flag_append env msg t (r_formatter p) = r_formatter_format (le_fmt env) p t"
| "flag_append env msg t (R_formatter p) = R_formatter_format (le_fmt env) p t"
| "flag_append env msg t (T_formatter p) = T_formatter_format (le_fmt env) p t"
| "flag_append env msg t (z_formatter p) = z_formatter_format (le_fmt env) p t"
| "flag_append env msg t (t_formatter p) = t_formatter_format (le_fmt env) p msg"
| "flag_append env msg t (pid_formatter p) = pid_formatter_format (le_fmt env) (le_pid env) p"
| "flag_append env msg t (i_formatter p) = i_formatter_format (le_fmt env) p msg"
| "flag_append env msg t (v_formatter p) = v_formatter_format p msg"
| "flag_append env msg t (ch_formatter c) = ch_formatter_format c"
| "flag_append env msg t (aggregate_formatter s) = aggregate_formatter_format s"
| "flag_append env msg t (source_location_formatter p) = source_location_formatter_format (le_fmt env) p msg"
| "flag_append env msg t (source_filename_formatter p) = source_filename_formatter_format p msg"
| "flag_append env msg t (source_linenum_formatter p) = source_linenum_formatter_format (le_fmt env) p msg"
| "flag_append env msg t (color_start_formatter p) = Inr"
| "flag_append env msg t (color_stop_formatter p) = Inr"
| "flag_append env msg t (full_formatter p fc) = Inr"

text \<open>\<^verbatim>\<open>f->format(msg, tm, dest)\<close>: the formatter, the message with its colour range, and the buffer.\<close>

definition flag_format ::
  "log_env \<Rightarrow> tm \<Rightarrow> flag_formatter \<Rightarrow> log_msg \<times> string \<Rightarrow> (flag_formatter \<times> log_msg \<times> string) res" where
  "flag_format env t f = (\<lambda>(msg, dest).
     case f of
       color_start_formatter p \<Rightarrow> Inr (f, color_start_formatter_format msg dest, dest)
     | color_stop_formatter p \<Rightarrow> Inr (f, color_stop_formatter_format msg dest, dest)
     | full_formatter p fc \<Rightarrow>
         res_bind (full_formatter_format (le_fmt env) fc msg t dest) (\<lambda>(fc, msg, dest).
           Inr (full_formatter p fc, msg, dest))
     | _ \<Rightarrow> res_bind (flag_append env msg t f dest) (\<lambda>dest. Inr (f, msg, dest)))"

section \<open>The pattern formatter\<close>

datatype pattern_time_type = time_local | time_utc

record pattern_formatter =
  pf_pattern :: string
  pf_eol :: string
  pf_time_type :: pattern_time_type
  pf_cached_tm :: tm
  pf_last_log_secs :: int
  pf_formatters :: "flag_formatter list"

definition handle_flag :: "char \<Rightarrow> padding_info \<Rightarrow> flag_formatter" where
  "handle_flag flag p =
     (if flag = CHR ''+'' then full_formatter p empty_cache
      else if flag = CHR ''n'' then name_formatter p
      else if flag = CHR ''l'' then level_formatter p
      else if flag = CHR ''L'' then short_level_formatter p
      else if flag = CHR ''t'' then t_formatter p
      else if flag = CHR ''v'' then v_formatter p
      else if flag = CHR ''a'' then a_formatter p
      else if flag = CHR ''A'' then A_formatter p
      else if flag = CHR ''b'' \<or> flag = CHR ''h'' then b_formatter p
      else if flag = CHR ''B'' then B_formatter p
      else if flag = CHR ''c'' then c_formatter p
      else if flag = CHR ''C'' then C_formatter p
      else if flag = CHR ''Y'' then Y_formatter p
      else if flag = CHR ''D'' \<or> flag = CHR ''x'' then D_formatter p
      else if flag = CHR ''m'' then m_formatter p
      else if flag = CHR ''d'' then d_formatter p
      else if flag = CHR ''H'' then H_formatter p
      else if flag = CHR ''I'' then I_formatter p
      else if flag = CHR ''M'' then M_formatter p
      else if flag = CHR ''S'' then S_formatter p
      else if flag = CHR ''e'' then e_formatter p
      else if flag = CHR ''f'' then f_formatter p
      else if flag = CHR ''F'' then F_formatter p
      else if flag = CHR ''E'' then E_formatter p
      else if flag = CHR ''p'' then p_formatter p
      else if flag = CHR ''r'' then r_formatter p
      else if flag = CHR ''R'' then R_formatter p
      else if flag = CHR ''T'' \<or> flag = CHR ''X'' then T_formatter p
      else if flag = CHR ''z'' then z_formatter p
      else if flag = CHR ''P'' then pid_formatter p
      else if flag = CHR ''^'' then color_start_formatter p
      else if flag = CHR ''$'' then color_stop_formatter p
      else if flag = CHR ''@'' then source_location_formatter p
      else if flag = CHR ''s'' then source_filename_formatter p
      else if flag = CHR ''#'' then source_linenum_formatter p
      else if flag = CHR ''%'' then ch_formatter (CHR ''%'')
      else aggregate_formatter (aggregate_add_ch flag (aggregate_add_ch (CHR ''%'') [])))"

text \<open>The digits of the width, a \<^verbatim>\<open>size_t\<close> that wraps around.\<close>

fun padspec_width :: "nat \<Rightarrow> string \<Rightarrow> nat \<times> string" where
  "padspec_width width [] = (width, [])"
| "padspec_width width (c # it) =
     (if is_digit_char c then padspec_width ((width * 10 + (of_char c - 48)) mod 2 ^ 64) it
      else (width, c # it))"

definition handle_padspec :: "string \<Rightarrow> padding_info \<times> string" where
  "handle_padspec it =
     (if it = [] then (no_padding, it)
      else
        let (side, it) =
          (if hd it = CHR ''-'' then (pad_right, tl it)
           else if hd it = CHR ''='' then (pad_center, tl it)
           else (pad_left, it))
        in if it = [] \<or> \<not> is_digit_char (hd it) then (\<lparr>pi_width = 0, pi_side = side\<rparr>, it)
           else
             let (width, it) = padspec_width (of_char (hd it) - 48) (tl it)
             in (\<lparr>pi_width = min width 128, pi_side = side\<rparr>, it))"

lemma padspec_width_length: "length (snd (padspec_width w it)) \<le> length it"
  by (induction w it rule: padspec_width.induct) (auto intro: le_SucI)

lemma handle_padspec_length: "handle_padspec it = (p, r) \<Longrightarrow> length r \<le> length it"
proof -
  have w: "length (snd (padspec_width w (tl i))) \<le> length i" for w i
    using padspec_width_length [of w "tl i"] by simp
  have "length (snd (handle_padspec it)) \<le> length it"
    using w [of _ it] order_trans [OF w [of _ "tl it"], of "length it"]
    by (auto simp: handle_padspec_def split_beta Let_def)
  then show "handle_padspec it = (p, r) \<Longrightarrow> length r \<le> length it" by simp
qed

text \<open>
  The loop of \<^verbatim>\<open>compile_pattern_\<close>, with the user characters found so far and the formatters
  pushed so far.
\<close>

function compile_loop :: "string \<Rightarrow> string option \<Rightarrow> flag_formatter list \<Rightarrow> flag_formatter list" where
  "compile_loop [] user_chars fs =
     (case user_chars of None \<Rightarrow> fs | Some s \<Rightarrow> fs @ [aggregate_formatter s])"
| "compile_loop (c # it) user_chars fs =
     (if c = CHR ''%'' then
        let fs = (case user_chars of None \<Rightarrow> fs | Some s \<Rightarrow> fs @ [aggregate_formatter s]);
            (p, it) = handle_padspec it
        in if it \<noteq> [] then compile_loop (tl it) None (fs @ [handle_flag (hd it) p])
           else fs
      else
        let s = (case user_chars of None \<Rightarrow> [] | Some s \<Rightarrow> s)
        in compile_loop it (Some (aggregate_add_ch c s)) fs)"
  by pat_completeness auto
termination
  by (relation "measure (\<lambda>(it, u, fs). length it)") (auto dest!: handle_padspec_length [OF sym])

definition compile_pattern :: "string \<Rightarrow> flag_formatter list" where
  "compile_pattern pattern = compile_loop pattern None []"

definition pattern_formatter_new :: "string \<Rightarrow> pattern_time_type \<Rightarrow> string \<Rightarrow> pattern_formatter" where
  "pattern_formatter_new pattern time_type eol =
     \<lparr>pf_pattern = pattern, pf_eol = eol, pf_time_type = time_type, pf_cached_tm = zero_tm,
      pf_last_log_secs = 0, pf_formatters = compile_pattern pattern\<rparr>"

definition pattern_formatter_default :: "pattern_time_type \<Rightarrow> string \<Rightarrow> pattern_formatter" where
  "pattern_formatter_default time_type eol =
     \<lparr>pf_pattern = ''%+'', pf_eol = eol, pf_time_type = time_type, pf_cached_tm = zero_tm,
      pf_last_log_secs = 0, pf_formatters = [full_formatter no_padding empty_cache]\<rparr>"

definition pattern_formatter_clone :: "pattern_formatter \<Rightarrow> pattern_formatter" where
  "pattern_formatter_clone pf = pattern_formatter_new (pf_pattern pf) (pf_time_type pf) (pf_eol pf)"

definition pattern_get_time :: "log_env \<Rightarrow> pattern_time_type \<Rightarrow> log_msg \<Rightarrow> tm" where
  "pattern_get_time env time_type msg =
     (if time_type = time_local then le_localtime env (to_secs (lm_time msg))
      else le_gmtime env (to_secs (lm_time msg)))"

fun format_flags ::
  "log_env \<Rightarrow> tm \<Rightarrow> flag_formatter list \<Rightarrow> log_msg \<times> string \<Rightarrow> (flag_formatter list \<times> log_msg \<times> string) res" where
  "format_flags env t [] s = Inr ([], s)"
| "format_flags env t (f # fs) s =
     res_bind (flag_format env t f s) (\<lambda>(f, s).
     res_bind (format_flags env t fs s) (\<lambda>(fs, s). Inr (f # fs, s)))"

definition pattern_formatter_format ::
  "log_env \<Rightarrow> pattern_formatter \<Rightarrow> log_msg \<times> string \<Rightarrow> (pattern_formatter \<times> log_msg \<times> string) res" where
  "pattern_formatter_format env pf = (\<lambda>(msg, dest).
     let secs = to_secs (lm_time msg);
         pf = (if secs \<noteq> pf_last_log_secs pf
               then pf\<lparr>pf_cached_tm := pattern_get_time env (pf_time_type pf) msg, pf_last_log_secs := secs\<rparr>
               else pf)
     in res_bind (format_flags env (pf_cached_tm pf) (pf_formatters pf) (msg, dest)) (\<lambda>(fs, msg, dest).
        res_bind (append_string_view (pf_eol pf) dest) (\<lambda>dest.
        Inr (pf\<lparr>pf_formatters := fs\<rparr>, msg, dest))))"

section \<open>What the formatters append\<close>

text \<open>An appending call that always succeeds, with the text it appends.\<close>

definition appends :: "appender \<Rightarrow> string \<Rightarrow> bool" where
  "appends f s \<longleftrightarrow> (\<forall>dest. f dest = Inr (dest @ s))"

named_theorems appends_intros \<open>rules for the texts that are appended\<close>

lemma appends_push_back [appends_intros]: "appends (push_back c) [c]"
  by (simp add: appends_def append_simps)

lemma appends_string_view [appends_intros]: "appends (append_string_view s) s"
  by (simp add: appends_def append_simps)

lemma appends_buf [appends_intros]: "appends (append_buf s) s"
  by (simp add: appends_def append_simps)

lemma appends_int [appends_intros]:
  "- (2 ^ 63) \<le> n \<Longrightarrow> n < 2 ^ 63 \<Longrightarrow> appends (append_int env n) (signed_decimal n)"
  by (simp add: appends_def append_int_eq)

lemma appends_uint [appends_intros]: "n < 2 ^ 64 \<Longrightarrow> appends (append_uint env n) (decimal n)"
  by (simp add: appends_def append_uint_eq)

lemma appends_pad2 [appends_intros]:
  "- (2 ^ 31) \<le> n \<Longrightarrow> n < 2 ^ 31 \<Longrightarrow> appends (pad2 env n) (two_digits n)"
  by (simp add: appends_def pad2_eq)

lemma appends_pad3 [appends_intros]:
  "int_width w \<Longrightarrow> n < 2 ^ w \<Longrightarrow> appends (pad3 env w n) (zero_padded 3 n)"
  by (simp add: appends_def pad3_def pad_uint_eq)

lemma appends_pad6 [appends_intros]:
  "int_width w \<Longrightarrow> n < 2 ^ w \<Longrightarrow> appends (pad6 env w n) (zero_padded 6 n)"
  by (simp add: appends_def pad6_def pad_uint_eq)

lemma appends_pad9 [appends_intros]:
  "int_width w \<Longrightarrow> n < 2 ^ w \<Longrightarrow> appends (pad9 env w n) (zero_padded 9 n)"
  by (simp add: appends_def pad9_def pad_uint_eq)

lemma appends_name [appends_intros]:
  "0 \<le> i \<Longrightarrow> nat i < length names \<Longrightarrow> appends (append_name names i) (names ! nat i)"
  by (simp add: appends_def append_name_def append_simps)

lemma appends_Nil [appends_intros]: "appends (do_append []) []"
  by (simp add: appends_def append_simps)

lemma appends_Cons [appends_intros]:
  "appends f s \<Longrightarrow> appends (do_append fs) r \<Longrightarrow> appends (do_append (f # fs)) (s @ r)"
  by (simp add: appends_def append_simps)

lemma do_append_append: "do_append (fs @ gs) dest = res_bind (do_append fs dest) (do_append gs)"
  by (simp add: do_append_def res_fold_append)

lemma appends_append [appends_intros]:
  "appends (do_append fs) s \<Longrightarrow> appends (do_append gs) r \<Longrightarrow> appends (do_append (fs @ gs)) (s @ r)"
  by (simp add: appends_def do_append_append)

text \<open>A field of a nominal size with its padding.\<close>

definition padded :: "padding_info \<Rightarrow> nat \<Rightarrow> string \<Rightarrow> string" where
  "padded p sz s =
     (let k = pi_width p - sz in
      case pi_side p of
        pad_left \<Rightarrow> replicate k (CHR '' '') @ s
      | pad_right \<Rightarrow> s @ replicate k (CHR '' '')
      | pad_center \<Rightarrow> replicate (k div 2) (CHR '' '') @ s @ replicate (k - k div 2) (CHR '' ''))"

lemma padded_disabled [simp]: "\<not> padding_enabled p \<Longrightarrow> padded p sz s = s"
  by (simp add: padding_enabled_def padded_def split: pad_side.splits)

lemma length_padded: "length (padded p (length s) s) = max (pi_width p) (length s)"
proof (cases "pi_side p")
  case pad_center
  have "k div 2 + (n + (k - k div 2)) = k + n" for k n :: nat by linarith
  with pad_center show ?thesis by (simp add: padded_def Let_def)
qed (simp_all add: padded_def Let_def)

lemma pad_it_eq: "k \<le> 128 \<Longrightarrow> pad_it k dest = Inr (dest @ replicate k (CHR '' ''))"
  by (simp add: pad_it_def append_simps min_def)

lemma appends_with_pad [appends_intros]:
  assumes "pi_width p \<le> 128" "appends (do_append body) s"
  shows "appends (with_pad sz p body) (padded p sz s)"
proof -
  define k where "k = pi_width p - sz"
  have le: "k \<le> 128" "pi_width p \<le> sz \<longleftrightarrow> k = 0" using assms(1) by (auto simp: k_def)
  have half: "k div 2 + k mod 2 = k - k div 2" by presburger
  have "k div 2 \<le> 128" "k - k div 2 \<le> 128" "k - k div 2 = 0 \<longleftrightarrow> k = 0" using le(1) by auto
  with assms(2) le show ?thesis
    by (cases "pi_side p")
       (auto simp: appends_def with_pad_def scoped_pad_new_def scoped_pad_delete_def padded_def Let_def pad_it_eq
         and_one_eq half k_def [symmetric])
qed

definition pad_ok :: "padding_info \<Rightarrow> bool" where
  "pad_ok p \<longleftrightarrow> pi_width p \<le> 128"

text \<open>Calendar times that the operating system may return, and the zeroed one of a new formatter.\<close>

definition tm_ok :: "tm \<Rightarrow> bool" where
  "tm_ok t \<longleftrightarrow> tm_wday t \<in> {0..6} \<and> tm_mon t \<in> {0..11} \<and> tm_sec t \<in> {0..60} \<and> tm_min t \<in> {0..59} \<and>
     tm_hour t \<in> {0..23} \<and> tm_mday t \<in> {0..31} \<and> tm_year t \<in> {- 2000000000..2000000000} \<and>
     tm_gmtoff t \<in> {- 172800..172800}"

lemma unsigned_of_less: "unsigned_of w v < 2 ^ w"
  by (simp add: unsigned_of_def nat_less_iff)

definition field :: "padding_info \<Rightarrow> string \<Rightarrow> string" where
  "field p s = padded p (length s) s"

definition clock_text :: "tm \<Rightarrow> string" where
  "clock_text t = two_digits (tm_hour t) @ '':'' @ two_digits (tm_min t) @ '':'' @ two_digits (tm_sec t)"

definition offset_text :: "int \<Rightarrow> string" where
  "offset_text m = (if m < 0 then ''-'' else ''+'') @ two_digits (\<bar>m\<bar> div 60) @ '':'' @ two_digits (\<bar>m\<bar> mod 60)"

definition location_text :: "source_loc \<Rightarrow> string" where
  "location_text loc = sl_filename loc @ '':'' @ decimal (sl_line loc)"

definition datetime_text :: "tm \<Rightarrow> string" where
  "datetime_text t =
     ''['' @ signed_decimal (tm_year t + 1900) @ ''-'' @ two_digits (tm_mon t + 1) @ ''-'' @
     two_digits (tm_mday t) @ '' '' @ clock_text t @ ''.''"

text \<open>The text of every flag but the full formatter; the fields of fixed size may be shorter or longer than that.\<close>

fun flag_text :: "log_env \<Rightarrow> log_msg \<Rightarrow> tm \<Rightarrow> flag_formatter \<Rightarrow> string" where
  "flag_text env msg t (name_formatter p) = field p (lm_logger_name msg)"
| "flag_text env msg t (level_formatter p) = field p (level_to_string_view (lm_level msg))"
| "flag_text env msg t (short_level_formatter p) = field p (level_to_short_c_str (lm_level msg))"
| "flag_text env msg t (a_formatter p) = field p (days ! nat (tm_wday t))"
| "flag_text env msg t (A_formatter p) = field p (full_days ! nat (tm_wday t))"
| "flag_text env msg t (b_formatter p) = field p (months ! nat (tm_mon t))"
| "flag_text env msg t (B_formatter p) = field p (full_months ! nat (tm_mon t))"
| "flag_text env msg t (c_formatter p) = padded p 24
     (days ! nat (tm_wday t) @ '' '' @ months ! nat (tm_mon t) @ '' '' @ signed_decimal (tm_mday t) @ '' '' @
      clock_text t @ '' '' @ signed_decimal (tm_year t + 1900))"
| "flag_text env msg t (C_formatter p) = padded p 2 (two_digits (tm_year t smod 100))"
| "flag_text env msg t (D_formatter p) = padded p 10
     (two_digits (tm_mon t + 1) @ ''/'' @ two_digits (tm_mday t) @ ''/'' @ two_digits (tm_year t smod 100))"
| "flag_text env msg t (Y_formatter p) = padded p 4 (signed_decimal (tm_year t + 1900))"
| "flag_text env msg t (m_formatter p) = padded p 2 (two_digits (tm_mon t + 1))"
| "flag_text env msg t (d_formatter p) = padded p 2 (two_digits (tm_mday t))"
| "flag_text env msg t (H_formatter p) = padded p 2 (two_digits (tm_hour t))"
| "flag_text env msg t (I_formatter p) = padded p 2 (two_digits (to12h t))"
| "flag_text env msg t (M_formatter p) = padded p 2 (two_digits (tm_min t))"
| "flag_text env msg t (S_formatter p) = padded p 2 (two_digits (tm_sec t))"
| "flag_text env msg t (e_formatter p) =
     padded p 3 (zero_padded 3 (unsigned_of 32 (time_fraction 1000 (lm_time msg))))"
| "flag_text env msg t (f_formatter p) =
     padded p 6 (zero_padded 6 (unsigned_of 64 (time_fraction 1000000 (lm_time msg))))"
| "flag_text env msg t (F_formatter p) =
     padded p 9 (zero_padded 9 (unsigned_of 64 (time_fraction 1000000000 (lm_time msg))))"
| "flag_text env msg t (E_formatter p) = padded p 10 (signed_decimal (to_secs (lm_time msg)))"
| "flag_text env msg t (p_formatter p) = field p (ampm t)"
| "flag_text env msg t (r_formatter p) = padded p 11
     (two_digits (to12h t) @ '':'' @ two_digits (tm_min t) @ '':'' @ two_digits (tm_sec t) @ '' '' @ ampm t)"
| "flag_text env msg t (R_formatter p) = padded p 5 (two_digits (tm_hour t) @ '':'' @ two_digits (tm_min t))"
| "flag_text env msg t (T_formatter p) = padded p 8 (clock_text t)"
| "flag_text env msg t (z_formatter p) = padded p 6 (offset_text (utc_minutes_offset t))"
| "flag_text env msg t (t_formatter p) = field p (decimal (lm_thread_id msg))"
| "flag_text env msg t (pid_formatter p) = field p (decimal (unsigned_of 32 (le_pid env)))"
| "flag_text env msg t (i_formatter p) = padded p 6 (zero_padded 6 (lm_msg_id msg))"
| "flag_text env msg t (v_formatter p) = field p (lm_payload msg)"
| "flag_text env msg t (ch_formatter c) = [c]"
| "flag_text env msg t (aggregate_formatter s) = s"
| "flag_text env msg t (source_location_formatter p) =
     (if source_loc_empty (lm_source msg) then [] else field p (location_text (lm_source msg)))"
| "flag_text env msg t (source_filename_formatter p) =
     (if source_loc_empty (lm_source msg) then [] else field p (sl_filename (lm_source msg)))"
| "flag_text env msg t (source_linenum_formatter p) =
     (if source_loc_empty (lm_source msg) then [] else field p (decimal (sl_line (lm_source msg))))"
| "flag_text env msg t _ = []"

fun flag_pad :: "flag_formatter \<Rightarrow> padding_info" where
  "flag_pad (name_formatter p) = p" | "flag_pad (level_formatter p) = p" | "flag_pad (short_level_formatter p) = p"
| "flag_pad (a_formatter p) = p" | "flag_pad (A_formatter p) = p" | "flag_pad (b_formatter p) = p"
| "flag_pad (B_formatter p) = p" | "flag_pad (c_formatter p) = p" | "flag_pad (C_formatter p) = p"
| "flag_pad (D_formatter p) = p" | "flag_pad (Y_formatter p) = p" | "flag_pad (m_formatter p) = p"
| "flag_pad (d_formatter p) = p" | "flag_pad (H_formatter p) = p" | "flag_pad (I_formatter p) = p"
| "flag_pad (M_formatter p) = p" | "flag_pad (S_formatter p) = p" | "flag_pad (e_formatter p) = p"
| "flag_pad (f_formatter p) = p" | "flag_pad (F_formatter p) = p" | "flag_pad (E_formatter p) = p"
| "flag_pad (p_formatter p) = p" | "flag_pad (r_formatter p) = p" | "flag_pad (R_formatter p) = p"
| "flag_pad (T_formatter p) = p" | "flag_pad (z_formatter p) = p" | "flag_pad (t_formatter p) = p"
| "flag_pad (pid_formatter p) = p" | "flag_pad (i_formatter p) = p" | "flag_pad (v_formatter p) = p"
| "flag_pad (source_location_formatter p) = p" | "flag_pad (source_filename_formatter p) = p"
| "flag_pad (source_linenum_formatter p) = p" | "flag_pad (color_start_formatter p) = p"
| "flag_pad (color_stop_formatter p) = p" | "flag_pad (full_formatter p fc) = p"
| "flag_pad _ = no_padding"

lemma appends_name_field:
  assumes "0 \<le> i" "nat i < length names" "pad_ok p"
  shows "appends (name_field names i p) (field p (names ! nat i))"
proof -
  have "appends (with_pad (length (names ! nat i)) p [append_string_view (names ! nat i)])
      (padded p (length (names ! nat i)) (names ! nat i @ []))"
    by (intro appends_intros) (use assms in \<open>simp add: pad_ok_def\<close>)
  then show ?thesis using assms by (simp add: appends_def name_field_def field_def Let_def)
qed

lemma appends_padded_if:
  assumes "pad_ok p" "appends f s"
  shows "appends (if padding_enabled p then with_pad sz p [f] else f) (padded p sz s)"
proof (cases "padding_enabled p")
  case True
  have "appends (with_pad sz p [f]) (padded p sz (s @ []))"
    using assms by (intro appends_intros) (auto simp: pad_ok_def)
  with True show ?thesis by simp
qed (use assms in simp)

lemma appends_with_pad1: "pad_ok p \<Longrightarrow> appends f s \<Longrightarrow> appends (with_pad sz p [f]) (padded p sz s)"
  using appends_with_pad [of p "[f]" "s @ []" sz] appends_Cons [OF _ appends_Nil, of f s] by (simp add: pad_ok_def)

lemma appends_eqI: "appends f s \<Longrightarrow> s = r \<Longrightarrow> appends f r"
  by simp

lemma appends_fieldI: "pad_ok p \<Longrightarrow> appends f s \<Longrightarrow> sz = length s \<Longrightarrow>
  appends (if padding_enabled p then with_pad sz p [f] else f) (field p s)"
  using appends_padded_if [of p f s sz] unfolding field_def by simp

lemma utc_offset_bounds: "tm_ok t \<Longrightarrow> \<bar>utc_minutes_offset t\<bar> \<le> 2880"
  by (auto simp: tm_ok_def utc_minutes_offset_def signed_divide_int_def sgn_if zdiv_zminus1_eq_if)

lemma smod_bounds: "\<bar>y smod 100\<bar> < (100 :: int)"
  by (simp add: signed_modulo_int_def abs_mult sgn_if)

lemma sdiv_smod_nonneg: "0 \<le> (m :: int) \<Longrightarrow> m sdiv 60 = m div 60" "0 \<le> (m :: int) \<Longrightarrow> m smod 60 = m mod 60"
  by (auto simp: signed_divide_int_def signed_modulo_int_def sgn_if)

lemma to12h_bounds: "tm_ok t \<Longrightarrow> 0 \<le> to12h t \<and> to12h t \<le> 12"
  by (auto simp: tm_ok_def to12h_def)

lemma names_length: "length days = 7" "length full_days = 7" "length months = 12" "length full_months = 12"
  by (simp_all add: days_def full_days_def months_def full_months_def)

lemma appends_z:
  assumes "tm_ok t" "pad_ok p"
  shows "appends (z_formatter_format env p t) (padded p 6 (offset_text (utc_minutes_offset t)))"
proof -
  let ?m = "\<bar>utc_minutes_offset t\<bar>"
  have "0 \<le> ?m" "?m \<le> 2880" using utc_offset_bounds [OF assms(1)] by auto
  then have "appends (pad2 env (?m sdiv 60)) (two_digits (?m div 60))"
    "appends (pad2 env (?m smod 60)) (two_digits (?m mod 60))"
    by (auto simp: sdiv_smod_nonneg intro!: appends_intros)
  moreover have abs: "(if utc_minutes_offset t < 0 then - utc_minutes_offset t else utc_minutes_offset t) = ?m" by simp
  ultimately have "appends (z_formatter_format env p t)
     (padded p 6 ([if utc_minutes_offset t < 0 then CHR ''-'' else CHR ''+''] @ two_digits (?m div 60) @ '':'' @
        two_digits (?m mod 60) @ []))"
    using assms(2) unfolding z_formatter_format_def Let_def abs
    by (intro appends_intros) (auto simp: pad_ok_def)
  then show ?thesis by (cases "utc_minutes_offset t < 0") (simp_all add: offset_text_def)
qed

lemma appends_location:
  assumes "msg_ok msg" "pad_ok p"
  shows "appends (source_location_formatter_format env p msg)
    (if source_loc_empty (lm_source msg) then [] else field p (location_text (lm_source msg)))"
proof -
  let ?loc = "lm_source msg"
  let ?body = "[append_string_view (sl_filename ?loc), push_back (CHR '':''), append_uint env (sl_line ?loc)]"
  have l: "sl_line ?loc < 2 ^ 32" using assms by (simp add: msg_ok_def)
  have "appends (do_append ?body) (sl_filename ?loc @ '':'' @ decimal (sl_line ?loc) @ [])"
    using l by (intro appends_intros) simp
  then have b: "appends (do_append ?body) (location_text ?loc)" by (simp add: location_text_def)
  have sz: "length (sl_filename ?loc) + count_digits 32 (sl_line ?loc) + 1 = length (location_text ?loc)"
    using l by (simp add: location_text_def count_digits_correct int_width_def)
  have "appends (with_pad (length (location_text ?loc)) p ?body) (field p (location_text ?loc))"
    using b assms(2) unfolding field_def by (intro appends_with_pad) (auto simp: pad_ok_def)
  with b show ?thesis
    unfolding appends_def source_location_formatter_format_def Let_def sz by (auto simp: field_def)
qed

lemmas padded_formats =
  C_formatter_format_def Y_formatter_format_def m_formatter_format_def d_formatter_format_def
  H_formatter_format_def I_formatter_format_def M_formatter_format_def S_formatter_format_def
  E_formatter_format_def i_formatter_format_def

lemmas name_formats = a_formatter_format_def A_formatter_format_def b_formatter_format_def B_formatter_format_def

lemma flag_append_text:
  assumes "pad_ok (flag_pad f)" "tm_ok t" "msg_ok msg"
  shows "appends (flag_append env msg t f) (flag_text env msg t f)"
proof -
  have tb: "0 \<le> tm_wday t" "nat (tm_wday t) < 7" "0 \<le> tm_mon t" "nat (tm_mon t) < 12" "0 \<le> tm_mday t"
    "tm_mday t \<le> 31" "0 \<le> tm_hour t" "tm_hour t \<le> 23" "0 \<le> tm_min t" "tm_min t \<le> 59" "0 \<le> tm_sec t" "tm_sec t \<le> 60"
    "- 2000000000 \<le> tm_year t" "tm_year t \<le> 2000000000" "0 \<le> to12h t" "to12h t \<le> 12"
    "- 100 < tm_year t smod 100" "tm_year t smod 100 < 100"
    using assms(2) to12h_bounds [OF assms(2)] smod_bounds [of "tm_year t"] by (auto simp: tm_ok_def)
  have mb: "- (2 ^ 63) \<le> to_secs (lm_time msg)" "to_secs (lm_time msg) < 2 ^ 63" "lm_thread_id msg < 2 ^ 64"
    "lm_msg_id msg < 2 ^ 64" "sl_line (lm_source msg) < 2 ^ 32"
    using assms(3) to_secs_bounds [of "lm_time msg"] by (auto simp: msg_ok_def)
  have w: "int_width 32" "int_width 64" by (simp_all add: int_width_def)
  have cd: "count_digits 64 (lm_thread_id msg) = length (decimal (lm_thread_id msg))"
    "count_digits 32 (unsigned_of 32 v) = length (decimal (unsigned_of 32 v))"
    "count_digits 32 (sl_line (lm_source msg)) = length (decimal (sl_line (lm_source msg)))" for v
    using mb unsigned_of_less by (auto intro!: count_digits_correct w)
  have u: "unsigned_of 32 v < 2 ^ 64" for v using unsigned_of_less [of 32 v] by simp
  show ?thesis
  proof (cases f)
    case (c_formatter p)
    have "appends (c_formatter_format (le_fmt env) p t) (padded p 24 (days ! nat (tm_wday t) @ '' '' @
        months ! nat (tm_mon t) @ '' '' @ signed_decimal (tm_mday t) @ '' '' @ two_digits (tm_hour t) @ '':'' @
        two_digits (tm_min t) @ '':'' @ two_digits (tm_sec t) @ '' '' @ signed_decimal (tm_year t + 1900) @ []))"
      unfolding c_formatter_format_def
      by (intro appends_intros) (use tb assms(1) c_formatter in \<open>auto simp: pad_ok_def names_length\<close>)
    then show ?thesis using c_formatter by (simp add: clock_text_def)
  next
    case (D_formatter p)
    have "appends (D_formatter_format (le_fmt env) p t) (padded p 10 (two_digits (tm_mon t + 1) @ ''/'' @
        two_digits (tm_mday t) @ ''/'' @ two_digits (tm_year t smod 100) @ []))"
      unfolding D_formatter_format_def
      by (intro appends_intros) (use tb assms(1) D_formatter in \<open>auto simp: pad_ok_def\<close>)
    then show ?thesis using D_formatter by simp
  next
    case (r_formatter p)
    have "appends (r_formatter_format (le_fmt env) p t) (padded p 11 (two_digits (to12h t) @ '':'' @
        two_digits (tm_min t) @ '':'' @ two_digits (tm_sec t) @ '' '' @ ampm t @ []))"
      unfolding r_formatter_format_def
      by (intro appends_intros) (use tb assms(1) r_formatter in \<open>auto simp: pad_ok_def\<close>)
    then show ?thesis using r_formatter by simp
  next
    case (R_formatter p)
    have "appends (R_formatter_format (le_fmt env) p t) (padded p 5 (two_digits (tm_hour t) @ '':'' @
        two_digits (tm_min t) @ []))"
      unfolding R_formatter_format_def
      by (intro appends_intros) (use tb assms(1) R_formatter in \<open>auto simp: pad_ok_def\<close>)
    then show ?thesis using R_formatter by simp
  next
    case (T_formatter p)
    have "appends (T_formatter_format (le_fmt env) p t) (padded p 8 (two_digits (tm_hour t) @ '':'' @
        two_digits (tm_min t) @ '':'' @ two_digits (tm_sec t) @ []))"
      unfolding T_formatter_format_def
      by (intro appends_intros) (use tb assms(1) T_formatter in \<open>auto simp: pad_ok_def\<close>)
    then show ?thesis using T_formatter by (simp add: clock_text_def)
  next
    case (z_formatter p)
    then show ?thesis using appends_z assms by simp
  next
    case (source_location_formatter p)
    then show ?thesis using appends_location assms by simp
  next
    case (source_filename_formatter p)
    then show ?thesis
      using appends_with_pad1 [OF _ appends_string_view, of p "length (sl_filename (lm_source msg))"] assms(1)
      by (simp add: appends_def source_filename_formatter_format_def field_def Let_def)
  next
    case (source_linenum_formatter p)
    then show ?thesis
      using appends_fieldI [of p "append_uint (le_fmt env) (sl_line (lm_source msg))"
          "decimal (sl_line (lm_source msg))" "count_digits 32 (sl_line (lm_source msg))"]
        appends_uint [of "sl_line (lm_source msg)" "le_fmt env"] assms(1) mb cd
      by (auto simp: appends_def source_linenum_formatter_format_def Let_def)
  next
    case (ch_formatter c)
    then show ?thesis
      using appends_with_pad1 [OF _ appends_push_back, of no_padding 1 c]
      by (simp add: ch_formatter_format_def pad_ok_def no_padding_def padded_def)
  next
    case (p_formatter p)
    have "length (ampm t) = 2" by (simp add: ampm_def)
    then show ?thesis
      using p_formatter appends_with_pad1 [OF _ appends_string_view, of p 2 "ampm t"] assms(1)
      by (simp add: p_formatter_format_def field_def)
  next
    case (short_level_formatter p)
    then show ?thesis
      using appends_with_pad1 [OF _ appends_string_view, of p] assms(1)
      by (simp add: short_level_formatter_format_def field_def Let_def)
  next
    case (aggregate_formatter s)
    then show ?thesis by (simp add: aggregate_formatter_format_def appends_string_view)
  next
    case (name_formatter p)
    then show ?thesis using assms(1) unfolding flag_append.simps flag_text.simps name_formatter_format_def name_formatter
      by (intro appends_fieldI appends_string_view) simp_all
  next
    case (level_formatter p)
    then show ?thesis
      using assms(1) unfolding flag_append.simps flag_text.simps level_formatter_format_def Let_def level_formatter
      by (intro appends_fieldI appends_string_view) simp_all
  next
    case (v_formatter p)
    then show ?thesis using assms(1) unfolding flag_append.simps flag_text.simps v_formatter_format_def v_formatter
      by (intro appends_fieldI appends_string_view) simp_all
  next
    case (t_formatter p)
    then show ?thesis using assms(1) mb cd unfolding flag_append.simps flag_text.simps t_formatter_format_def t_formatter
      by (intro appends_fieldI appends_uint) simp_all
  next
    case (pid_formatter p)
    then show ?thesis
      using assms(1) cd u unfolding flag_append.simps flag_text.simps pid_formatter_format_def Let_def pid_formatter
      by (intro appends_fieldI appends_uint) simp_all
  next
    case (e_formatter p)
    then show ?thesis
      using assms(1)
      unfolding flag_append.simps flag_text.simps e_formatter_format_def Let_def e_formatter
      by (intro appends_padded_if appends_pad3 unsigned_of_less w) simp_all
  next
    case (f_formatter p)
    then show ?thesis
      using assms(1)
      unfolding flag_append.simps flag_text.simps f_formatter_format_def Let_def f_formatter
      by (intro appends_padded_if appends_pad6 unsigned_of_less w) simp_all
  next
    case (F_formatter p)
    then show ?thesis
      using assms(1)
      unfolding flag_append.simps flag_text.simps F_formatter_format_def Let_def F_formatter
      by (intro appends_padded_if appends_pad9 unsigned_of_less w) simp_all
  qed (use assms(1) tb mb w in
     \<open>simp_all add: padded_formats name_formats names_length appends_name_field appends_with_pad1 appends_pad2
        appends_int appends_pad6 appends_def [of Inr]\<close>)
qed

section \<open>The full formatter\<close>

definition full_head :: "log_msg \<Rightarrow> tm \<Rightarrow> string" where
  "full_head msg t =
     datetime_text t @ zero_padded 3 (unsigned_of 32 (time_fraction 1000 (lm_time msg))) @ ''] '' @
     (if lm_logger_name msg \<noteq> [] then ''['' @ lm_logger_name msg @ ''] '' else []) @ ''[''"

definition full_tail :: "log_msg \<Rightarrow> string" where
  "full_tail msg =
     ''] '' @ (if \<not> source_loc_empty (lm_source msg) then ''['' @ location_text (lm_source msg) @ ''] '' else []) @
     lm_payload msg"

definition full_text :: "log_msg \<Rightarrow> tm \<Rightarrow> string" where
  "full_text msg t = full_head msg t @ level_to_string_view (lm_level msg) @ full_tail msg"

definition tm_at :: "log_env \<Rightarrow> pattern_time_type \<Rightarrow> int \<Rightarrow> tm" where
  "tm_at env tt secs = (if tt = time_local then le_localtime env secs else le_gmtime env secs)"

text \<open>A cache that holds the date of its second, or nothing.\<close>

definition cache_ok :: "log_env \<Rightarrow> pattern_time_type \<Rightarrow> full_cache \<Rightarrow> bool" where
  "cache_ok env tt fc \<longleftrightarrow> fc_datetime fc = [] \<or> fc_datetime fc = datetime_text (tm_at env tt (fc_timestamp fc))"

lemma appends_datetime:
  assumes "tm_ok t"
  shows "appends (full_formatter_datetime env t) (datetime_text t)"
proof -
  have "appends (full_formatter_datetime env t) (''['' @ signed_decimal (tm_year t + 1900) @ ''-'' @
      two_digits (tm_mon t + 1) @ ''-'' @ two_digits (tm_mday t) @ '' '' @ two_digits (tm_hour t) @ '':'' @
      two_digits (tm_min t) @ '':'' @ two_digits (tm_sec t) @ ''.'' @ [])"
    unfolding full_formatter_datetime_def
    by (intro appends_intros) (use assms in \<open>auto simp: tm_ok_def\<close>)
  then show ?thesis by (simp add: datetime_text_def clock_text_def)
qed

lemma full_formatter_cache_eq:
  assumes "cache_ok env tt fc" "t = tm_at env tt (to_secs (lm_time msg))" "tm_ok t"
  shows "full_formatter_cache e msg t fc =
    Inr \<lparr>fc_timestamp = to_secs (lm_time msg), fc_datetime = datetime_text t\<rparr>"
  using assms appends_datetime [OF assms(3), of e]
  by (cases fc) (auto simp: full_formatter_cache_def cache_ok_def appends_def Let_def)

lemma appends_opt: "(c \<Longrightarrow> appends (do_append fs) s) \<Longrightarrow>
  appends (do_append (if c then fs else [])) (if c then s else [])"
  by (auto intro: appends_Nil)

lemma full_formatter_eq:
  assumes "cache_ok env tt fc" "t = tm_at env tt (to_secs (lm_time msg))" "tm_ok t" "msg_ok msg"
  shows "full_formatter_format e fc msg t dest =
    Inr (\<lparr>fc_timestamp = to_secs (lm_time msg), fc_datetime = datetime_text t\<rparr>,
      msg\<lparr>lm_color_start := length (dest @ full_head msg t),
          lm_color_end := length (dest @ full_head msg t @ level_to_string_view (lm_level msg))\<rparr>,
      dest @ full_text msg t)"
proof -
  let ?ms = "unsigned_of 32 (time_fraction 1000 (lm_time msg))" and ?nm = "lm_logger_name msg" and ?loc = "lm_source msg"
  let ?fc = "\<lparr>fc_timestamp = to_secs (lm_time msg), fc_datetime = datetime_text t\<rparr>"
  let ?h = "[append_buf (fc_datetime ?fc), pad3 e 32 ?ms, push_back (CHR '']''), push_back (CHR '' '')]
        @ (if ?nm \<noteq> [] then
             [push_back (CHR ''[''), append_string_view ?nm, push_back (CHR '']''), push_back (CHR '' '')] else [])
        @ [push_back (CHR ''['')]"
  let ?t = "[push_back (CHR '']''), push_back (CHR '' '')]
        @ (if \<not> source_loc_empty ?loc then
             [push_back (CHR ''[''), append_string_view (sl_filename ?loc), push_back (CHR '':''),
              append_uint e (sl_line ?loc), push_back (CHR '']''), push_back (CHR '' '')] else [])
        @ [append_string_view (lm_payload msg)]"
  have "appends (do_append ?h) ((datetime_text t @ zero_padded 3 ?ms @ '']'' @ '' '' @ []) @
      (if ?nm \<noteq> [] then ''['' @ ?nm @ '']'' @ '' '' @ [] else []) @ ''['' @ [])"
    unfolding full_cache.select_convs
    by (intro appends_intros appends_opt unsigned_of_less) (simp_all add: int_width_def)
  then have h: "do_append ?h dest = Inr (dest @ full_head msg t)" for dest
    by (simp add: appends_def full_head_def)
  have "appends (do_append ?t) (('']'' @ '' '' @ []) @
      (if \<not> source_loc_empty ?loc then ''['' @ sl_filename ?loc @ '':'' @ decimal (sl_line ?loc) @ '']'' @ '' '' @ []
       else []) @ lm_payload msg @ [])"
    by (intro appends_intros appends_opt) (use assms(4) in \<open>simp_all add: msg_ok_def\<close>)
  then have tl: "do_append ?t dest = Inr (dest @ full_tail msg)" for dest
    by (simp add: appends_def full_tail_def location_text_def)
  have upd: "lm_payload (msg\<lparr>lm_color_start := a, lm_color_end := b\<rparr>) = lm_payload msg"
    "lm_level (msg\<lparr>lm_color_start := a\<rparr>) = lm_level msg" for a b
    by simp_all
  show ?thesis
    unfolding full_formatter_format_def full_formatter_cache_eq [OF assms(1-3)]
    by (simp only: Let_def res_bind_Inr h append_string_view_eq upd tl) (simp add: full_text_def)
qed

section \<open>Lines\<close>

text \<open>What a flag does to a message and a buffer, caches aside.\<close>

definition flag_effect :: "log_env \<Rightarrow> tm \<Rightarrow> flag_formatter \<Rightarrow> log_msg \<times> string \<Rightarrow> log_msg \<times> string" where
  "flag_effect env t f = (\<lambda>(msg, dest).
     case f of
       color_start_formatter p \<Rightarrow> (msg\<lparr>lm_color_start := length dest\<rparr>, dest)
     | color_stop_formatter p \<Rightarrow> (msg\<lparr>lm_color_end := length dest\<rparr>, dest)
     | full_formatter p fc \<Rightarrow>
         (msg\<lparr>lm_color_start := length (dest @ full_head msg t),
              lm_color_end := length (dest @ full_head msg t @ level_to_string_view (lm_level msg))\<rparr>,
          dest @ full_text msg t)
     | _ \<Rightarrow> (msg, dest @ flag_text env msg t f))"

fun flag_reset :: "flag_formatter \<Rightarrow> flag_formatter" where
  "flag_reset (full_formatter p fc) = full_formatter p empty_cache"
| "flag_reset f = f"

fun flag_cache_ok :: "log_env \<Rightarrow> pattern_time_type \<Rightarrow> flag_formatter \<Rightarrow> bool" where
  "flag_cache_ok env tt (full_formatter p fc) = cache_ok env tt fc"
| "flag_cache_ok env tt f = True"

fun flag_next :: "int \<Rightarrow> tm \<Rightarrow> flag_formatter \<Rightarrow> flag_formatter" where
  "flag_next secs t (full_formatter p fc) =
     full_formatter p \<lparr>fc_timestamp = secs, fc_datetime = datetime_text t\<rparr>"
| "flag_next secs t f = f"

lemma flag_next_keeps:
  "flag_reset (flag_next secs t f) = flag_reset f" "flag_pad (flag_next secs t f) = flag_pad f"
  "t = tm_at env tt secs \<Longrightarrow> flag_cache_ok env tt f \<Longrightarrow> flag_cache_ok env tt (flag_next secs t f)"
  by (cases f; simp add: cache_ok_def)+

lemma flag_effect_reset: "flag_effect env t (flag_reset f) = flag_effect env t f"
  by (cases f) (simp_all add: flag_effect_def)

lemma flag_effect_keeps:
  "lm_time (fst (flag_effect env t f (msg, dest))) = lm_time msg"
  "msg_ok (fst (flag_effect env t f (msg, dest))) = msg_ok msg"
  by (cases f; simp add: flag_effect_def msg_ok_def)+

lemma flag_format_eq:
  assumes "pad_ok (flag_pad f)" "flag_cache_ok env tt f" "t = tm_at env tt (to_secs (lm_time msg))" "tm_ok t" "msg_ok msg"
  shows "flag_format env t f (msg, dest) = Inr (flag_next (to_secs (lm_time msg)) t f, flag_effect env t f (msg, dest))"
proof (cases "\<exists>p fc. f = full_formatter p fc")
  case True
  then obtain p fc where f: "f = full_formatter p fc" by blast
  then have "cache_ok env tt fc" using assms(2) by simp
  from full_formatter_eq [OF this assms(3-5)] show ?thesis
    by (simp add: flag_format_def f flag_effect_def)
next
  case False
  then show ?thesis
    using flag_append_text [OF assms(1,4,5), of env]
    by (cases f)
       (simp_all add: flag_format_def flag_effect_def appends_def color_start_formatter_format_def
         color_stop_formatter_format_def)
qed

lemma format_flags_eq:
  assumes "\<forall>f \<in> set fs. pad_ok (flag_pad f) \<and> flag_cache_ok env tt f"
    and "t = tm_at env tt (to_secs (lm_time msg))" "tm_ok t" "msg_ok msg"
  shows "format_flags env t fs (msg, dest) =
    Inr (map (flag_next (to_secs (lm_time msg)) t) fs, fold (flag_effect env t) fs (msg, dest))"
  using assms
proof (induction fs arbitrary: msg dest)
  case (Cons f fs)
  obtain m d where md: "flag_effect env t f (msg, dest) = (m, d)" by (cases "flag_effect env t f (msg, dest)") auto
  then have m: "lm_time m = lm_time msg" "msg_ok m"
    using flag_effect_keeps [of env t f msg dest] Cons.prems by auto
  have "format_flags env t fs (m, d) = Inr (map (flag_next (to_secs (lm_time msg)) t) fs, fold (flag_effect env t) fs (m, d))"
    using Cons.IH [of m d] Cons.prems m by simp
  then show ?case using flag_format_eq [of f env tt t msg dest] Cons.prems md by simp
qed simp

text \<open>The line of a pattern, from a buffer with the given contents.\<close>

definition pattern_line :: "log_env \<Rightarrow> pattern_formatter \<Rightarrow> log_msg \<times> string \<Rightarrow> log_msg \<times> string" where
  "pattern_line env pf = (\<lambda>(msg, dest).
     let t = tm_at env (pf_time_type pf) (to_secs (lm_time msg));
         (msg, dest) = fold (flag_effect env t) (compile_pattern (pf_pattern pf)) (msg, dest)
     in (msg, dest @ pf_eol pf))"

definition pattern_inv :: "log_env \<Rightarrow> pattern_formatter \<Rightarrow> bool" where
  "pattern_inv env pf \<longleftrightarrow>
     (pf_last_log_secs pf \<noteq> 0 \<longrightarrow> pf_cached_tm pf = tm_at env (pf_time_type pf) (pf_last_log_secs pf)) \<and>
     (\<forall>f \<in> set (pf_formatters pf). pad_ok (flag_pad f) \<and> flag_cache_ok env (pf_time_type pf) f) \<and>
     map flag_reset (pf_formatters pf) = compile_pattern (pf_pattern pf)"

definition log_env_ok :: "log_env \<Rightarrow> bool" where
  "log_env_ok env \<longleftrightarrow> (\<forall>secs. tm_ok (le_localtime env secs) \<and> tm_ok (le_gmtime env secs))"

lemma fold_effect_reset: "fold (flag_effect env t) (map flag_reset fs) = fold (flag_effect env t) fs"
proof (induction fs)
  case (Cons f fs)
  then show ?case by (simp add: flag_effect_reset)
qed simp

lemma pattern_format_eq:
  assumes "pattern_inv env pf" "log_env_ok env" "msg_ok msg" "to_secs (lm_time msg) \<noteq> 0"
  shows "\<exists>pf'. pattern_formatter_format env pf (msg, dest) = Inr (pf', pattern_line env pf (msg, dest)) \<and>
    pattern_inv env pf' \<and> pf_pattern pf' = pf_pattern pf \<and> pf_eol pf' = pf_eol pf \<and>
    pf_time_type pf' = pf_time_type pf"
proof -
  let ?tt = "pf_time_type pf" and ?s = "to_secs (lm_time msg)" and ?fs = "pf_formatters pf"
  let ?t = "tm_at env ?tt ?s" and ?cp = "compile_pattern (pf_pattern pf)"
  define pf1 where "pf1 = (if ?s \<noteq> pf_last_log_secs pf
    then pf\<lparr>pf_cached_tm := pattern_get_time env ?tt msg, pf_last_log_secs := ?s\<rparr> else pf)"
  have pf1: "pf_cached_tm pf1 = ?t" "pf_last_log_secs pf1 = ?s" "pf_formatters pf1 = ?fs" "pf_pattern pf1 = pf_pattern pf"
    "pf_eol pf1 = pf_eol pf" "pf_time_type pf1 = ?tt"
    using assms(1,4) by (auto simp: pf1_def pattern_get_time_def tm_at_def pattern_inv_def)
  have ok: "tm_ok ?t" using assms(2) by (simp add: log_env_ok_def tm_at_def)
  have pads: "\<forall>f \<in> set ?fs. pad_ok (flag_pad f) \<and> flag_cache_ok env ?tt f" and
    cp: "map flag_reset ?fs = ?cp" using assms(1) by (auto simp: pattern_inv_def)
  note ff = format_flags_eq [OF pads refl ok assms(3), of dest]
  obtain m d where md: "fold (flag_effect env ?t) ?fs (msg, dest) = (m, d)"
    by (cases "fold (flag_effect env ?t) ?fs (msg, dest)") auto
  have line: "pattern_line env pf (msg, dest) = (m, d @ pf_eol pf)"
    using md by (simp add: pattern_line_def fold_effect_reset [symmetric, of _ _ ?fs] cp)
  let ?pf = "pf1\<lparr>pf_formatters := map (flag_next ?s ?t) ?fs\<rparr>"
  have "pattern_formatter_format env pf (msg, dest) = Inr (?pf, m, d @ pf_eol pf)"
    unfolding pattern_formatter_format_def using ff md pf1
    by (simp add: Let_def pf1_def [symmetric] append_simps)
  moreover have "pattern_inv env ?pf"
    using pads cp pf1 by (auto simp: pattern_inv_def flag_next_keeps comp_def)
  ultimately show ?thesis using line pf1 by auto
qed

lemma padspec_pad_ok: "pad_ok (fst (handle_padspec it))"
  by (auto simp: handle_padspec_def pad_ok_def no_padding_def Let_def split: prod.splits)

definition flag_fine :: "log_env \<Rightarrow> pattern_time_type \<Rightarrow> flag_formatter \<Rightarrow> bool" where
  "flag_fine env tt f \<longleftrightarrow> pad_ok (flag_pad f) \<and> flag_cache_ok env tt f \<and> flag_reset f = f"

lemma flag_fine_if: "flag_fine env tt f \<Longrightarrow> flag_fine env tt g \<Longrightarrow> flag_fine env tt (if c then f else g)"
  by simp

lemma flag_fine_aggregate: "flag_fine env tt (aggregate_formatter s)"
  by (simp add: flag_fine_def pad_ok_def no_padding_def)

lemma handle_flag_fine: "pad_ok p \<Longrightarrow> flag_fine env tt (handle_flag c p)"
  unfolding handle_flag_def
  by (intro flag_fine_if flag_fine_aggregate)
     (simp_all add: flag_fine_def cache_ok_def empty_cache_def pad_ok_def no_padding_def)

lemma compile_loop_fine:
  "\<forall>f \<in> set fs. flag_fine env tt f \<Longrightarrow> \<forall>f \<in> set (compile_loop it u fs). flag_fine env tt f"
proof (induction it u fs rule: compile_loop.induct)
  case (1 u fs)
  then show ?case by (auto simp: flag_fine_aggregate split: option.splits)
next
  case (2 c it u fs)
  define fs' where "fs' = (case u of None \<Rightarrow> fs | Some s \<Rightarrow> fs @ [aggregate_formatter s])"
  obtain p r where pr: "handle_padspec it = (p, r)" by (cases "handle_padspec it")
  have p: "pad_ok p" using padspec_pad_ok [of it] pr by simp
  have fs': "\<forall>f \<in> set fs'. flag_fine env tt f"
    using 2(3) by (auto simp: fs'_def flag_fine_aggregate split: option.splits)
  show ?case
  proof (cases "c = CHR ''%''")
    case True
    then have "compile_loop (c # it) u fs =
        (if r \<noteq> [] then compile_loop (tl r) None (fs' @ [handle_flag (hd r) p]) else fs')"
      by (simp add: pr fs'_def [symmetric] Let_def)
    moreover have "\<forall>f \<in> set (compile_loop (tl r) None (fs' @ [handle_flag (hd r) p])). flag_fine env tt f" if "r \<noteq> []"
      using 2(1) [OF True fs'_def refl pr [symmetric] that] fs' handle_flag_fine [OF p] by simp
    ultimately show ?thesis using fs' by simp
  next
    case False
    with 2(2) [OF False refl] 2(3) show ?thesis by (simp add: Let_def)
  qed
qed

lemma compile_pattern_ok:
  "f \<in> set (compile_pattern pat) \<Longrightarrow> pad_ok (flag_pad f) \<and> flag_cache_ok env tt f \<and> flag_reset f = f"
  using compile_loop_fine [of "[]" env tt pat None] by (auto simp: compile_pattern_def flag_fine_def)

lemma pattern_inv_new: "pattern_inv env (pattern_formatter_new pat tt eol)"
  using compile_pattern_ok by (auto simp: pattern_inv_def pattern_formatter_new_def intro!: map_idI)

lemma pattern_inv_default: "pattern_inv env (pattern_formatter_default tt eol)"
  by (simp add: pattern_inv_def pattern_formatter_default_def pad_ok_def no_padding_def cache_ok_def empty_cache_def
      compile_pattern_def handle_padspec_def is_digit_char_def handle_flag_def)

lemma pattern_inv_clone: "pattern_inv env (pattern_formatter_clone pf)"
  by (simp add: pattern_formatter_clone_def pattern_inv_new)

section \<open>Sequences of messages\<close>

text \<open>A formatter is used for one message after another, each with a buffer of its own.\<close>

fun format_run ::
  "log_env \<Rightarrow> pattern_formatter \<Rightarrow> (log_msg \<times> string) list \<Rightarrow> (pattern_formatter \<times> (log_msg \<times> string) list) res" where
  "format_run env pf [] = Inr (pf, [])"
| "format_run env pf (m # ms) =
     res_bind (pattern_formatter_format env pf m) (\<lambda>(pf, l).
     res_bind (format_run env pf ms) (\<lambda>(pf, ls). Inr (pf, l # ls)))"

lemma pattern_line_cong:
  "pf_pattern pf = pf_pattern qf \<Longrightarrow> pf_eol pf = pf_eol qf \<Longrightarrow> pf_time_type pf = pf_time_type qf \<Longrightarrow>
   pattern_line env pf = pattern_line env qf"
  by (simp add: pattern_line_def)

lemma format_run_eq:
  assumes "log_env_ok env" "pattern_inv env pf" "\<forall>(m, d) \<in> set ms. msg_ok m \<and> to_secs (lm_time m) \<noteq> 0"
  shows "\<exists>pf'. format_run env pf ms = Inr (pf', map (pattern_line env pf) ms) \<and> pattern_inv env pf' \<and>
    pf_pattern pf' = pf_pattern pf \<and> pf_eol pf' = pf_eol pf \<and> pf_time_type pf' = pf_time_type pf"
  using assms(2,3)
proof (induction ms arbitrary: pf)
  case (Cons x ms)
  obtain m d where x: "x = (m, d)" by (cases x)
  obtain p where p: "pattern_formatter_format env pf (m, d) = Inr (p, pattern_line env pf (m, d))" "pattern_inv env p"
    "pf_pattern p = pf_pattern pf" "pf_eol p = pf_eol pf" "pf_time_type p = pf_time_type pf"
    using pattern_format_eq [OF Cons.prems(1) assms(1), of m d] Cons.prems(2) x by auto
  obtain q where "format_run env p ms = Inr (q, map (pattern_line env p) ms)" "pattern_inv env q"
    "pf_pattern q = pf_pattern p" "pf_eol q = pf_eol p" "pf_time_type q = pf_time_type p"
    using Cons.IH [OF p(2)] Cons.prems(2) by auto
  with p show ?case by (auto simp: x pattern_line_cong [of p pf])
qed simp

lemma clone_line:
  assumes "log_env_ok env" "msg_ok m" "to_secs (lm_time m) \<noteq> 0"
  shows "\<exists>q. pattern_formatter_format env (pattern_formatter_clone pf) (m, d) = Inr (q, pattern_line env pf (m, d))"
proof -
  have "pattern_line env (pattern_formatter_clone pf) = pattern_line env pf"
    by (rule pattern_line_cong) (simp_all add: pattern_formatter_clone_def pattern_formatter_new_def)
  with pattern_format_eq [OF pattern_inv_clone [of env pf] assms, of d] show ?thesis by auto
qed

text \<open>C26: a pattern formatter never fails, and its caches are invisible: after any sequence of messages, each line and each
  colour range is what a fresh clone of the formatter gives for that message alone. Messages of the second
  zero of the epoch are excluded.\<close>

theorem pattern_cache_invisible:
  assumes "log_env_ok env" "\<forall>(m, d) \<in> set ms. msg_ok m \<and> to_secs (lm_time m) \<noteq> 0"
  shows "\<exists>pf' ls. format_run env (pattern_formatter_new pat tt eol) ms = Inr (pf', ls) \<and>
    list_all2 (\<lambda>m l. \<exists>q. pattern_formatter_format env (pattern_formatter_clone pf') m = Inr (q, l)) ms ls"
proof -
  let ?pf = "pattern_formatter_new pat tt eol"
  obtain pf' where r: "format_run env ?pf ms = Inr (pf', map (pattern_line env ?pf) ms)"
    and k: "pf_pattern pf' = pf_pattern ?pf" "pf_eol pf' = pf_eol ?pf" "pf_time_type pf' = pf_time_type ?pf"
    using format_run_eq [OF assms(1) pattern_inv_new assms(2)] by blast
  have "\<exists>q. pattern_formatter_format env (pattern_formatter_clone pf') m = Inr (q, pattern_line env ?pf m)"
    if "m \<in> set ms" for m
    using that assms clone_line [of env "fst m" pf' "snd m"] pattern_line_cong [OF k] by (cases m) auto
  then have "list_all2 (\<lambda>m l. \<exists>q. pattern_formatter_format env (pattern_formatter_clone pf') m = Inr (q, l)) ms
      (map (pattern_line env ?pf) ms)"
    by (auto simp: list_all2_conv_all_nth)
  with r show ?thesis by blast
qed

definition sample_tm :: tm where
  "sample_tm = \<lparr>tm_sec = 5, tm_min = 4, tm_hour = 3, tm_mday = 2, tm_mon = 0, tm_year = 120, tm_wday = 4, tm_gmtoff = 3600\<rparr>"

definition sample_log_env :: log_env where
  "sample_log_env = \<lparr>le_fmt = test_env, le_localtime = (\<lambda>_. sample_tm), le_gmtime = (\<lambda>_. sample_tm), le_pid = 7\<rparr>"

definition sample_msg :: log_msg where
  "sample_msg = log_msg_new 1577934245678000000 9 no_source ''net'' level_warn ''hello''"

lemma sample_log_ok: "log_env_ok sample_log_env" "msg_ok sample_msg" "to_secs (lm_time sample_msg) = 1577934245"
  by (simp_all add: log_env_ok_def sample_log_env_def tm_ok_def sample_tm_def msg_ok_def sample_msg_def log_msg_new_def
      no_source_def to_secs_def)

theorem pattern_cache_invisible_witness:
  "\<exists>pf' ls. format_run sample_log_env (pattern_formatter_new ''%+ %8l|%v'' time_local [CHR 0x0A])
      [(sample_msg, []), (sample_msg, ''x'')] = Inr (pf', ls) \<and>
    list_all2 (\<lambda>m l. \<exists>q. pattern_formatter_format sample_log_env (pattern_formatter_clone pf') m = Inr (q, l))
      [(sample_msg, []), (sample_msg, ''x'')] ls"
  by (rule pattern_cache_invisible) (simp_all add: sample_log_ok)

text \<open>the default formatter writes the date, the milliseconds, the name of the logger, the level, the source location
  and the text in the form given by \<open>full_text\<close>, and the colour range of the message selects the name of the level.\<close>

theorem default_line:
  assumes "log_env_ok env" "msg_ok msg" "to_secs (lm_time msg) \<noteq> 0"
  shows "\<exists>pf' msg' l. pattern_formatter_format env (pattern_formatter_default tt eol) (msg, []) = Inr (pf', msg', l) \<and>
    l = full_text msg (tm_at env tt (to_secs (lm_time msg))) @ eol \<and>
    take (lm_color_end msg' - lm_color_start msg') (drop (lm_color_start msg') l) = level_to_string_view (lm_level msg)"
proof -
  have cp: "compile_pattern ''%+'' = [full_formatter no_padding empty_cache]"
    using pattern_inv_default [of env tt eol]
    by (simp add: pattern_inv_def pattern_formatter_default_def)
  show ?thesis
    using pattern_format_eq [OF pattern_inv_default assms, of tt eol "[]"]
    by (auto simp: pattern_line_def pattern_formatter_default_def cp flag_effect_def full_text_def Let_def)
qed

theorem default_line_witness:
  "\<exists>pf' msg' l. pattern_formatter_format sample_log_env (pattern_formatter_default time_utc [CHR 0x0A]) (sample_msg, [])
      = Inr (pf', msg', l) \<and>
    l = full_text sample_msg (tm_at sample_log_env time_utc (to_secs (lm_time sample_msg))) @ [CHR 0x0A] \<and>
    take (lm_color_end msg' - lm_color_start msg') (drop (lm_color_start msg') l) =
      level_to_string_view (lm_level sample_msg)"
  by (rule default_line) (simp_all add: sample_log_ok)

section \<open>Patterns\<close>

text \<open>A pattern as literal texts followed by flags with their padding, and how it is written.\<close>

type_synonym pattern_item = "string \<times> padding_info \<times> char"

definition padspec_text :: "padding_info \<Rightarrow> string" where
  "padspec_text p =
     (case pi_side p of pad_left \<Rightarrow> [] | pad_right \<Rightarrow> ''-'' | pad_center \<Rightarrow> ''='') @
     (if pi_width p = 0 then [] else decimal (pi_width p))"

definition item_text :: "pattern_item \<Rightarrow> string" where
  "item_text = (\<lambda>(lit, p, flag). lit @ CHR ''%'' # padspec_text p @ [flag])"

definition literal_formatters :: "string \<Rightarrow> flag_formatter list" where
  "literal_formatters lit = (if lit = [] then [] else [aggregate_formatter lit])"

definition item_formatters :: "pattern_item \<Rightarrow> flag_formatter list" where
  "item_formatters = (\<lambda>(lit, p, flag). literal_formatters lit @ [handle_flag flag p])"

definition item_ok :: "pattern_item \<Rightarrow> bool" where
  "item_ok = (\<lambda>(lit, p, flag). CHR ''%'' \<notin> set lit \<and> pi_width p \<le> 128 \<and> \<not> is_digit_char flag \<and>
     (p = no_padding \<longrightarrow> flag \<noteq> CHR ''-'' \<and> flag \<noteq> CHR ''=''))"

lemma is_digit_digit_char: "d < 10 \<Longrightarrow> is_digit_char (digit_char d)"
  by (simp add: is_digit_char_def digit_char_def of_char_of)

lemma of_digit_char: "d < 10 \<Longrightarrow> of_char (digit_char d) - 48 = d"
  by (simp add: digit_char_def of_char_of)

lemma digit_char_not_sign: "d < 10 \<Longrightarrow> digit_char d \<noteq> CHR ''-'' \<and> digit_char d \<noteq> CHR ''=''"
proof -
  have "\<not> is_digit_char (CHR ''-'')" "\<not> is_digit_char (CHR ''='')" by (simp_all add: is_digit_char_def)
  then show "d < 10 \<Longrightarrow> digit_char d \<noteq> CHR ''-'' \<and> digit_char d \<noteq> CHR ''=''" by (metis is_digit_digit_char)
qed

lemma padspec_width_digits:
  assumes "\<not> is_digit_char c" "\<forall>d \<in> set ds. d < 10"
  shows "padspec_width w (map digit_char ds @ c # r) = (fold (\<lambda>d w. (w * 10 + d) mod 2 ^ 64) ds w, c # r)"
  using assms(2)
proof (induction ds arbitrary: w)
  case (Cons d ds)
  then show ?case by (simp add: is_digit_digit_char of_digit_char)
qed (simp add: assms(1))

lemma decimal_3:
  assumes "w \<le> 128"
  obtains d ds where "decimal w = map digit_char (d # ds)" "\<forall>d \<in> set (d # ds). d < 10"
    "fold (\<lambda>d w. (w * 10 + d) mod 2 ^ 64) ds d = w"
proof -
  consider "w < 10" | "10 \<le> w" "w < 100" | "100 \<le> w" by linarith
  then show thesis
  proof cases
    case 1
    then show thesis by (intro that [of w "[]"]) (simp_all add: decimal_small)
  next
    case 2
    then show thesis
      by (intro that [of "w div 10" "[w mod 10]"]) (auto simp: decimal_step [of w] decimal_small)
  next
    case 3
    have d: "w div 100 < 10" using assms by simp
    have "w div 10 \<ge> 10" "w div 10 div 10 = w div 100" using 3 by (auto simp: div_mult2_eq [symmetric])
    with 3 d have "decimal w = map digit_char (w div 100 # [w div 10 mod 10, w mod 10])"
      by (simp add: decimal_step [of w] decimal_step [of "w div 10"] decimal_small)
    moreover have "((w div 100 * 10 + w div 10 mod 10) mod 2 ^ 64 * 10 + w mod 10) mod 2 ^ 64 = w"
    proof -
      have "w div 100 * 10 + w div 10 mod 10 = w div 10" using div_mult_mod_eq [of "w div 10" 10] \<open>w div 10 div 10 = w div 100\<close> by simp
      with assms show ?thesis by simp
    qed
    ultimately show thesis using d by (intro that [of "w div 100" "[w div 10 mod 10, w mod 10]"]) auto
  qed
qed

lemma handle_padspec_text:
  assumes "item_ok (lit, p, c)"
  shows "handle_padspec (padspec_text p @ c # r) = (p, c # r)"
proof (cases "pi_width p = 0")
  case True
  then show ?thesis
    using assms
    by (cases p; cases "pi_side p")
       (auto simp: handle_padspec_def padspec_text_def item_ok_def no_padding_def Let_def)
next
  case False
  have c: "\<not> is_digit_char c" "pi_width p \<le> 128" using assms by (auto simp: item_ok_def)
  obtain d ds where d: "decimal (pi_width p) = map digit_char (d # ds)" "\<forall>d \<in> set (d # ds). d < 10"
    "fold (\<lambda>d w. (w * 10 + d) mod 2 ^ 64) ds d = pi_width p"
    by (rule decimal_3 [OF c(2)])
  have "padspec_width d (map digit_char ds @ c # r) = (pi_width p, c # r)"
    using padspec_width_digits [OF c(1), of ds d r] d by simp
  then show ?thesis
    using False d(1,2) c(2) digit_char_not_sign [of d]
    by (cases p; cases "pi_side p")
       (auto simp: handle_padspec_def padspec_text_def is_digit_digit_char of_digit_char Let_def)
qed

lemma compile_loop_acc: "compile_loop it u fs = fs @ compile_loop it u []"
proof (induction "length it" arbitrary: it u fs rule: less_induct)
  case less
  define agg where "agg = (case u of None \<Rightarrow> [] | Some s \<Rightarrow> [aggregate_formatter s])"
  have agg: "(case u of None \<Rightarrow> gs | Some s \<Rightarrow> gs @ [aggregate_formatter s]) = gs @ agg" for gs
    by (simp add: agg_def split: option.split)
  show ?case
  proof (cases it)
    case Nil
    then show ?thesis by (simp add: agg)
  next
    case (Cons c cs)
    obtain p r where pr: "handle_padspec cs = (p, r)" by (cases "handle_padspec cs")
    have "length (tl r) < length it" using handle_padspec_length [OF pr] Cons by simp
    from less [OF this] have "compile_loop (tl r) None gs = gs @ compile_loop (tl r) None []" for gs by blast
    then have 1: "compile_loop (tl r) None (gs @ hs) = gs @ compile_loop (tl r) None hs" for gs hs by (metis append_assoc)
    have "length cs < length it" using Cons by simp
    from less [OF this] have "compile_loop cs v fs = fs @ compile_loop cs v []" for v by blast
    with 1 [of "fs @ agg"] 1 [of agg] show ?thesis by (simp add: Cons pr agg Let_def)
  qed
qed

lemma compile_loop_literal:
  "CHR ''%'' \<notin> set lit \<Longrightarrow> compile_loop (lit @ it) u fs =
   compile_loop it (if lit = [] then u else Some ((case u of None \<Rightarrow> [] | Some s \<Rightarrow> s) @ lit)) fs"
  by (induction lit arbitrary: u) (auto simp: aggregate_add_ch_def Let_def)

lemma compile_item:
  assumes "item_ok i"
  shows "compile_pattern (item_text i @ r) = item_formatters i @ compile_pattern r"
proof -
  obtain lit p c where i: "i = (lit, p, c)" by (cases i)
  have "compile_pattern (item_text i @ r) =
      compile_loop (CHR ''%'' # padspec_text p @ c # r) (if lit = [] then None else Some lit) []"
    using assms by (simp add: i compile_pattern_def item_text_def item_ok_def compile_loop_literal)
  also have "\<dots> = compile_loop r None (item_formatters i)"
    using assms by (simp add: i handle_padspec_text item_formatters_def literal_formatters_def)
  also have "\<dots> = item_formatters i @ compile_pattern r"
    unfolding compile_pattern_def by (rule compile_loop_acc)
  finally show ?thesis .
qed

text \<open>a pattern that is written out from literal texts, paddings and flags is compiled to exactly the formatters of these
  texts and flags, in order: widths up to 128, all three sides, and every flag that is not a digit (nor a sign where no
  padding precedes it).\<close>

theorem compile_pattern_roundtrip:
  assumes "\<forall>i \<in> set items. item_ok i" "CHR ''%'' \<notin> set tail"
  shows "compile_pattern (concat (map item_text items) @ tail) =
    concat (map item_formatters items) @ literal_formatters tail"
  using assms(1)
proof (induction items)
  case Nil
  show ?case
    using compile_loop_literal [OF assms(2), of "[]" None "[]"]
    by (simp add: compile_pattern_def literal_formatters_def)
next
  case (Cons i items)
  then show ?case by (simp add: compile_item)
qed

theorem compile_pattern_roundtrip_witness:
  "compile_pattern ''[%-8l] %v.'' =
    [aggregate_formatter ''['', level_formatter \<lparr>pi_width = 8, pi_side = pad_right\<rparr>, aggregate_formatter ''] '',
     v_formatter no_padding, aggregate_formatter ''.'']"
  using compile_pattern_roundtrip [of "[(''['', \<lparr>pi_width = 8, pi_side = pad_right\<rparr>, CHR ''l''),
      (''] '', no_padding, CHR ''v'')]" "''.''"]
  by (simp add: item_ok_def item_text_def item_formatters_def literal_formatters_def padspec_text_def no_padding_def
      is_digit_char_def handle_flag_def decimal_small digit_char_def char_of_def bit_simps)

text \<open>whatever follows a percent sign in a pattern, a string is put into a field of its width or of the width of the
  specification if that is larger, which is at most 128; the rest are spaces, and the assertion of the padding holds.\<close>

theorem padded_field_width:
  "\<exists>a b. with_pad (length s) (fst (handle_padspec it)) [append_string_view s] dest =
      Inr (dest @ replicate a (CHR '' '') @ s @ replicate b (CHR '' '')) \<and>
    a + length s + b = max (pi_width (fst (handle_padspec it))) (length s) \<and> pi_width (fst (handle_padspec it)) \<le> 128"
proof -
  let ?p = "fst (handle_padspec it)"
  have ok: "pad_ok ?p" by (rule padspec_pad_ok)
  obtain a b where ab: "padded ?p (length s) s = replicate a (CHR '' '') @ s @ replicate b (CHR '' '')"
    by (cases "pi_side ?p") (auto simp: padded_def Let_def intro: that [of _ 0] that [of 0])
  have "a + length s + b = max (pi_width ?p) (length s)"
    using length_padded [of ?p s] by (simp add: ab)
  with ok appends_with_pad1 [OF ok appends_string_view, of "length s" s] show ?thesis
    unfolding ab by (intro exI [of _ a] exI [of _ b]) (simp add: appends_def pad_ok_def)
qed

section \<open>Limits\<close>

text \<open>
  A new formatter has a zeroed calendar time for the second zero, so that a message of that second gets no time of the
  operating system.
\<close>

lemma default_zero_second:
  assumes "to_secs (lm_time msg) = 0" "msg_ok msg"
  shows "pattern_formatter_format env (pattern_formatter_default tt eol) (msg, []) =
    Inr ((pattern_formatter_default tt eol)
           \<lparr>pf_formatters := [full_formatter no_padding \<lparr>fc_timestamp = 0, fc_datetime = datetime_text zero_tm\<rparr>]\<rparr>,
         msg\<lparr>lm_color_start := length (full_head msg zero_tm),
             lm_color_end := length (full_head msg zero_tm @ level_to_string_view (lm_level msg))\<rparr>,
         full_text msg zero_tm @ eol)"
proof -
  let ?env = "env\<lparr>le_localtime := \<lambda>_. zero_tm, le_gmtime := \<lambda>_. zero_tm\<rparr>"
  have "cache_ok ?env tt empty_cache" by (simp add: cache_ok_def empty_cache_def)
  moreover have "zero_tm = tm_at ?env tt (to_secs (lm_time msg))" by (simp add: tm_at_def)
  moreover have "tm_ok zero_tm" by (simp add: tm_ok_def zero_tm_def)
  ultimately have "full_formatter_format (le_fmt env) empty_cache msg zero_tm [] =
    Inr (\<lparr>fc_timestamp = to_secs (lm_time msg), fc_datetime = datetime_text zero_tm\<rparr>,
      msg\<lparr>lm_color_start := length ([] @ full_head msg zero_tm),
          lm_color_end := length ([] @ full_head msg zero_tm @ level_to_string_view (lm_level msg))\<rparr>,
      [] @ full_text msg zero_tm)"
    using assms(2) by (rule full_formatter_eq)
  then show ?thesis
    using assms(1)
    by (simp add: pattern_formatter_format_def pattern_formatter_default_def flag_format_def append_simps Let_def)
qed

lemma datetime_zero: "datetime_text zero_tm = ''[1900-01-00 00:00:00.''"
proof -
  have "decimal 1900 = ''1900''"
    by (simp add: decimal_step decimal_small digit_char_def char_of_def bit_simps)
  moreover have "two_digits 0 = ''00''" "two_digits 1 = ''01''"
    by (simp_all add: two_digits_def zero_padded_def decimal_small digit_char_def char_of_def bit_simps)
  ultimately show ?thesis
    by (simp add: datetime_text_def clock_text_def zero_tm_def signed_decimal_def)
qed

text \<open>the first message of a default formatter, when its time is less than a second from the epoch, is dated 1900-01-00
  00:00:00, whatever the time zone: the cached second is initialised with a value a message can have.\<close>

theorem epoch_second_date:
  assumes "\<bar>lm_time msg\<bar> < 1000000000" "msg_ok msg"
  shows "\<exists>pf' msg' l. pattern_formatter_format env (pattern_formatter_default tt eol) (msg, []) =
    Inr (pf', msg', ''[1900-01-00 00:00:00.'' @ l)"
proof -
  have "to_secs (lm_time msg) = 0" using assms(1) by (auto simp: to_secs_def signed_divide_int_def sgn_if)
  from default_zero_second [OF this assms(2), of env tt eol] show ?thesis
    by (simp add: full_text_def full_head_def datetime_zero)
qed

theorem epoch_second_date_witness:
  "\<exists>pf' msg' l. pattern_formatter_format sample_log_env (pattern_formatter_default time_utc [])
      (log_msg_new 5000000 1 no_source [] level_info ''x'', []) =
    Inr (pf', msg', ''[1900-01-00 00:00:00.'' @ l)"
  by (rule epoch_second_date) (simp_all add: log_msg_new_def msg_ok_def no_source_def)

text \<open>The date of \<^verbatim>\<open>%D\<close> has eight characters, and is padded as if it had ten.\<close>

lemma D_field_short:
  assumes "tm_ok t" "0 \<le> tm_year t" "10 \<le> pi_width p"
  shows "length (flag_text env msg t (D_formatter p)) = pi_width p - 2"
proof -
  have "0 \<le> tm_year t smod 100" "tm_year t smod 100 \<le> 99"
    using assms(2) smod_bounds [of "tm_year t"] by (auto simp: signed_modulo_int_def sgn_if)
  then have "length (two_digits (tm_mon t + 1) @ ''/'' @ two_digits (tm_mday t) @ ''/'' @ two_digits (tm_year t smod 100)) = 8"
    using assms(1) by (simp add: two_digits_length tm_ok_def)
  moreover have "k div 2 + (8 + (k - k div 2)) = k + 8" for k :: nat by linarith
  ultimately show ?thesis
    using assms(3) by (cases "pi_side p") (simp_all add: padded_def Let_def)
qed

text \<open>The hour of \<^verbatim>\<open>%I\<close> between midnight and one o'clock.\<close>

lemma midnight_hour: "tm_hour t = 0 \<Longrightarrow> flag_text env msg t (I_formatter no_padding) = ''00''"
  by (simp add: to12h_def no_padding_def padding_enabled_def two_digits_def zero_padded_def decimal_small digit_char_def
      char_of_def bit_simps)

end
