(* ===== verification/Log_Sink.thy ===== *)
theory Log_Sink
  imports Log_Pattern
begin

text \<open>
  Sinks of the logging library (\<^verbatim>\<open>sinks/sink.h\<close>, \<^verbatim>\<open>sinks/base_sink.h\<close>, \<^verbatim>\<open>sinks/basic_file_sink.h\<close>,
  \<^verbatim>\<open>sinks/ansicolor_sink.h\<close> and \<^verbatim>\<open>details/file_helper.h\<close> under \<^verbatim>\<open>src/deps/spdlog\<close>): a file and
  the coloured console, the two kinds that the library opens. A stream is the text written to it. Exceptions keep the state, so
  that a call returns the state with the text of the exception if there is one; undefined behaviour is an error.

  The lemmas give what a sink writes for a message, and when the colour range that a message carries from sink to sink is outside
  the formatted text.
\<close>

section \<open>Environment and exceptions\<close>

text \<open>
  Opening a file, by the number of the try; the number of characters written to a stream with the given contents; the text
  of an exception with the error of the system; whether standard output is a terminal with colours.
\<close>

record log_os =
  lo_fopen :: "string \<Rightarrow> string \<Rightarrow> nat \<Rightarrow> bool"
  lo_fwrite :: "string \<Rightarrow> string \<Rightarrow> nat"
  lo_syserr :: "string \<Rightarrow> string"
  lo_color :: bool

type_synonym 's outcome = "('s \<times> string option) res"

definition ok :: "'s \<Rightarrow> 's outcome" where
  "ok s = Inr (s, None)"

definition throw :: "string \<Rightarrow> 's \<Rightarrow> 's outcome" where
  "throw what s = Inr (s, Some what)"

text \<open>The next statement, unless an exception was thrown.\<close>

definition and_then :: "'s outcome \<Rightarrow> ('s \<Rightarrow> 's outcome) \<Rightarrow> 's outcome" where
  "and_then m f = res_bind m (\<lambda>(s, ex). case ex of None \<Rightarrow> f s | Some what \<Rightarrow> throw what s)"

text \<open>The exceptions of the formatting library are those a logger catches; the state is that before the call.\<close>

definition catching :: "'s \<Rightarrow> 'a res \<Rightarrow> ('a \<Rightarrow> 's outcome) \<Rightarrow> 's outcome" where
  "catching s m f =
     (case m of
        Inr x \<Rightarrow> f x
      | Inl (Format_error what) \<Rightarrow> throw what s
      | Inl (Spdlog_ex what) \<Rightarrow> throw what s
      | Inl e \<Rightarrow> Inl e)"

section \<open>Files\<close>

record file_helper =
  fh_fd :: bool
  fh_filename :: string
  fh_mode :: string
  fh_text :: string
  fh_flushed :: nat

definition file_helper_new :: file_helper where
  "file_helper_new = \<lparr>fh_fd = False, fh_filename = [], fh_mode = [], fh_text = [], fh_flushed = 0\<rparr>"

definition file_helper_close :: "file_helper \<Rightarrow> file_helper" where
  "file_helper_close fh = (if fh_fd fh then fh\<lparr>fh_fd := False\<rparr> else fh)"

definition open_tries :: nat where
  "open_tries = 5"

fun file_open_loop :: "log_os \<Rightarrow> nat \<Rightarrow> nat \<Rightarrow> file_helper \<Rightarrow> file_helper outcome" where
  "file_open_loop os tries 0 fh = throw (lo_syserr os (''Failed opening file '' @ fh_filename fh @ '' for writing'')) fh"
| "file_open_loop os tries (Suc left) fh =
     (if lo_fopen os (fh_filename fh) (fh_mode fh) tries then ok (fh\<lparr>fh_fd := True, fh_text := [], fh_flushed := 0\<rparr>)
      else file_open_loop os (tries + 1) left fh)"

definition file_helper_open :: "log_os \<Rightarrow> string \<Rightarrow> bool \<Rightarrow> file_helper \<Rightarrow> file_helper outcome" where
  "file_helper_open os fname trunc fh =
     (let fh = file_helper_close fh;
          mode = (if trunc then ''wb'' else ''ab'')
      in file_open_loop os 0 open_tries (fh\<lparr>fh_filename := fname, fh_mode := mode\<rparr>))"

definition file_helper_reopen :: "log_os \<Rightarrow> bool \<Rightarrow> file_helper \<Rightarrow> file_helper outcome" where
  "file_helper_reopen os trunc fh =
     (if fh_filename fh = [] then throw ''Failed re opening file - was not opened before'' fh
      else file_helper_open os (fh_filename fh) trunc fh)"

definition file_helper_flush :: "file_helper \<Rightarrow> file_helper" where
  "file_helper_flush fh = fh\<lparr>fh_flushed := length (fh_text fh)\<rparr>"

text \<open>\<^verbatim>\<open>fwrite\<close> with a null stream is undefined.\<close>

definition file_helper_write :: "log_os \<Rightarrow> string \<Rightarrow> file_helper \<Rightarrow> file_helper outcome" where
  "file_helper_write os buf fh =
     (if \<not> fh_fd fh then Inl Null_deref
      else
        let msg_size = length buf;
            n = lo_fwrite os (fh_text fh) buf;
            fh = fh\<lparr>fh_text := fh_text fh @ take n buf\<rparr>
        in if n \<noteq> msg_size then throw (lo_syserr os (''Failed writing to file '' @ fh_filename fh)) fh
           else ok fh)"

text \<open>\<^verbatim>\<open>rfind\<close>: the last index of a character.\<close>

fun rfind :: "char \<Rightarrow> string \<Rightarrow> nat option" where
  "rfind c [] = None"
| "rfind c (x # xs) =
     (case rfind c xs of Some i \<Rightarrow> Some (Suc i) | None \<Rightarrow> if x = c then Some 0 else None)"

definition split_by_extension :: "string \<Rightarrow> string \<times> string" where
  "split_by_extension fname =
     (case rfind (CHR ''.'') fname of
        None \<Rightarrow> (fname, [])
      | Some ext_index \<Rightarrow>
          if ext_index = 0 \<or> ext_index = length fname - 1 then (fname, [])
          else (case rfind (CHR ''/'') fname of
              None \<Rightarrow> (take ext_index fname, drop ext_index fname)
            | Some folder_index \<Rightarrow>
                if folder_index \<ge> ext_index - 1 then (fname, [])
                else (take ext_index fname, drop ext_index fname)))"

section \<open>Sinks\<close>

text \<open>A file, or the console with its switch, its colours and the text on its stream.\<close>

datatype sink_target = File_target file_helper | Console_target bool "level_enum \<Rightarrow> string" string

record sink =
  sk_level :: level_enum
  sk_formatter :: pattern_formatter
  sk_target :: sink_target

definition default_eol :: string where
  "default_eol = [CHR 0x0A]"

definition sink_new :: "sink_target \<Rightarrow> sink" where
  "sink_new tg = \<lparr>sk_level = level_trace, sk_formatter = pattern_formatter_default time_local default_eol, sk_target = tg\<rparr>"

definition sink_should_log :: "level_enum \<Rightarrow> sink \<Rightarrow> bool" where
  "sink_should_log msg_level sk \<longleftrightarrow> level_code (sk_level sk) \<le> level_code msg_level"

definition sink_set_level :: "level_enum \<Rightarrow> sink \<Rightarrow> sink" where
  "sink_set_level log_level sk = sk\<lparr>sk_level := log_level\<rparr>"

definition sink_set_formatter :: "pattern_formatter \<Rightarrow> sink \<Rightarrow> sink" where
  "sink_set_formatter pf sk = sk\<lparr>sk_formatter := pf\<rparr>"

definition sink_set_pattern :: "string \<Rightarrow> sink \<Rightarrow> sink" where
  "sink_set_pattern pattern sk = sink_set_formatter (pattern_formatter_new pattern time_local default_eol) sk"

definition basic_file_sink_new :: "log_os \<Rightarrow> string \<Rightarrow> bool \<Rightarrow> sink res" where
  "basic_file_sink_new os filename trunc =
     res_bind (file_helper_open os filename trunc file_helper_new) (\<lambda>(fh, ex).
       case ex of None \<Rightarrow> Inr (sink_new (File_target fh)) | Some what \<Rightarrow> Inl (Spdlog_ex what))"

definition esc :: "string \<Rightarrow> string" where
  "esc code = CHR 0x1B # CHR ''['' # code @ ''m''"

definition color_reset :: string where
  "color_reset = esc []"

definition default_colors :: "level_enum \<Rightarrow> string" where
  "default_colors l =
     (case l of
        level_trace \<Rightarrow> esc ''37''
      | level_debug \<Rightarrow> esc ''36''
      | level_info \<Rightarrow> esc ''32''
      | level_warn \<Rightarrow> esc ''33'' @ esc ''1''
      | level_err \<Rightarrow> esc ''31'' @ esc ''1''
      | level_critical \<Rightarrow> esc ''1'' @ esc ''41''
      | level_off \<Rightarrow> color_reset)"

definition ansicolor_sink_new :: "log_os \<Rightarrow> sink" where
  "ansicolor_sink_new os = sink_new (Console_target (lo_color os) default_colors [])"

definition ansicolor_set_color :: "level_enum \<Rightarrow> string \<Rightarrow> sink \<Rightarrow> sink" where
  "ansicolor_set_color color_level color sk =
     (case sk_target sk of
        Console_target b cols out \<Rightarrow> sk\<lparr>sk_target := Console_target b (cols(color_level := color)) out\<rparr>
      | File_target fh \<Rightarrow> sk)"

text \<open>Writes to the console; what \<^verbatim>\<open>fwrite\<close> returns is ignored.\<close>

definition print_text :: "log_os \<Rightarrow> string \<Rightarrow> string \<Rightarrow> string" where
  "print_text os s out = out @ take (lo_fwrite os out s) s"

definition print_range :: "log_os \<Rightarrow> string \<Rightarrow> nat \<Rightarrow> nat \<Rightarrow> string \<Rightarrow> string res" where
  "print_range os formatted start fin out =
     (if start \<le> fin \<and> fin \<le> length formatted
      then Inr (print_text os (take (fin - start) (drop start formatted)) out)
      else Inl Out_of_bounds)"

text \<open>The body of \<^verbatim>\<open>log\<close> for a console, after formatting.\<close>

definition ansicolor_print :: "log_os \<Rightarrow> bool \<Rightarrow> (level_enum \<Rightarrow> string) \<Rightarrow> log_msg \<Rightarrow> string \<Rightarrow> string \<Rightarrow> string res" where
  "ansicolor_print os should_do_colors colors msg formatted out =
     (if should_do_colors \<and> lm_color_start msg < lm_color_end msg then
        res_bind (print_range os formatted 0 (lm_color_start msg) out) (\<lambda>out.
        let out = print_text os (colors (lm_level msg)) out in
        res_bind (print_range os formatted (lm_color_start msg) (lm_color_end msg) out) (\<lambda>out.
        let out = print_text os color_reset out in
        print_range os formatted (lm_color_end msg) (length formatted) out))
      else print_range os formatted 0 (length formatted) out)"

text \<open>\<^verbatim>\<open>sink->log(msg)\<close>: the colour range of the message is set by the formatter and stays with the message.\<close>

definition sink_log :: "log_env \<Rightarrow> log_os \<Rightarrow> sink \<times> log_msg \<Rightarrow> (sink \<times> log_msg) outcome" where
  "sink_log env os = (\<lambda>(sk, msg).
     catching (sk, msg) (pattern_formatter_format env (sk_formatter sk) (msg, [])) (\<lambda>(pf, msg, formatted).
       let sk = sk\<lparr>sk_formatter := pf\<rparr> in
       case sk_target sk of
         File_target fh \<Rightarrow>
           res_bind (file_helper_write os formatted fh) (\<lambda>(fh, ex).
             Inr ((sk\<lparr>sk_target := File_target fh\<rparr>, msg), ex))
       | Console_target b cols out \<Rightarrow>
           res_bind (ansicolor_print os b cols msg formatted out) (\<lambda>out.
             ok (sk\<lparr>sk_target := Console_target b cols out\<rparr>, msg))))"

definition sink_flush :: "sink \<Rightarrow> sink" where
  "sink_flush sk =
     (case sk_target sk of
        File_target fh \<Rightarrow> sk\<lparr>sk_target := File_target (file_helper_flush fh)\<rparr>
      | Console_target b cols out \<Rightarrow> sk)"

section \<open>What sinks write\<close>

text \<open>A system that writes everything.\<close>

definition writes_all :: "log_os \<Rightarrow> bool" where
  "writes_all os \<longleftrightarrow> (\<forall>out s. lo_fwrite os out s = length s)"

lemma print_text_all: "writes_all os \<Longrightarrow> print_text os s out = out @ s"
  by (simp add: print_text_def writes_all_def)

text \<open>A text with a range in a colour.\<close>

definition colored :: "string \<Rightarrow> nat \<Rightarrow> nat \<Rightarrow> string \<Rightarrow> string" where
  "colored col a b s = take a s @ col @ take (b - a) (drop a s) @ color_reset @ drop b s"

lemma colored_text: "a \<le> b \<Longrightarrow> take a s @ take (b - a) (drop a s) @ drop b s = s"
  by (metis append_assoc append_take_drop_id le_add_diff_inverse take_add)

lemma ansicolor_print_eq:
  assumes "writes_all os" "lm_color_end msg \<le> length s"
  shows "ansicolor_print os b cols msg s out =
    Inr (out @ (if b \<and> lm_color_start msg < lm_color_end msg
       then colored (cols (lm_level msg)) (lm_color_start msg) (lm_color_end msg) s else s))"
  using assms by (auto simp: ansicolor_print_def print_range_def print_text_all colored_def Let_def)

lemma ansicolor_print_stale:
  assumes "lm_color_start msg < lm_color_end msg" "length s < lm_color_end msg"
  shows "ansicolor_print os True cols msg s out = Inl Out_of_bounds"
  using assms by (auto simp: ansicolor_print_def print_range_def Let_def)

text \<open>What a target has after a line.\<close>

fun target_put :: "log_msg \<Rightarrow> string \<Rightarrow> sink_target \<Rightarrow> sink_target" where
  "target_put msg s (File_target fh) = File_target (fh\<lparr>fh_text := fh_text fh @ s\<rparr>)"
| "target_put msg s (Console_target b cols out) = Console_target b cols
     (out @ (if b \<and> lm_color_start msg < lm_color_end msg
        then colored (cols (lm_level msg)) (lm_color_start msg) (lm_color_end msg) s else s))"

fun target_open :: "sink_target \<Rightarrow> bool" where
  "target_open (File_target fh) = fh_fd fh"
| "target_open (Console_target b cols out) = True"

definition sink_ok :: "log_env \<Rightarrow> sink \<Rightarrow> bool" where
  "sink_ok env sk \<longleftrightarrow> pattern_inv env (sk_formatter sk) \<and> target_open (sk_target sk)"

lemma sink_log_eq:
  assumes "sink_ok env sk" "log_env_ok env" "writes_all os" "msg_ok msg" "to_secs (lm_time msg) \<noteq> 0"
    and line: "pattern_line env (sk_formatter sk) (msg, []) = (msg', s)"
    and range: "\<And>b cols out. sk_target sk = Console_target b cols out \<Longrightarrow> lm_color_end msg' \<le> length s"
  shows "\<exists>sk'. sink_log env os (sk, msg) = ok (sk', msg') \<and> sink_ok env sk' \<and> sk_level sk' = sk_level sk \<and>
    sk_target sk' = target_put msg' s (sk_target sk) \<and> pf_pattern (sk_formatter sk') = pf_pattern (sk_formatter sk) \<and>
    pf_eol (sk_formatter sk') = pf_eol (sk_formatter sk) \<and> pf_time_type (sk_formatter sk') = pf_time_type (sk_formatter sk)"
proof -
  obtain pf where pf: "pattern_formatter_format env (sk_formatter sk) (msg, []) = Inr (pf, msg', s)" "pattern_inv env pf"
    "pf_pattern pf = pf_pattern (sk_formatter sk)" "pf_eol pf = pf_eol (sk_formatter sk)"
    "pf_time_type pf = pf_time_type (sk_formatter sk)"
    using pattern_format_eq [OF _ assms(2,4,5), of "sk_formatter sk" "[]"] assms(1) line by (auto simp: sink_ok_def)
  show ?thesis
  proof (cases "sk_target sk")
    case (File_target fh)
    then have "fh_fd fh" using assms(1) by (simp add: sink_ok_def)
    moreover have "lo_fwrite os (fh_text fh) s = length s" using assms(3) by (simp add: writes_all_def)
    ultimately show ?thesis
      using pf File_target by (simp add: sink_log_def catching_def file_helper_write_def ok_def sink_ok_def Let_def)
  next
    case (Console_target b cols out)
    then show ?thesis
      using pf ansicolor_print_eq [OF assms(3), of msg' s b cols out] range
      by (simp add: sink_log_def catching_def ok_def sink_ok_def)
  qed
qed

text \<open>The first attempts of five decide whether a file can be opened.\<close>

lemma file_open_loop_eq:
  "file_open_loop os t n fh =
     (if \<exists>i < n. lo_fopen os (fh_filename fh) (fh_mode fh) (t + i)
      then ok (fh\<lparr>fh_fd := True, fh_text := [], fh_flushed := 0\<rparr>)
      else throw (lo_syserr os (''Failed opening file '' @ fh_filename fh @ '' for writing'')) fh)"
proof (induction os t n fh rule: file_open_loop.induct)
  case (2 os t n fh)
  have "(\<exists>i < Suc n. lo_fopen os (fh_filename fh) (fh_mode fh) (t + i)) \<longleftrightarrow>
      lo_fopen os (fh_filename fh) (fh_mode fh) t \<or> (\<exists>i < n. lo_fopen os (fh_filename fh) (fh_mode fh) (t + 1 + i))"
    by (auto simp: less_Suc_eq_0_disj)
  then show ?case using 2 by auto
qed simp

lemma file_sink_new_eq:
  "basic_file_sink_new os fname tr =
     (if \<exists>i < 5. lo_fopen os fname (if tr then ''wb'' else ''ab'') i
      then Inr (sink_new (File_target \<lparr>fh_fd = True, fh_filename = fname, fh_mode = (if tr then ''wb'' else ''ab''),
        fh_text = [], fh_flushed = 0\<rparr>))
      else Inl (Spdlog_ex (lo_syserr os (''Failed opening file '' @ fname @ '' for writing''))))"
  by (simp add: basic_file_sink_new_def file_helper_open_def open_tries_def file_open_loop_eq file_helper_new_def
      file_helper_close_def ok_def throw_def Let_def)

lemma rfind_last: "rfind c s = Some i \<Longrightarrow> i < length s \<and> s ! i = c"
  by (induction s arbitrary: i) (auto split: option.splits if_splits)

text \<open>A path is its stem and its extension, which starts with the last dot of the file name.\<close>

lemma split_by_extension_join:
  assumes "split_by_extension f = (stem, ext)"
  shows "stem @ ext = f" "ext \<noteq> [] \<Longrightarrow> stem \<noteq> [] \<and> hd ext = CHR ''.'' \<and> 1 < length ext"
  using assms rfind_last [of "CHR ''.''" f]
  by (auto simp: split_by_extension_def hd_drop_conv_nth split: option.splits if_splits)

end
