(* ===== verification/Log_Queue.thy ===== *)
theory Log_Queue
  imports Bounce_Prelude
begin

text \<open>
  The bounded queue of the asynchronous loggers (\<^verbatim>\<open>details/circular_q.h\<close> and the critical sections of
  \<^verbatim>\<open>details/mpmc_blocking_q.h\<close> under \<^verbatim>\<open>src/deps/spdlog\<close>): a ring of \<^verbatim>\<open>max_items + 1\<close> slots, one
  of which is always free. The locale \<open>bounded_fifo\<close> states what the queue promises its clients; the ring interprets it, and any
  sequence of queue operations behaves as on a list of bounded length.
\<close>

section \<open>The ring\<close>

record 'a circular_q =
  cq_max_items :: nat
  cq_head :: nat
  cq_tail :: nat
  cq_v :: "'a list"
  cq_overrun :: nat

text \<open>\<open>limit\<close> is the maximal size of the vector, \<open>d\<close> the value-initialised item.\<close>

definition circular_q_new :: "nat \<Rightarrow> 'a \<Rightarrow> nat \<Rightarrow> 'a circular_q res" where
  "circular_q_new limit d max_items =
     (let m = sz_add max_items 1 in
      if m > limit then Inl Length_error
      else Inr \<lparr>cq_max_items = m, cq_head = 0, cq_tail = 0, cq_v = replicate m d, cq_overrun = 0\<rparr>)"

definition circular_q_push_back :: "'a \<Rightarrow> 'a circular_q \<Rightarrow> 'a circular_q res" where
  "circular_q_push_back item q =
     (if cq_tail q < length (cq_v q) then
        let q = q\<lparr>cq_v := (cq_v q)[cq_tail q := item]\<rparr>;
            q = q\<lparr>cq_tail := sz_add (cq_tail q) 1 mod cq_max_items q\<rparr>
        in if cq_tail q = cq_head q then
             Inr (q\<lparr>cq_head := sz_add (cq_head q) 1 mod cq_max_items q, cq_overrun := sz_add (cq_overrun q) 1\<rparr>)
           else Inr q
      else Inl Out_of_bounds)"

text \<open>The slot keeps what moving the item leaves behind, given by \<open>moved\<close>.\<close>

definition circular_q_pop_front :: "('a \<Rightarrow> 'a) \<Rightarrow> 'a circular_q \<Rightarrow> ('a \<times> 'a circular_q) res" where
  "circular_q_pop_front moved q =
     (if cq_head q < length (cq_v q) then
        let popped_item = cq_v q ! cq_head q;
            q = q\<lparr>cq_v := (cq_v q)[cq_head q := moved popped_item]\<rparr>
        in Inr (popped_item, q\<lparr>cq_head := sz_add (cq_head q) 1 mod cq_max_items q\<rparr>)
      else Inl Out_of_bounds)"

definition circular_q_empty :: "'a circular_q \<Rightarrow> bool" where
  "circular_q_empty q \<longleftrightarrow> cq_tail q = cq_head q"

definition circular_q_full :: "'a circular_q \<Rightarrow> bool" where
  "circular_q_full q \<longleftrightarrow> sz_add (cq_tail q) 1 mod cq_max_items q = cq_head q"

definition circular_q_overrun_counter :: "'a circular_q \<Rightarrow> nat" where
  "circular_q_overrun_counter q = cq_overrun q"

section \<open>The critical sections of the blocking queue\<close>

text \<open>\<^verbatim>\<open>enqueue\<close> waits while the queue is full, which is \<open>None\<close> here; \<^verbatim>\<open>dequeue_for\<close> waits while
  it is empty.\<close>

definition mpmc_enqueue :: "'a \<Rightarrow> 'a circular_q \<Rightarrow> 'a circular_q option res" where
  "mpmc_enqueue item q =
     (if circular_q_full q then Inr None
      else res_bind (circular_q_push_back item q) (\<lambda>q. Inr (Some q)))"

definition mpmc_enqueue_nowait :: "'a \<Rightarrow> 'a circular_q \<Rightarrow> 'a circular_q res" where
  "mpmc_enqueue_nowait item q = circular_q_push_back item q"

definition mpmc_dequeue :: "('a \<Rightarrow> 'a) \<Rightarrow> 'a circular_q \<Rightarrow> ('a \<times> 'a circular_q) option res" where
  "mpmc_dequeue moved q =
     (if circular_q_empty q then Inr None
      else res_bind (circular_q_pop_front moved q) (\<lambda>r. Inr (Some r)))"

section \<open>Bounded queues\<close>

text \<open>What a bounded queue that overruns its oldest item promises.\<close>

locale bounded_fifo =
  fixes invar :: "'q \<Rightarrow> bool"
    and items :: "'q \<Rightarrow> 'a list"
    and capacity :: "'q \<Rightarrow> nat"
    and lost :: "'q \<Rightarrow> nat"
    and push :: "'a \<Rightarrow> 'q \<Rightarrow> 'q res"
    and pop :: "'q \<Rightarrow> ('a \<times> 'q) res"
    and is_empty :: "'q \<Rightarrow> bool"
    and is_full :: "'q \<Rightarrow> bool"
  assumes items_bound: "invar q \<Longrightarrow> length (items q) \<le> capacity q"
    and empty_items: "invar q \<Longrightarrow> is_empty q \<longleftrightarrow> items q = []"
    and full_items: "invar q \<Longrightarrow> is_full q \<longleftrightarrow> length (items q) = capacity q"
    and push_items: "invar q \<Longrightarrow> \<exists>r. push x q = Inr r \<and> invar r \<and> capacity r = capacity q \<and>
      items r = (if is_full q then tl (items q @ [x]) else items q @ [x]) \<and>
      lost r = (if is_full q then sz_add (lost q) 1 else lost q)"
    and pop_items: "invar q \<Longrightarrow> items q \<noteq> [] \<Longrightarrow> \<exists>r. pop q = Inr (hd (items q), r) \<and> invar r \<and>
      capacity r = capacity q \<and> items r = tl (items q) \<and> lost r = lost q"
begin

lemma push_room:
  "invar q \<Longrightarrow> \<not> is_full q \<Longrightarrow> push x q = Inr r \<Longrightarrow>
   invar r \<and> capacity r = capacity q \<and> items r = items q @ [x] \<and> lost r = lost q"
  using push_items [of q x] by auto

lemma push_overrun:
  "invar q \<Longrightarrow> is_full q \<Longrightarrow> push x q = Inr r \<Longrightarrow>
   invar r \<and> capacity r = capacity q \<and> items r = tl (items q @ [x]) \<and> lost r = sz_add (lost q) 1"
  using push_items [of q x] by auto

lemma pop_some:
  "invar q \<Longrightarrow> \<not> is_empty q \<Longrightarrow> pop q = Inr (x, r) \<Longrightarrow>
   invar r \<and> capacity r = capacity q \<and> items q = x # items r \<and> lost r = lost q"
  using pop_items [of q] empty_items [of q] by (cases "items q") auto

lemma full_capacity_0: "invar q \<Longrightarrow> capacity q = 0 \<Longrightarrow> is_full q \<and> is_empty q"
  using items_bound [of q] by (simp add: full_items empty_items)

end

section \<open>Windows of the ring\<close>

definition window :: "'a list \<Rightarrow> nat \<Rightarrow> nat \<Rightarrow> 'a list" where
  "window v h k = map (\<lambda>i. v ! ((h + i) mod length v)) [0..<k]"

lemma length_window [simp]: "length (window v h k) = k"
  by (simp add: window_def)

lemma window_0 [simp]: "window v h 0 = []"
  by (simp add: window_def)

lemma window_snoc: "window v h (Suc k) = window v h k @ [v ! ((h + k) mod length v)]"
  by (simp add: window_def)

lemma window_Cons: "window v h (Suc k) = v ! (h mod length v) # window v (Suc h) k"
  by (rule nth_equalityI) (auto simp: window_def nth_Cons' simp del: upt_Suc)

lemma window_mod: "window v (h mod length v) k = window v h k"
  by (simp add: window_def mod_simps)

lemma mod_add_neq: "i < j \<Longrightarrow> j < m \<Longrightarrow> (h + i) mod m \<noteq> (h + j) mod (m :: nat)"
  using mod_eq_dvd_iff_nat [of "h + i" "h + j" m] nat_dvd_not_less [of "j - i" m] by fastforce

lemma window_update:
  assumes "k < length v"
  shows "window (v[(h + k) mod length v := x]) h k = window v h k"
proof (rule nth_equalityI)
  fix i assume "i < length (window (v[(h + k) mod length v := x]) h k)"
  then have "i < k" by simp
  with assms mod_add_neq [of i k "length v" h] show
    "window (v[(h + k) mod length v := x]) h k ! i = window v h k ! i"
    by (simp add: window_def)
qed simp

definition cq_size :: "'a circular_q \<Rightarrow> nat" where
  "cq_size q = (cq_tail q + cq_max_items q - cq_head q) mod cq_max_items q"

definition cq_items :: "'a circular_q \<Rightarrow> 'a list" where
  "cq_items q = window (cq_v q) (cq_head q) (cq_size q)"

definition cq_capacity :: "'a circular_q \<Rightarrow> nat" where
  "cq_capacity q = cq_max_items q - 1"

definition cq_inv :: "'a circular_q \<Rightarrow> bool" where
  "cq_inv q \<longleftrightarrow> length (cq_v q) = cq_max_items q \<and> cq_head q < cq_max_items q \<and> cq_tail q < cq_max_items q \<and>
     cq_max_items q < 2 ^ 64"

lemma ring_size:
  assumes "h < m" "t < m"
  shows "(t + m - h) mod m < m" "(h + (t + m - h) mod m) mod m = (t :: nat)"
  using assms by (auto simp: mod_simps)

lemma ring_size_eq:
  assumes "h < m" "n < m"
  shows "((h + n) mod m + m - h) mod m = (n :: nat)"
proof (cases "h + n < m")
  case False
  then have "(h + n) mod m = h + n - m" using assms by (simp add: le_mod_geq)
  then show ?thesis using False assms by simp
qed (use assms in simp)

lemma cq_tail_eq: "cq_inv q \<Longrightarrow> cq_tail q = (cq_head q + cq_size q) mod cq_max_items q \<and> cq_size q < cq_max_items q"
  using ring_size [of "cq_head q" "cq_max_items q" "cq_tail q"] by (simp add: cq_inv_def cq_size_def)

lemma cq_next: "cq_inv q \<Longrightarrow> i < cq_max_items q \<Longrightarrow> sz_add i 1 mod cq_max_items q = Suc i mod cq_max_items q"
  by (simp add: cq_inv_def sz_add_def)

lemma cq_next_tail:
  assumes "cq_inv q"
  shows "sz_add (cq_tail q) 1 mod cq_max_items q = (cq_head q + Suc (cq_size q)) mod cq_max_items q"
proof -
  have "sz_add (cq_tail q) 1 mod cq_max_items q = Suc (cq_tail q) mod cq_max_items q"
    using assms by (intro cq_next) (auto simp: cq_inv_def)
  also have "\<dots> = (cq_head q + Suc (cq_size q)) mod cq_max_items q"
    using cq_tail_eq [OF assms] by (simp add: mod_simps)
  finally show ?thesis .
qed

lemma length_cq_items [simp]: "length (cq_items q) = cq_size q"
  by (simp add: cq_items_def)

lemma cq_empty_iff:
  assumes "cq_inv q"
  shows "circular_q_empty q \<longleftrightarrow> cq_size q = 0"
  using assms cq_tail_eq [OF assms] mod_add_neq [of 0 "cq_size q" "cq_max_items q" "cq_head q"]
  by (cases "cq_size q") (auto simp: circular_q_empty_def cq_inv_def)

lemma cq_full_iff:
  assumes "cq_inv q"
  shows "circular_q_full q \<longleftrightarrow> cq_size q = cq_capacity q"
proof -
  let ?h = "cq_head q" and ?m = "cq_max_items q" and ?n = "cq_size q"
  have t: "cq_tail q = (?h + ?n) mod ?m" "?n < ?m" "?h < ?m" "cq_tail q < ?m"
    using assms cq_tail_eq [OF assms] by (auto simp: cq_inv_def)
  have "circular_q_full q \<longleftrightarrow> (?h + Suc ?n) mod ?m = ?h"
    unfolding circular_q_full_def cq_next_tail [OF assms] ..
  also have "\<dots> \<longleftrightarrow> Suc ?n = ?m"
  proof
    assume "(?h + Suc ?n) mod ?m = ?h"
    then show "Suc ?n = ?m" using t(2,3) mod_add_neq [of 0 "Suc ?n" ?m ?h] by (cases "Suc ?n < ?m") auto
  qed (use t(3) in simp)
  finally show ?thesis using t(2) by (auto simp: cq_capacity_def)
qed

lemma cq_push:
  assumes "cq_inv q"
  shows "\<exists>r. circular_q_push_back x q = Inr r \<and> cq_inv r \<and> cq_capacity r = cq_capacity q \<and>
    cq_items r = (if circular_q_full q then tl (cq_items q @ [x]) else cq_items q @ [x]) \<and>
    circular_q_overrun_counter r =
      (if circular_q_full q then sz_add (circular_q_overrun_counter q) 1 else circular_q_overrun_counter q)"
proof -
  let ?h = "cq_head q" and ?m = "cq_max_items q" and ?n = "cq_size q" and ?v = "(cq_v q)[cq_tail q := x]"
  have t: "cq_tail q = (?h + ?n) mod ?m" "?n < ?m" "?h < ?m" "cq_tail q < ?m" "length (cq_v q) = ?m" "?m < 2 ^ 64"
    using assms cq_tail_eq [OF assms] by (auto simp: cq_inv_def)
  have nx: "sz_add (cq_tail q) 1 mod ?m = (?h + Suc ?n) mod ?m" "sz_add ?h 1 mod ?m = Suc ?h mod ?m"
    using cq_next_tail [OF assms] cq_next [OF assms t(3)] by simp_all
  have w: "window ?v ?h (Suc ?n) = cq_items q @ [x]"
    using window_update [of ?n "cq_v q" ?h x] t by (simp add: window_snoc cq_items_def)
  show ?thesis
  proof (cases "circular_q_full q")
    case True
    define r where "r = q\<lparr>cq_v := ?v, cq_tail := ?h, cq_head := Suc ?h mod ?m, cq_overrun := sz_add (cq_overrun q) 1\<rparr>"
    have n: "Suc ?n = ?m" using True cq_full_iff [OF assms] t(2) by (simp add: cq_capacity_def)
    have e: "(?h + Suc ?n) mod ?m = ?h" using n t(3) by simp
    have r: "circular_q_push_back x q = Inr r"
      using t nx e by (simp add: circular_q_push_back_def r_def Let_def)
    have "(Suc ?h mod ?m + ?n) mod ?m = ?h" using e by (simp add: mod_simps)
    moreover have "((Suc ?h mod ?m + ?n) mod ?m + ?m - Suc ?h mod ?m) mod ?m = ?n"
      using t(2,3) by (intro ring_size_eq) auto
    ultimately have sz: "cq_size r = ?n" unfolding cq_size_def [of r] by (simp add: r_def)
    have "cq_items r = window ?v (Suc ?h) ?n"
      using window_mod [of ?v "Suc ?h" ?n] t(5) sz by (simp add: cq_items_def r_def)
    also have "\<dots> = tl (cq_items q @ [x])" unfolding w [symmetric] by (simp add: window_Cons)
    finally show ?thesis using r t True by (auto simp: r_def cq_inv_def cq_capacity_def circular_q_overrun_counter_def)
  next
    case False
    define r where "r = q\<lparr>cq_v := ?v, cq_tail := (?h + Suc ?n) mod ?m\<rparr>"
    have n: "Suc ?n < ?m" using False cq_full_iff [OF assms] t(2) by (simp add: cq_capacity_def)
    have "(?h + Suc ?n) mod ?m \<noteq> ?h" using mod_add_neq [of 0 "Suc ?n" ?m ?h] n t(3) by simp
    then have r: "circular_q_push_back x q = Inr r"
      using t nx by (simp add: circular_q_push_back_def r_def Let_def)
    have "cq_size r = Suc ?n"
      unfolding cq_size_def [of r] using ring_size_eq [of ?h ?m "Suc ?n"] n t(3) by (simp add: r_def)
    then have "cq_items r = cq_items q @ [x]" using w by (simp add: cq_items_def r_def)
    then show ?thesis using r t n False by (auto simp: r_def cq_inv_def cq_capacity_def circular_q_overrun_counter_def)
  qed
qed

lemma cq_pop:
  assumes "cq_inv q" "cq_items q \<noteq> []"
  shows "\<exists>r. circular_q_pop_front moved q = Inr (hd (cq_items q), r) \<and> cq_inv r \<and> cq_capacity r = cq_capacity q \<and>
    cq_items r = tl (cq_items q) \<and> circular_q_overrun_counter r = circular_q_overrun_counter q"
proof -
  let ?h = "cq_head q" and ?m = "cq_max_items q" and ?x = "cq_v q ! cq_head q"
  let ?v = "(cq_v q)[?h := moved ?x]"
  define r where "r = q\<lparr>cq_v := ?v, cq_head := Suc ?h mod ?m\<rparr>"
  have t: "cq_tail q = (?h + cq_size q) mod ?m" "cq_size q < ?m" "?h < ?m" "length (cq_v q) = ?m" "?m < 2 ^ 64"
    using assms cq_tail_eq [OF assms(1)] by (auto simp: cq_inv_def)
  obtain n where n: "cq_size q = Suc n" using assms(2) by (cases "cq_size q") (auto simp: cq_items_def)
  have r: "circular_q_pop_front moved q = Inr (?x, r)"
    using t cq_next [OF assms(1) t(3)] by (simp add: circular_q_pop_front_def r_def Let_def)
  have "cq_tail q = (Suc ?h mod ?m + n) mod ?m" using t(1) n by (simp add: mod_simps)
  moreover have "((Suc ?h mod ?m + n) mod ?m + ?m - Suc ?h mod ?m) mod ?m = n"
    using t(2,3) n by (intro ring_size_eq) auto
  ultimately have sz: "cq_size r = n" unfolding cq_size_def [of r] by (simp add: r_def)
  have q: "cq_items q = ?x # window (cq_v q) (Suc ?h) n" using t by (simp add: cq_items_def n window_Cons)
  have "window ?v (Suc ?h) n = window (cq_v q) (Suc ?h) n"
  proof (rule nth_equalityI)
    fix i assume "i < length (window ?v (Suc ?h) n)"
    then have "i < n" by simp
    then have "(?h + Suc i) mod ?m \<noteq> ?h" using mod_add_neq [of 0 "Suc i" ?m ?h] t n by simp
    with \<open>i < n\<close> t show "window ?v (Suc ?h) n ! i = window (cq_v q) (Suc ?h) n ! i" by (simp add: window_def)
  qed simp
  then have "cq_items r = tl (cq_items q)"
    using q sz t window_mod [of ?v "Suc ?h" n] by (simp add: cq_items_def r_def)
  then show ?thesis using r q t assms(1) by (auto simp: r_def cq_inv_def cq_capacity_def circular_q_overrun_counter_def)
qed

interpretation cq: bounded_fifo cq_inv cq_items cq_capacity circular_q_overrun_counter circular_q_push_back
  "circular_q_pop_front moved" circular_q_empty circular_q_full
proof unfold_locales
  fix q :: "'a circular_q" and x
  assume inv: "cq_inv q"
  show "length (cq_items q) \<le> cq_capacity q" using cq_tail_eq [OF inv] by (auto simp: cq_capacity_def)
  show "circular_q_empty q \<longleftrightarrow> cq_items q = []" using cq_empty_iff [OF inv] by (simp flip: length_0_conv)
  show "circular_q_full q \<longleftrightarrow> length (cq_items q) = cq_capacity q" using cq_full_iff [OF inv] by simp
qed (fact cq_push cq_pop)+

lemma circular_q_new_ok:
  assumes "max_items < limit" "limit < 2 ^ 64"
  shows "\<exists>q. circular_q_new limit d max_items = Inr q \<and> cq_inv q \<and> cq_items q = [] \<and> cq_capacity q = max_items \<and>
    circular_q_overrun_counter q = 0"
  using assms
  by (auto simp: circular_q_new_def sz_add_def cq_inv_def cq_items_def cq_size_def cq_capacity_def
      circular_q_overrun_counter_def Let_def)

section \<open>Sequences of operations\<close>

text \<open>The operations of the queue by any threads, in the order in which they get the mutex; an operation that has to wait
  changes nothing.\<close>

datatype 'a q_op = Enqueue 'a | Enqueue_nowait 'a | Dequeue

fun mpmc_op :: "('a \<Rightarrow> 'a) \<Rightarrow> 'a q_op \<Rightarrow> 'a circular_q \<times> 'a list \<Rightarrow> ('a circular_q \<times> 'a list) res" where
  "mpmc_op moved (Enqueue x) (q, out) =
     res_bind (mpmc_enqueue x q) (\<lambda>r. Inr (case r of None \<Rightarrow> q | Some q \<Rightarrow> q, out))"
| "mpmc_op moved (Enqueue_nowait x) (q, out) = res_bind (mpmc_enqueue_nowait x q) (\<lambda>q. Inr (q, out))"
| "mpmc_op moved Dequeue (q, out) =
     res_bind (mpmc_dequeue moved q) (\<lambda>r. Inr (case r of None \<Rightarrow> (q, out) | Some (x, q) \<Rightarrow> (q, out @ [x])))"

text \<open>The same on a list with the number of items lost, where \<open>cap\<close> is the capacity.\<close>

fun list_op :: "nat \<Rightarrow> 'a q_op \<Rightarrow> 'a list \<times> nat \<times> 'a list \<Rightarrow> 'a list \<times> nat \<times> 'a list" where
  "list_op cap (Enqueue x) (xs, k, out) = (if length xs < cap then (xs @ [x], k, out) else (xs, k, out))"
| "list_op cap (Enqueue_nowait x) (xs, k, out) =
     (if length xs < cap then (xs @ [x], k, out) else (tl (xs @ [x]), Suc k, out))"
| "list_op cap Dequeue (xs, k, out) = (case xs of [] \<Rightarrow> (xs, k, out) | x # xs \<Rightarrow> (xs, k, out @ [x]))"

definition cq_abs :: "nat \<Rightarrow> 'a circular_q \<times> 'a list \<Rightarrow> 'a list \<times> nat \<times> 'a list \<Rightarrow> bool" where
  "cq_abs cap = (\<lambda>(q, out) (xs, k, out').
     cq_inv q \<and> cq_capacity q = cap \<and> cq_items q = xs \<and> circular_q_overrun_counter q = k mod 2 ^ 64 \<and> out' = out)"

lemma mpmc_op_refines:
  assumes "cq_abs cap s t"
  shows "\<exists>s'. mpmc_op moved a s = Inr s' \<and> cq_abs cap s' (list_op cap a t)"
proof -
  obtain q out where s: "s = (q, out)" by (cases s)
  obtain xs k out' where t: "t = (xs, k, out')" by (cases t) auto
  have q: "cq_inv q" "cq_capacity q = cap" "cq_items q = xs" "circular_q_overrun_counter q = k mod 2 ^ 64" "out' = out"
    using assms by (auto simp: cq_abs_def s t)
  have full: "circular_q_full q \<longleftrightarrow> \<not> length xs < cap" and empty: "circular_q_empty q \<longleftrightarrow> xs = []"
    using cq.full_items [OF q(1)] cq.items_bound [OF q(1)] cq.empty_items [OF q(1)] q by auto
  show ?thesis
  proof (cases a)
    case (Enqueue x)
    then show ?thesis
      using cq.push_items [OF q(1), of x] q full by (auto simp: s t cq_abs_def mpmc_enqueue_def)
  next
    case (Enqueue_nowait x)
    then show ?thesis
      using cq.push_items [OF q(1), of x] q full
      by (auto simp: s t cq_abs_def mpmc_enqueue_nowait_def sz_add_def mod_Suc_eq)
  next
    case Dequeue
    then show ?thesis
      using cq.pop_items [OF q(1), of moved] q empty by (cases xs) (auto simp: s t cq_abs_def mpmc_dequeue_def)
  qed
qed

lemma mpmc_ops_refine:
  "cq_abs cap s t \<Longrightarrow> \<exists>s'. res_fold (mpmc_op moved) ops s = Inr s' \<and> cq_abs cap s' (fold (list_op cap) ops t)"
proof (induction ops arbitrary: s t)
  case (Cons a ops)
  obtain u where "mpmc_op moved a s = Inr u" "cq_abs cap u (list_op cap a t)"
    using mpmc_op_refines [OF Cons.prems] by blast
  with Cons.IH [of u] show ?case by simp
qed auto

text \<open>C27: a queue for \<open>max_items\<close> items behaves under any sequence of operations as a list of at most that many items:
  the same items come out in the same order, a full queue makes \<^verbatim>\<open>enqueue\<close> wait and makes
  \<^verbatim>\<open>enqueue_nowait\<close> discard exactly the oldest item, the overrun counter counts these modulo its width, and no slot
  outside the vector is touched.\<close>

theorem circular_q_refines:
  assumes "max_items < limit" "limit < 2 ^ 64"
  shows "\<exists>q0 q out xs k. circular_q_new limit d max_items = Inr q0 \<and>
    res_fold (mpmc_op moved) ops (q0, []) = Inr (q, out) \<and>
    fold (list_op max_items) ops ([], 0, []) = (xs, k, out) \<and>
    cq_items q = xs \<and> circular_q_overrun_counter q = k mod 2 ^ 64 \<and> length xs \<le> max_items"
proof -
  obtain q0 where q0: "circular_q_new limit d max_items = Inr q0" "cq_abs max_items (q0, []) ([], 0, [])"
    using circular_q_new_ok [OF assms, of d] by (auto simp: cq_abs_def)
  obtain q out where r: "res_fold (mpmc_op moved) ops (q0, []) = Inr (q, out)"
    "cq_abs max_items (q, out) (fold (list_op max_items) ops ([], 0, []))"
    using mpmc_ops_refine [OF q0(2), of moved ops] by (metis surj_pair)
  with q0 cq.items_bound [of q] show ?thesis
    by (cases "fold (list_op max_items) ops ([], 0, [])") (auto simp: cq_abs_def)
qed

theorem circular_q_refines_witness:
  "\<exists>q0 q out xs k. circular_q_new 100 (0 :: nat) 2 = Inr q0 \<and>
    res_fold (mpmc_op (\<lambda>_. 0)) [Enqueue 7, Enqueue 8, Enqueue 9, Enqueue_nowait 10, Dequeue] (q0, []) = Inr (q, out) \<and>
    fold (list_op 2) [Enqueue 7, Enqueue 8, Enqueue 9, Enqueue_nowait 10, Dequeue] ([], 0, []) = (xs, k, out) \<and>
    cq_items q = xs \<and> circular_q_overrun_counter q = k mod 2 ^ 64 \<and> length xs \<le> 2"
  by (rule circular_q_refines) simp_all

text \<open>A queue for no items is full and empty at once, so \<^verbatim>\<open>enqueue\<close> waits for ever.\<close>

lemma circular_q_zero:
  assumes "circular_q_new limit d 0 = Inr q"
  shows "mpmc_enqueue x q = Inr None"
proof -
  have "sz_add 0 1 = 1" by (simp add: sz_add_def)
  then have "q = \<lparr>cq_max_items = 1, cq_head = 0, cq_tail = 0, cq_v = [d], cq_overrun = 0\<rparr>"
    using assms by (auto simp: circular_q_new_def Let_def split: if_splits)
  then show ?thesis by (simp add: mpmc_enqueue_def circular_q_full_def)
qed

end
