(* ===== verification/Log_Pool.thy ===== *)
theory Log_Pool
  imports Log_Queue Log_Message "HOL-Library.Multiset" "HOL-Library.Sublist"
begin

text \<open>
  The thread pool of the asynchronous loggers (\<^verbatim>\<open>details/thread_pool.h\<close>, the waiting of
  \<^verbatim>\<open>details/mpmc_blocking_q.h\<close> and the posting of \<^verbatim>\<open>details/async_logger_impl.h\<close>) as a transition system. Threads
  of the program post messages, workers take them from the queue and hand them to the back end of the logger, and the destructor
  posts one message per worker that ends it. A step is a critical section, a notification, or the work between two of them; waiting on a
  condition variable is a state of the thread, which a notification, a spurious wake-up or a timeout ends.

  Shown here: messages leave the queue in the order in which they entered it, none is lost but by overrunning; the
  threads never block each other for ever, even without spurious wake-ups and timeouts; and when the destructor
  returns everything has been handed to the back end.
\<close>

section \<open>Messages\<close>

datatype async_msg_type = msg_log | msg_flush | msg_terminate

text \<open>Loggers are numbers; the worker pointer of a message is a logger or null.\<close>

record async_msg =
  am_type :: async_msg_type
  am_level :: level_enum
  am_time :: int
  am_thread_id :: nat
  am_raw :: string
  am_msg_id :: nat
  am_source :: source_loc
  am_worker :: "nat option"

definition async_msg_default :: async_msg where
  "async_msg_default =
     \<lparr>am_type = msg_log, am_level = level_trace, am_time = 0, am_thread_id = 0, am_raw = [], am_msg_id = 0,
      am_source = no_source, am_worker = None\<rparr>"

definition async_msg_of_log :: "nat option \<Rightarrow> async_msg_type \<Rightarrow> log_msg \<Rightarrow> async_msg" where
  "async_msg_of_log worker the_type m =
     \<lparr>am_type = the_type, am_level = lm_level m, am_time = lm_time m, am_thread_id = lm_thread_id m,
      am_raw = lm_payload m, am_msg_id = lm_msg_id m, am_source = lm_source m, am_worker = worker\<rparr>"

definition async_msg_of_type :: "nat option \<Rightarrow> async_msg_type \<Rightarrow> async_msg" where
  "async_msg_of_type worker the_type =
     \<lparr>am_type = the_type, am_level = level_off, am_time = 0, am_thread_id = 0, am_raw = [], am_msg_id = 0,
      am_source = no_source, am_worker = worker\<rparr>"

definition terminate_msg :: async_msg where
  "terminate_msg = async_msg_of_type None msg_terminate"

text \<open>\<open>names\<close> gives the names of the loggers.\<close>

definition to_log_msg :: "(nat \<Rightarrow> string) \<Rightarrow> async_msg \<Rightarrow> log_msg res" where
  "to_log_msg names m =
     (case am_worker m of
        None \<Rightarrow> Inl Null_deref
      | Some l \<Rightarrow> Inr
          ((log_msg_new 0 0 no_source (names l) (am_level m) (am_raw m))
             \<lparr>lm_time := am_time m, lm_thread_id := am_thread_id m, lm_msg_id := am_msg_id m, lm_source := am_source m,
              lm_color_start := 0, lm_color_end := 0\<rparr>))"

text \<open>The calls of the back end, and what \<^verbatim>\<open>process_next_msg_\<close> does with a message; \<open>None\<close> ends the worker.\<close>

datatype backend_call = Backend_log nat log_msg | Backend_flush nat

definition process_msg :: "(nat \<Rightarrow> string) \<Rightarrow> async_msg \<Rightarrow> backend_call option res" where
  "process_msg names m =
     (case am_type m of
        msg_log \<Rightarrow> res_bind (to_log_msg names m) (\<lambda>msg.
          case am_worker m of None \<Rightarrow> Inl Null_deref | Some l \<Rightarrow> Inr (Some (Backend_log l msg)))
      | msg_flush \<Rightarrow> (case am_worker m of None \<Rightarrow> Inl Null_deref | Some l \<Rightarrow> Inr (Some (Backend_flush l)))
      | msg_terminate \<Rightarrow> Inr None)"

section \<open>Threads\<close>

datatype async_overflow_policy = policy_block | policy_overrun_oldest

text \<open>
  A thread of the program: outside the pool; before the mutex of \<^verbatim>\<open>enqueue\<close> or \<^verbatim>\<open>enqueue_nowait\<close>;
  waiting for room; woken; after the mutex, before the notification.
\<close>

datatype client =
    C_idle
  | C_post async_overflow_policy async_msg
  | C_wait async_msg
  | C_woken async_msg
  | C_notify

text \<open>
  A worker: before the mutex of \<^verbatim>\<open>dequeue_for\<close>; waiting for a message; woken; timed out; with a message, before the notification;
  before the processing of the message; at the end of its loop.
\<close>

datatype worker =
    W_dequeue
  | W_wait
  | W_woken
  | W_timeout
  | W_notify async_msg
  | W_process async_msg
  | W_exit

text \<open>
  The pool with its clients. The destructor runs on a client thread and has a number of messages still to post; after
  the last join it has returned. For the statements: the messages that entered and left the queue, those processed, the
  calls of the back end, and whether every client so far used the policy that blocks.
\<close>

datatype dtor = D_none | D_posting nat nat | D_done

record log_pool =
  tp_q :: "async_msg circular_q"
  tp_threads :: "worker list"
  tp_clients :: "client list"
  tp_dtor :: dtor
  tp_pushed :: "async_msg list"
  tp_popped :: "async_msg list"
  tp_done :: "async_msg list"
  tp_calls :: "backend_call list"
  tp_overrun :: nat

definition thread_pool_new :: "nat \<Rightarrow> nat \<Rightarrow> nat \<Rightarrow> nat \<Rightarrow> log_pool res" where
  "thread_pool_new limit clients q_max_items threads_n =
     res_bind (circular_q_new limit async_msg_default q_max_items) (\<lambda>q.
       if threads_n = 0 \<or> threads_n > 1000 then
         Inl (Spdlog_ex ''spdlog::thread_pool(): invalid threads_n param (valid range is 1-1000)'')
       else Inr
         \<lparr>tp_q = q, tp_threads = replicate threads_n W_dequeue, tp_clients = replicate clients C_idle, tp_dtor = D_none,
          tp_pushed = [], tp_popped = [], tp_done = [], tp_calls = [], tp_overrun = 0\<rparr>)"

section \<open>Posting\<close>

definition post_async_msg :: "async_msg \<Rightarrow> async_overflow_policy \<Rightarrow> client" where
  "post_async_msg new_msg overflow_policy = C_post overflow_policy new_msg"

definition post_log :: "nat \<Rightarrow> log_msg \<Rightarrow> async_overflow_policy \<Rightarrow> client" where
  "post_log worker_ptr msg overflow_policy =
     post_async_msg (async_msg_of_log (Some worker_ptr) msg_log msg) overflow_policy"

definition post_flush :: "nat \<Rightarrow> async_overflow_policy \<Rightarrow> client" where
  "post_flush worker_ptr overflow_policy =
     post_async_msg (async_msg_of_type (Some worker_ptr) msg_flush) overflow_policy"

text \<open>An asynchronous logger holds a weak pointer to the pool.\<close>

definition async_sink_it :: "bool \<Rightarrow> nat \<Rightarrow> async_overflow_policy \<Rightarrow> log_msg \<Rightarrow> client res" where
  "async_sink_it pool_alive l overflow_policy msg =
     (if pool_alive then Inr (post_log l msg overflow_policy)
      else Inl (Spdlog_ex ''async log: thread pool doesn't exist anymore''))"

definition async_flush :: "bool \<Rightarrow> nat \<Rightarrow> async_overflow_policy \<Rightarrow> client res" where
  "async_flush pool_alive l overflow_policy =
     (if pool_alive then Inr (post_flush l overflow_policy)
      else Inl (Spdlog_ex ''async flush: thread pool doesn't exist anymore''))"

section \<open>Critical sections\<close>

text \<open>The critical section of a client: what it holds the mutex for, its next state, the message if it entered the queue.\<close>

fun client_section :: "client \<Rightarrow> async_msg circular_q \<Rightarrow> (client \<times> async_msg circular_q \<times> async_msg list) res" where
  "client_section (C_post policy_block m) q =
     res_bind (mpmc_enqueue m q) (\<lambda>r.
       Inr (case r of None \<Rightarrow> (C_wait m, q, []) | Some q \<Rightarrow> (C_notify, q, [m])))"
| "client_section (C_woken m) q =
     res_bind (mpmc_enqueue m q) (\<lambda>r.
       Inr (case r of None \<Rightarrow> (C_wait m, q, []) | Some q \<Rightarrow> (C_notify, q, [m])))"
| "client_section (C_post policy_overrun_oldest m) q =
     res_bind (mpmc_enqueue_nowait m q) (\<lambda>q. Inr (C_notify, q, [m]))"
| "client_section c q = Inr (c, q, [])"

text \<open>The critical section of a worker, with the message it took. After a timeout \<^verbatim>\<open>dequeue_for\<close> returns false when there is
  none, and the loop of the worker goes on.\<close>

fun worker_section ::
  "(async_msg \<Rightarrow> async_msg) \<Rightarrow> worker \<Rightarrow> async_msg circular_q \<Rightarrow> (worker \<times> async_msg circular_q \<times> async_msg list) res" where
  "worker_section moved w q =
     res_bind (mpmc_dequeue moved q) (\<lambda>r.
       Inr (case r of
         None \<Rightarrow> (if w = W_timeout then W_dequeue else W_wait, q, [])
       | Some (m, q) \<Rightarrow> (W_notify m, q, [m])))"

section \<open>Steps\<close>

text \<open>Steps the threads take by themselves. \<open>names\<close> are the names of the loggers, \<open>moved\<close> is what moving a message leaves
  behind.\<close>

inductive run_step :: "(nat \<Rightarrow> string) \<Rightarrow> (async_msg \<Rightarrow> async_msg) \<Rightarrow> log_pool \<Rightarrow> log_pool \<Rightarrow> bool"
  for names :: "nat \<Rightarrow> string" and moved :: "async_msg \<Rightarrow> async_msg" where
  client_enters: "i < length (tp_clients s) \<Longrightarrow> c = tp_clients s ! i \<Longrightarrow>
    (\<exists>p m. c = C_post p m) \<or> (\<exists>m. c = C_woken m) \<Longrightarrow> client_section c (tp_q s) = Inr (c', q', ms) \<Longrightarrow>
    run_step names moved s (s\<lparr>tp_clients := (tp_clients s)[i := c'], tp_q := q', tp_pushed := tp_pushed s @ ms,
      tp_overrun := tp_overrun s + (if ms \<noteq> [] \<and> circular_q_full (tp_q s) then 1 else 0)\<rparr>)"
| client_wakes_worker: "i < length (tp_clients s) \<Longrightarrow> tp_clients s ! i = C_notify \<Longrightarrow>
    j < length (tp_threads s) \<Longrightarrow> tp_threads s ! j = W_wait \<Longrightarrow>
    run_step names moved s (s\<lparr>tp_clients := (tp_clients s)[i := C_idle], tp_threads := (tp_threads s)[j := W_woken]\<rparr>)"
| client_wakes_none: "i < length (tp_clients s) \<Longrightarrow> tp_clients s ! i = C_notify \<Longrightarrow> W_wait \<notin> set (tp_threads s) \<Longrightarrow>
    run_step names moved s (s\<lparr>tp_clients := (tp_clients s)[i := C_idle]\<rparr>)"
| worker_enters: "j < length (tp_threads s) \<Longrightarrow> w = tp_threads s ! j \<Longrightarrow> w = W_dequeue \<or> w = W_woken \<or> w = W_timeout \<Longrightarrow>
    worker_section moved w (tp_q s) = Inr (w', q', ms) \<Longrightarrow>
    run_step names moved s (s\<lparr>tp_threads := (tp_threads s)[j := w'], tp_q := q', tp_popped := tp_popped s @ ms\<rparr>)"
| worker_wakes_client: "j < length (tp_threads s) \<Longrightarrow> tp_threads s ! j = W_notify m \<Longrightarrow>
    i < length (tp_clients s) \<Longrightarrow> tp_clients s ! i = C_wait m' \<Longrightarrow>
    run_step names moved s (s\<lparr>tp_threads := (tp_threads s)[j := W_process m], tp_clients := (tp_clients s)[i := C_woken m']\<rparr>)"
| worker_wakes_none: "j < length (tp_threads s) \<Longrightarrow> tp_threads s ! j = W_notify m \<Longrightarrow>
    \<forall>m'. C_wait m' \<notin> set (tp_clients s) \<Longrightarrow>
    run_step names moved s (s\<lparr>tp_threads := (tp_threads s)[j := W_process m]\<rparr>)"
| worker_processes: "j < length (tp_threads s) \<Longrightarrow> tp_threads s ! j = W_process m \<Longrightarrow>
    process_msg names m = Inr (Some call) \<Longrightarrow>
    run_step names moved s (s\<lparr>tp_threads := (tp_threads s)[j := W_dequeue], tp_done := tp_done s @ [m],
      tp_calls := tp_calls s @ [call]\<rparr>)"
| worker_ends: "j < length (tp_threads s) \<Longrightarrow> tp_threads s ! j = W_process m \<Longrightarrow> process_msg names m = Inr None \<Longrightarrow>
    run_step names moved s (s\<lparr>tp_threads := (tp_threads s)[j := W_exit]\<rparr>)"
| dtor_posts: "tp_dtor s = D_posting i (Suc k) \<Longrightarrow> i < length (tp_clients s) \<Longrightarrow> tp_clients s ! i = C_idle \<Longrightarrow>
    run_step names moved s (s\<lparr>tp_clients := (tp_clients s)[i := post_async_msg terminate_msg policy_block],
      tp_dtor := D_posting i k\<rparr>)"
| dtor_joins: "tp_dtor s = D_posting i 0 \<Longrightarrow> i < length (tp_clients s) \<Longrightarrow> tp_clients s ! i = C_idle \<Longrightarrow>
    set (tp_threads s) \<subseteq> {W_exit} \<Longrightarrow>
    run_step names moved s (s\<lparr>tp_dtor := D_done\<rparr>)"

text \<open>Steps from outside: the program logs, flushes or destroys the pool, which it can do only when no thread is inside; and
  waiting ends by itself.\<close>

inductive ext_step :: "log_pool \<Rightarrow> log_pool \<Rightarrow> bool" where
  client_logs: "i < length (tp_clients s) \<Longrightarrow> tp_clients s ! i = C_idle \<Longrightarrow>
    async_sink_it (tp_dtor s = D_none) l p msg = Inr c \<Longrightarrow>
    ext_step s (s\<lparr>tp_clients := (tp_clients s)[i := c]\<rparr>)"
| client_flushes: "i < length (tp_clients s) \<Longrightarrow> tp_clients s ! i = C_idle \<Longrightarrow>
    async_flush (tp_dtor s = D_none) l p = Inr c \<Longrightarrow>
    ext_step s (s\<lparr>tp_clients := (tp_clients s)[i := c]\<rparr>)"
| client_spurious: "i < length (tp_clients s) \<Longrightarrow> tp_clients s ! i = C_wait m \<Longrightarrow>
    ext_step s (s\<lparr>tp_clients := (tp_clients s)[i := C_woken m]\<rparr>)"
| worker_spurious: "j < length (tp_threads s) \<Longrightarrow> tp_threads s ! j = W_wait \<Longrightarrow>
    ext_step s (s\<lparr>tp_threads := (tp_threads s)[j := W_woken]\<rparr>)"
| worker_times_out: "j < length (tp_threads s) \<Longrightarrow> tp_threads s ! j = W_wait \<Longrightarrow>
    ext_step s (s\<lparr>tp_threads := (tp_threads s)[j := W_timeout]\<rparr>)"
| dtor_starts: "tp_dtor s = D_none \<Longrightarrow> set (tp_clients s) \<subseteq> {C_idle} \<Longrightarrow> i < length (tp_clients s) \<Longrightarrow>
    ext_step s (s\<lparr>tp_dtor := D_posting i (length (tp_threads s))\<rparr>)"

definition pool_step :: "(nat \<Rightarrow> string) \<Rightarrow> (async_msg \<Rightarrow> async_msg) \<Rightarrow> log_pool \<Rightarrow> log_pool \<Rightarrow> bool" where
  "pool_step names moved s t \<longleftrightarrow> run_step names moved s t \<or> ext_step s t"

section \<open>Invariants of the queue\<close>

fun client_held :: "client \<Rightarrow> async_msg list" where
  "client_held (C_post p m) = [m]"
| "client_held (C_wait m) = [m]"
| "client_held (C_woken m) = [m]"
| "client_held _ = []"

text \<open>The critical sections on the items of the queue.\<close>

lemma client_section_cases:
  assumes "cq_inv q" "client_section c q = Inr (c', q', ms)" "(\<exists>p m. c = C_post p m) \<or> (\<exists>m. c = C_woken m)"
  obtains (waits) m where "client_held c = [m]" "c' = C_wait m" "q' = q" "ms = []" "circular_q_full q"
      "c \<noteq> C_post policy_overrun_oldest m"
  | (pushes) m where "client_held c = [m]" "c' = C_notify" "ms = [m]" "\<not> circular_q_full q" "cq_inv q'"
      "cq_capacity q' = cq_capacity q" "cq_items q' = cq_items q @ [m]"
      "circular_q_overrun_counter q' = circular_q_overrun_counter q"
  | (overruns) m where "c = C_post policy_overrun_oldest m" "c' = C_notify" "ms = [m]" "circular_q_full q" "cq_inv q'"
      "cq_capacity q' = cq_capacity q" "cq_items q' = tl (cq_items q @ [m])"
      "circular_q_overrun_counter q' = sz_add (circular_q_overrun_counter q) 1"
proof -
  obtain p m where c: "c = C_post p m \<or> c = C_woken m" using assms(3) by blast
  obtain r where r: "circular_q_push_back m q = Inr r" using cq.push_items [OF assms(1), of m] by blast
  show thesis
  proof (cases "circular_q_full q")
    case False
    then have "(c', q', ms) = (C_notify, r, [m])"
      using assms(2) c r by (cases p) (auto simp: mpmc_enqueue_def mpmc_enqueue_nowait_def)
    with pushes [of m] cq.push_room [OF assms(1) False r] c False show thesis by auto
  next
    case True
    show thesis
    proof (cases "c = C_post policy_overrun_oldest m")
      case True
      then have "(c', q', ms) = (C_notify, r, [m])"
        using assms(2) r by (simp add: mpmc_enqueue_nowait_def)
      with overruns [of m] cq.push_overrun [OF assms(1) \<open>circular_q_full q\<close> r] True \<open>circular_q_full q\<close> show thesis by auto
    next
      case False
      then have "(c', q', ms) = (C_wait m, q, [])"
        using assms(2) c \<open>circular_q_full q\<close> by (cases p) (auto simp: mpmc_enqueue_def)
      with waits [of m] c False \<open>circular_q_full q\<close> show thesis by auto
    qed
  qed
qed

lemma worker_section_cases:
  assumes "cq_inv q" "worker_section moved w q = Inr (w', q', ms)"
  obtains (waits) "w' = (if w = W_timeout then W_dequeue else W_wait)" "q' = q" "ms = []" "cq_items q = []"
  | (pops) m where "w' = W_notify m" "ms = [m]" "cq_inv q'" "cq_capacity q' = cq_capacity q" "cq_items q = m # cq_items q'"
      "circular_q_overrun_counter q' = circular_q_overrun_counter q"
proof (cases "circular_q_empty q")
  case True
  then show thesis using assms(2) waits cq.empty_items [OF assms(1)] by (auto simp: mpmc_dequeue_def)
next
  case False
  then obtain r where "circular_q_pop_front moved q = Inr (hd (cq_items q), r)"
    using cq.pop_items [OF assms(1), of moved] cq.empty_items [OF assms(1)] by blast
  with False assms(2) pops [of "hd (cq_items q)"] cq.pop_some [OF assms(1) False, of moved "hd (cq_items q)" r]
  show thesis by (auto simp: mpmc_dequeue_def)
qed

text \<open>The sections never fail.\<close>

lemma client_section_total:
  assumes "cq_inv q"
  shows "\<exists>r. client_section c q = Inr r"
proof -
  have "\<exists>r. circular_q_push_back m q = Inr r" for m using cq.push_items [OF assms, of m] by blast
  then have n: "\<exists>r. mpmc_enqueue_nowait m q = Inr r" and e: "\<exists>r. mpmc_enqueue m q = Inr r" for m
    by (auto simp: mpmc_enqueue_nowait_def mpmc_enqueue_def) (metis res_bind_Inr)
  show ?thesis
  proof (cases c)
    case (C_post p m)
    then show ?thesis using n [of m] e [of m] by (cases p) (auto split: option.split)
  next
    case (C_woken m)
    then show ?thesis using e [of m] by (auto split: option.split)
  qed auto
qed

lemma worker_section_total: "cq_inv q \<Longrightarrow> \<exists>r. worker_section moved w q = Inr r"
  using cq.pop_items [of q moved] cq.empty_items [of q] by (auto simp: mpmc_dequeue_def)

text \<open>What has passed through the queue.\<close>

definition queue_inv :: "nat \<Rightarrow> log_pool \<Rightarrow> bool" where
  "queue_inv cap s \<longleftrightarrow> cq_inv (tp_q s) \<and> cq_capacity (tp_q s) = cap \<and>
     subseq (tp_popped s @ cq_items (tp_q s)) (tp_pushed s) \<and>
     length (tp_pushed s) = length (tp_popped s) + length (cq_items (tp_q s)) + tp_overrun s \<and>
     circular_q_overrun_counter (tp_q s) = tp_overrun s mod 2 ^ 64"

lemma subseq_drop_oldest:
  assumes "subseq (xs @ ys) zs"
  shows "subseq (xs @ tl (ys @ [m])) (zs @ [m])"
proof (cases ys)
  case Nil
  with assms show ?thesis using list_emb_append_mono [of "(=)" "xs" zs "[]" "[m]"] by simp
next
  case (Cons y ys')
  have "subseq (xs @ ys') (xs @ y # ys')"
    by (intro list_emb_append_mono) (auto intro: subseq_order.order_refl)
  then have "subseq (xs @ ys') zs" using assms subseq_order.order_trans unfolding Cons by blast
  then show ?thesis using list_emb_append_mono [of "(=)" "xs @ ys'" zs "[m]" "[m]"] Cons by simp
qed

lemma subseq_snoc: "subseq xs zs \<Longrightarrow> subseq (xs @ [m]) (zs @ [m])"
  by (rule list_emb_append_mono) auto

lemma queue_inv_run:
  assumes "run_step names moved s t" "queue_inv cap s"
  shows "queue_inv cap t"
  using assms
proof (induction rule: run_step.induct)
  case (client_enters i s c c' q' ms)
  have q: "cq_inv (tp_q s)" using client_enters.prems by (simp add: queue_inv_def)
  from q client_enters(4,3) show ?case
  proof (cases rule: client_section_cases)
    case (pushes m)
    then show ?thesis using client_enters.prems subseq_snoc [of "tp_popped s @ cq_items (tp_q s)" "tp_pushed s" m]
      by (simp add: queue_inv_def flip: length_cq_items)
  next
    case (overruns m)
    then show ?thesis
      using client_enters.prems subseq_drop_oldest [of "tp_popped s" "cq_items (tp_q s)" "tp_pushed s" m]
      by (simp add: queue_inv_def sz_add_def mod_Suc_eq flip: length_cq_items)
  qed (use client_enters.prems in \<open>simp add: queue_inv_def\<close>)
next
  case (worker_enters j s w w' q' ms)
  have q: "cq_inv (tp_q s)" using worker_enters.prems by (simp add: queue_inv_def)
  from q worker_enters(4) show ?case
  proof (cases rule: worker_section_cases)
    case (pops m)
    then have "cq_size (tp_q s) = Suc (cq_size q')" by (metis length_Cons length_cq_items)
    then show ?thesis using worker_enters.prems pops by (simp add: queue_inv_def)
  qed (use worker_enters.prems in \<open>simp add: queue_inv_def\<close>)
qed (simp_all add: queue_inv_def)

lemma queue_inv_ext: "ext_step s t \<Longrightarrow> queue_inv cap s \<Longrightarrow> queue_inv cap t"
  by (induction rule: ext_step.induct) (simp_all add: queue_inv_def)

section \<open>Invariants of the messages\<close>

text \<open>What a worker has taken from the queue and not processed; one that has ended has taken its last message.\<close>

fun worker_held :: "worker \<Rightarrow> async_msg list" where
  "worker_held (W_notify m) = [m]"
| "worker_held (W_process m) = [m]"
| "worker_held W_exit = [terminate_msg]"
| "worker_held _ = []"

definition held :: "worker list \<Rightarrow> async_msg list" where
  "held ws = concat (map worker_held ws)"

lemma mset_held_update:
  assumes "j < length ws"
  shows "mset (held (ws[j := w])) + mset (worker_held (ws ! j)) = mset (held ws) + mset (worker_held w)"
proof -
  have "ws = take j ws @ ws ! j # drop (Suc j) ws" using assms by (rule id_take_nth_drop)
  then have "mset (held ws) = mset (held (take j ws)) + mset (worker_held (ws ! j)) + mset (held (drop (Suc j) ws))"
    by (metis (no_types, lifting) held_def concat_append list.simps(9) concat.simps(2) map_append mset_append add.assoc)
  moreover have "mset (held (ws[j := w])) = mset (held (take j ws)) + mset (worker_held w) + mset (held (drop (Suc j) ws))"
    using assms by (simp add: upd_conv_take_nth_drop held_def)
  ultimately show ?thesis by simp
qed

text \<open>A message that ends a worker, or one with a logger.\<close>

definition msg_fine :: "async_msg \<Rightarrow> bool" where
  "msg_fine m \<longleftrightarrow> m = terminate_msg \<or> am_type m \<noteq> msg_terminate \<and> am_worker m \<noteq> None"

lemma process_fine:
  assumes "msg_fine m"
  shows "process_msg names m = Inr None \<longleftrightarrow> m = terminate_msg"
    and "m \<noteq> terminate_msg \<Longrightarrow> \<exists>call. process_msg names m = Inr (Some call)"
  using assms
  by (cases "am_type m"; auto simp: msg_fine_def process_msg_def to_log_msg_def terminate_msg_def async_msg_of_type_def)+

lemma post_fine: "msg_fine terminate_msg" "msg_fine (async_msg_of_log (Some l) msg_log msg)"
  "msg_fine (async_msg_of_type (Some l) msg_flush)" "terminate_msg \<noteq> async_msg_of_log (Some l) msg_log msg"
  "terminate_msg \<noteq> async_msg_of_type (Some l) msg_flush"
  by (simp_all add: msg_fine_def async_msg_of_log_def async_msg_of_type_def terminate_msg_def)

definition msgs_inv :: "(nat \<Rightarrow> string) \<Rightarrow> log_pool \<Rightarrow> bool" where
  "msgs_inv names s \<longleftrightarrow>
     (\<forall>c \<in> set (tp_clients s). \<forall>m \<in> set (client_held c). msg_fine m) \<and>
     (\<forall>m \<in> set (tp_pushed s). msg_fine m) \<and>
     mset (tp_popped s) = mset (tp_done s) + mset (held (tp_threads s)) \<and>
     (length (tp_threads s) = 1 \<longrightarrow> tp_popped s = tp_done s @ held (tp_threads s)) \<and>
     terminate_msg \<notin> set (tp_done s) \<and>
     map (process_msg names) (tp_done s) = map (\<lambda>c. Inr (Some c)) (tp_calls s)"

text \<open>A step of a worker, on the messages that are held.\<close>

lemma held_keep:
  assumes "j < length ws" "worker_held w = worker_held (ws ! j)"
  shows "held (ws[j := w]) = held ws"
  using assms by (metis (no_types, lifting) held_def list_update_id map_update)

lemma held_take:
  assumes "j < length ws" "worker_held (ws ! j) = []" "worker_held w = [m]"
  shows "mset (held (ws[j := w])) = add_mset m (mset (held ws))" "length ws = 1 \<Longrightarrow> held (ws[j := w]) = [m] \<and> held ws = []"
  using mset_held_update [OF assms(1), of w] assms by (auto simp: held_def length_Suc_conv)

lemma held_drop:
  assumes "j < length ws" "worker_held (ws ! j) = [m]" "worker_held w = []"
  shows "mset (held ws) = add_mset m (mset (held (ws[j := w])))" "length ws = 1 \<Longrightarrow> held (ws[j := w]) = [] \<and> held ws = [m]"
  using mset_held_update [OF assms(1), of w] assms by (auto simp: held_def length_Suc_conv)

lemma msgs_inv_pushed:
  assumes "msgs_inv names s" "queue_inv cap s" "m \<in> set (tp_popped s @ cq_items (tp_q s))"
  shows "msg_fine m"
proof -
  have "subseq (tp_popped s @ cq_items (tp_q s)) (tp_pushed s)" using assms(2) by (simp add: queue_inv_def)
  then obtain y where "y \<in> set (tp_pushed s)" "m = y" using assms(3) by (rule list_emb_set)
  with assms(1) show ?thesis by (simp add: msgs_inv_def)
qed

lemma msgs_inv_held:
  assumes "msgs_inv names s" "queue_inv cap s" "j < length (tp_threads s)" "m \<in> set (worker_held (tp_threads s ! j))"
  shows "msg_fine m"
proof -
  have "m \<in> set (held (tp_threads s))" using assms(3,4) by (auto simp: held_def)
  then have "m \<in># mset (tp_popped s)" using assms(1) by (simp add: msgs_inv_def)
  then show ?thesis using msgs_inv_pushed [OF assms(1,2), of m] by simp
qed

lemma clients_update:
  "\<forall>c \<in> set cs. \<forall>m \<in> set (client_held c). P m \<Longrightarrow> \<forall>m \<in> set (client_held c'). P m \<Longrightarrow>
   \<forall>c \<in> set (cs[i := c']). \<forall>m \<in> set (client_held c). P m"
  using set_update_subset_insert [of cs i c'] by auto

lemma msgs_inv_run:
  assumes "run_step names moved s t" "msgs_inv names s" "queue_inv cap s"
  shows "msgs_inv names t"
  using assms
proof (induction rule: run_step.induct)
  case (client_enters i s c c' q' ms)
  have q: "cq_inv (tp_q s)" using client_enters.prems by (simp add: queue_inv_def)
  have held: "\<forall>m \<in> set (client_held c). msg_fine m"
    using client_enters(1,2) client_enters.prems(1) by (auto simp: msgs_inv_def)
  from q client_enters(4,3) have "set (client_held c') \<subseteq> set (client_held c)" "set ms \<subseteq> set (client_held c)"
    by (cases rule: client_section_cases; simp)+
  then have "\<forall>m \<in> set (client_held c'). msg_fine m" "\<forall>m \<in> set ms. msg_fine m" using held by auto
  then show ?case using client_enters.prems(1) clients_update [of "tp_clients s" msg_fine c' i]
    by (auto simp: msgs_inv_def)
next
  case (client_wakes_worker i s j)
  then show ?case using clients_update [of "tp_clients s" msg_fine C_idle i] held_keep [of j "tp_threads s" W_woken]
    by (simp add: msgs_inv_def)
next
  case (client_wakes_none i s)
  then show ?case using clients_update [of "tp_clients s" msg_fine C_idle i] by (simp add: msgs_inv_def)
next
  case (worker_enters j s w w' q' ms)
  have q: "cq_inv (tp_q s)" using worker_enters.prems by (simp add: queue_inv_def)
  have w: "worker_held (tp_threads s ! j) = []" using worker_enters(2,3) by auto
  from q worker_enters(4) show ?case
  proof (cases rule: worker_section_cases)
    case waits
    then have "held ((tp_threads s)[j := w']) = held (tp_threads s)"
      using held_keep [of j "tp_threads s" w'] worker_enters(1) w by simp
    then show ?thesis using worker_enters.prems waits by (simp add: msgs_inv_def)
  next
    case (pops m)
    then show ?thesis
      using worker_enters.prems held_take [OF worker_enters(1) w, of w' m] by (auto simp: msgs_inv_def)
  qed
next
  case (worker_wakes_client j s m i m')
  have "\<forall>x \<in> set (client_held (C_woken m')). msg_fine x"
    using worker_wakes_client nth_mem [of i "tp_clients s"] by (fastforce simp: msgs_inv_def)
  then show ?case
    using worker_wakes_client clients_update [of "tp_clients s" msg_fine "C_woken m'" i]
      held_keep [of j "tp_threads s" "W_process m"] by (simp add: msgs_inv_def)
next
  case (worker_wakes_none j s m)
  then show ?case using held_keep [of j "tp_threads s" "W_process m"] by (simp add: msgs_inv_def)
next
  case (worker_processes j s m call)
  have "msg_fine m" using msgs_inv_held [OF worker_processes.prems, of j m] worker_processes by simp
  then have "m \<noteq> terminate_msg" using process_fine(1) [of m names] worker_processes(3) by auto
  then show ?case
    using worker_processes held_drop [of j "tp_threads s" m W_dequeue] by (auto simp: msgs_inv_def)
next
  case (worker_ends j s m)
  have "msg_fine m" using msgs_inv_held [OF worker_ends.prems, of j m] worker_ends by simp
  then have "m = terminate_msg" using process_fine(1) [of m names] worker_ends(3) by auto
  then show ?case using worker_ends held_keep [of j "tp_threads s" W_exit] by (simp add: msgs_inv_def)
next
  case (dtor_posts s i k)
  then show ?case using clients_update [of "tp_clients s" msg_fine "C_post policy_block terminate_msg" i]
    by (simp add: msgs_inv_def post_async_msg_def post_fine)
qed (simp add: msgs_inv_def)

lemmas posting_defs = async_sink_it_def async_flush_def post_log_def post_flush_def post_async_msg_def

lemma msgs_inv_ext: "ext_step s t \<Longrightarrow> msgs_inv names s \<Longrightarrow> msgs_inv names t"
proof (induction rule: ext_step.induct)
  case (client_logs i s l p msg c)
  then have "c = C_post p (async_msg_of_log (Some l) msg_log msg)" by (auto simp: posting_defs split: if_splits)
  then show ?case using client_logs clients_update [of "tp_clients s" msg_fine c i] by (simp add: msgs_inv_def post_fine)
next
  case (client_flushes i s l p c)
  then have "c = C_post p (async_msg_of_type (Some l) msg_flush)" by (auto simp: posting_defs split: if_splits)
  then show ?case using client_flushes clients_update [of "tp_clients s" msg_fine c i] by (simp add: msgs_inv_def post_fine)
next
  case (client_spurious i s m)
  have "\<forall>x \<in> set (client_held (C_woken m)). msg_fine x"
    using client_spurious nth_mem [of i "tp_clients s"] by (fastforce simp: msgs_inv_def)
  then show ?case using client_spurious clients_update [of "tp_clients s" msg_fine "C_woken m" i] by (simp add: msgs_inv_def)
next
  case (worker_spurious j s)
  then show ?case using held_keep [of j "tp_threads s" W_woken] by (simp add: msgs_inv_def)
next
  case (worker_times_out j s)
  then show ?case using held_keep [of j "tp_threads s" W_timeout] by (simp add: msgs_inv_def)
qed (simp add: msgs_inv_def)

section \<open>Invariant of the destructor\<close>

definition dtor_client :: "client \<Rightarrow> bool" where
  "dtor_client c \<longleftrightarrow> c \<in> {C_idle, C_notify, C_post policy_block terminate_msg, C_wait terminate_msg, C_woken terminate_msg}"

text \<open>The messages that end workers come last, one for each worker when the destructor is through.\<close>

definition term_inv :: "log_pool \<Rightarrow> bool" where
  "term_inv s \<longleftrightarrow> tp_threads s \<noteq> [] \<and>
     (case tp_dtor s of
        D_none \<Rightarrow> terminate_msg \<notin> set (tp_popped s @ cq_items (tp_q s)) \<and>
          (\<forall>c \<in> set (tp_clients s). \<forall>m \<in> set (client_held c). m \<noteq> terminate_msg)
      | D_posting i k \<Rightarrow> i < length (tp_clients s) \<and> dtor_client (tp_clients s ! i) \<and>
          (\<forall>j < length (tp_clients s). j \<noteq> i \<longrightarrow> tp_clients s ! j = C_idle) \<and>
          (\<exists>ms t. tp_popped s @ cq_items (tp_q s) = ms @ replicate t terminate_msg \<and> terminate_msg \<notin> set ms \<and>
             t + length (client_held (tp_clients s ! i)) + k = length (tp_threads s))
      | D_done \<Rightarrow> cq_items (tp_q s) = [] \<and> set (tp_threads s) \<subseteq> {W_exit} \<and> set (tp_clients s) \<subseteq> {C_idle})"

lemma all_popped:
  assumes "xs @ ys = ms @ replicate t z" "z \<notin> set ms" "t \<le> n" "0 < n" "n \<le> count (mset xs) z"
  shows "ys = []"
proof (rule ccontr)
  assume "ys \<noteq> []"
  have "count (mset (xs @ ys)) z = t" using assms(1,2) by (simp add: count_mset_0_iff)
  then have "count (mset xs) z + count (mset ys) z = t" by simp
  then have "count (mset ys) z = 0" "t \<noteq> 0" using assms(3-5) by linarith+
  moreover have "last ys = z" using assms(1) \<open>ys \<noteq> []\<close> \<open>t \<noteq> 0\<close> by (metis last_appendR last_replicate replicate_empty)
  ultimately show False using \<open>ys \<noteq> []\<close> by (metis count_mset_0_iff last_in_set)
qed

lemma held_exit: "set ws \<subseteq> {W_exit} \<Longrightarrow> held ws = replicate (length ws) terminate_msg"
  by (induction ws) (auto simp: held_def)

lemma posting_quiet:
  assumes "term_inv s" "tp_dtor s = D_posting i k" "msgs_inv names s" "set (tp_threads s) \<subseteq> {W_exit}"
  shows "cq_items (tp_q s) = []"
proof -
  obtain ms t where t: "tp_popped s @ cq_items (tp_q s) = ms @ replicate t terminate_msg" "terminate_msg \<notin> set ms"
    "t \<le> length (tp_threads s)"
    using assms(1,2) by (auto simp: term_inv_def)
  have "mset (tp_popped s) = mset (tp_done s) + mset (held (tp_threads s))" using assms(3) by (simp add: msgs_inv_def)
  then have "length (tp_threads s) \<le> count (mset (tp_popped s)) terminate_msg" by (simp add: held_exit [OF assms(4)])
  moreover have "0 < length (tp_threads s)" using assms(1) by (simp add: term_inv_def)
  ultimately show ?thesis using all_popped [OF t] by simp
qed

text \<open>Steps that leave the clients and the contents of the queue as they are.\<close>

lemma term_inv_worker:
  assumes "term_inv s" "tp_dtor t = tp_dtor s" "tp_clients t = tp_clients s"
    "tp_popped t @ cq_items (tp_q t) = tp_popped s @ cq_items (tp_q s)"
    "length (tp_threads t) = length (tp_threads s)" "\<not> set (tp_threads s) \<subseteq> {W_exit}"
  shows "term_inv t"
  using assms by (auto simp: term_inv_def split: dtor.splits)

text \<open>A client step, on the destructor thread or before the destructor.\<close>

lemma term_inv_client:
  assumes "term_inv s" "i < length (tp_clients s)" "tp_clients s ! i \<noteq> C_idle" "tp_dtor t = tp_dtor s"
    and "tp_clients t = (tp_clients s)[i := c']" "length (tp_threads t) = length (tp_threads s)" "tp_popped t = tp_popped s"
    and "cq_items (tp_q t) = cq_items (tp_q s) @ ms \<or>
      cq_items (tp_q t) = tl (cq_items (tp_q s) @ ms) \<and> (\<exists>m. tp_clients s ! i = C_post policy_overrun_oldest m)"
    and "mset (client_held (tp_clients s ! i)) = mset (client_held c') + mset ms"
    and "dtor_client (tp_clients s ! i) \<Longrightarrow> dtor_client c'"
  shows "term_inv t"
proof (cases "tp_dtor s")
  case D_none
  have held: "set (client_held (tp_clients s ! i)) = set (client_held c') \<union> set ms"
    using assms(9) by (metis set_mset_mset set_mset_union)
  have no: "\<forall>m \<in> set (client_held (tp_clients s ! i)). m \<noteq> terminate_msg"
    using assms(1,2) D_none nth_mem [of i "tp_clients s"] unfolding term_inv_def by auto
  have "set (tl zs) \<subseteq> set zs" for zs :: "async_msg list" by (cases zs) auto
  then have "set (cq_items (tp_q t)) \<subseteq> set (cq_items (tp_q s)) \<union> set ms"
    using assms(8) by (metis order_refl set_append)
  then show ?thesis
    using assms(1,4-7) D_none no held clients_update [of "tp_clients s" "\<lambda>m. m \<noteq> terminate_msg" c' i]
    by (auto simp: term_inv_def)
next
  case (D_posting d k)
  then have d: "i = d" "dtor_client (tp_clients s ! i)" using assms(1-3) by (auto simp: term_inv_def)
  then have no: "\<not> (\<exists>m. tp_clients s ! i = C_post policy_overrun_oldest m)" by (auto simp: dtor_client_def)
  have "ms = [] \<or> ms = [terminate_msg]"
    using d(2) assms(9) by (auto simp: dtor_client_def add_eq_conv_ex single_is_union)
  moreover have "length (client_held (tp_clients s ! i)) = length (client_held c') + length ms"
    using assms(9) by (metis size_mset size_union)
  moreover obtain ns n where n: "tp_popped s @ cq_items (tp_q s) = ns @ replicate n terminate_msg" "terminate_msg \<notin> set ns"
    "n + length (client_held (tp_clients s ! i)) + k = length (tp_threads s)"
    using assms(1) D_posting d(1) by (auto simp: term_inv_def)
  ultimately have "ms = replicate (length ms) terminate_msg"
    "(n + length ms) + length (client_held c') + k = length (tp_threads s)"
    by auto
  moreover have "tp_popped t @ cq_items (tp_q t) = ns @ replicate n terminate_msg @ ms"
    using assms(7,8) no n(1) by simp
  ultimately have "tp_popped t @ cq_items (tp_q t) = ns @ replicate (n + length ms) terminate_msg"
    by (simp add: replicate_add)
  moreover have "\<forall>j < length (tp_clients s). j \<noteq> d \<longrightarrow> tp_clients s ! j = C_idle" "tp_threads s \<noteq> []"
    using assms(1) D_posting by (auto simp: term_inv_def)
  moreover have "tp_threads t \<noteq> []" using \<open>tp_threads s \<noteq> []\<close> assms(6) by auto
  ultimately show ?thesis
    using assms(2,4-6,10) D_posting d n(2) \<open>(n + length ms) + length (client_held c') + k = length (tp_threads s)\<close>
    by (auto simp: term_inv_def intro!: exI [of _ ns] exI [of _ "n + length ms"])
next
  case D_done
  then have "set (tp_clients s) \<subseteq> {C_idle}" using assms(1) by (simp add: term_inv_def)
  then have "tp_clients s ! i = C_idle" using assms(2) nth_mem by blast
  with assms(3) show ?thesis by simp
qed

lemma not_all_exit: "j < length ws \<Longrightarrow> ws ! j \<noteq> W_exit \<Longrightarrow> \<not> set ws \<subseteq> {W_exit}"
  using nth_mem by blast

lemma term_inv_run:
  assumes "run_step names moved s t" "term_inv s" "queue_inv cap s" "msgs_inv names s"
  shows "term_inv t"
  using assms
proof (induction rule: run_step.induct)
  case (client_enters i s c c' q' ms)
  have q: "cq_inv (tp_q s)" using client_enters.prems by (simp add: queue_inv_def)
  from client_enters(2,3) have ni: "tp_clients s ! i \<noteq> C_idle" by auto
  from q client_enters(4,3) show ?case
  proof (cases rule: client_section_cases)
    case (waits m)
    then show ?thesis
      using client_enters(2,3)
      by (intro term_inv_client [OF client_enters.prems(1) client_enters(1) ni, of _ c' ms]) (auto simp: dtor_client_def)
  next
    case (pushes m)
    then show ?thesis
      using client_enters(2,3)
      by (intro term_inv_client [OF client_enters.prems(1) client_enters(1) ni, of _ c' ms]) (auto simp: dtor_client_def)
  next
    case (overruns m)
    then show ?thesis
      using client_enters(2,3)
      by (intro term_inv_client [OF client_enters.prems(1) client_enters(1) ni, of _ c' ms]) (auto simp: dtor_client_def)
  qed
next
  case (client_wakes_worker i s j)
  show ?case
    by (rule term_inv_client [of s i _ C_idle "[]"]) (use client_wakes_worker in \<open>simp_all add: dtor_client_def\<close>)
next
  case (client_wakes_none i s)
  show ?case
    by (rule term_inv_client [of s i _ C_idle "[]"]) (use client_wakes_none in \<open>simp_all add: dtor_client_def\<close>)
next
  case (worker_enters j s w w' q' ms)
  have q: "cq_inv (tp_q s)" using worker_enters.prems by (simp add: queue_inv_def)
  from worker_enters have ne: "\<not> set (tp_threads s) \<subseteq> {W_exit}" by (intro not_all_exit [of j]) auto
  from q worker_enters(4) show ?case
    by (cases rule: worker_section_cases) (rule term_inv_worker [of s], use worker_enters.prems ne in simp_all)+
next
  case (worker_wakes_client j s m i m')
  show ?case
    by (rule term_inv_client [of s i _ "C_woken m'" "[]"]) (use worker_wakes_client in \<open>simp_all add: dtor_client_def\<close>)
next
  case (worker_wakes_none j s m)
  then have ne: "\<not> set (tp_threads s) \<subseteq> {W_exit}" by (intro not_all_exit [of j]) auto
  show ?case by (rule term_inv_worker [of s]) (use worker_wakes_none ne in simp_all)
next
  case (worker_processes j s m call)
  then have ne: "\<not> set (tp_threads s) \<subseteq> {W_exit}" by (intro not_all_exit [of j]) auto
  show ?case by (rule term_inv_worker [of s]) (use worker_processes ne in simp_all)
next
  case (worker_ends j s m)
  then have ne: "\<not> set (tp_threads s) \<subseteq> {W_exit}" by (intro not_all_exit [of j]) auto
  show ?case by (rule term_inv_worker [of s]) (use worker_ends ne in simp_all)
next
  case (dtor_posts s i k)
  then show ?case by (auto simp: term_inv_def dtor_client_def post_async_msg_def)
next
  case (dtor_joins s i)
  then have "cq_items (tp_q s) = []" by (intro posting_quiet) auto
  moreover have "set (tp_clients s) \<subseteq> {C_idle}"
    using dtor_joins by (auto simp: term_inv_def in_set_conv_nth)
  ultimately show ?case using dtor_joins by (simp add: term_inv_def)
qed

lemma term_inv_ext: "ext_step s t \<Longrightarrow> term_inv s \<Longrightarrow> term_inv t"
proof (induction rule: ext_step.induct)
  case (client_logs i s l p msg c)
  then have "tp_dtor s = D_none" "c = C_post p (async_msg_of_log (Some l) msg_log msg)"
    by (auto simp: posting_defs split: if_splits)
  then show ?case
    using client_logs clients_update [of "tp_clients s" "\<lambda>m. m \<noteq> terminate_msg" c i] post_fine(4) [of l msg]
    by (auto simp: term_inv_def)
next
  case (client_flushes i s l p c)
  then have "tp_dtor s = D_none" "c = C_post p (async_msg_of_type (Some l) msg_flush)"
    by (auto simp: posting_defs split: if_splits)
  then show ?case
    using client_flushes clients_update [of "tp_clients s" "\<lambda>m. m \<noteq> terminate_msg" c i] post_fine(5) [of l]
    by (auto simp: term_inv_def)
next
  case (client_spurious i s m)
  show ?case
    by (rule term_inv_client [of s i _ "C_woken m" "[]"]) (use client_spurious in \<open>simp_all add: dtor_client_def\<close>)
next
  case (worker_spurious j s)
  then have ne: "\<not> set (tp_threads s) \<subseteq> {W_exit}" by (intro not_all_exit [of j]) auto
  show ?case by (rule term_inv_worker [of s]) (use worker_spurious ne in simp_all)
next
  case (worker_times_out j s)
  then have ne: "\<not> set (tp_threads s) \<subseteq> {W_exit}" by (intro not_all_exit [of j]) auto
  show ?case by (rule term_inv_worker [of s]) (use worker_times_out ne in simp_all)
next
  case (dtor_starts s i)
  then have "tp_clients s ! j = C_idle" if "j < length (tp_clients s)" for j using that nth_mem by blast
  with dtor_starts show ?case
    by (auto simp: term_inv_def dtor_client_def intro!: exI [of _ "tp_popped s @ cq_items (tp_q s)"] exI [of _ 0])
qed

section \<open>Invariant of the wake-ups\<close>

fun waiting_c :: "client \<Rightarrow> bool" where
  "waiting_c (C_wait m) = True" | "waiting_c _ = False"

fun woken_c :: "client \<Rightarrow> bool" where
  "woken_c (C_woken m) = True" | "woken_c _ = False"

fun notify_w :: "worker \<Rightarrow> bool" where
  "notify_w (W_notify m) = True" | "notify_w _ = False"

text \<open>
  While a worker waits, every item of the queue has a notification under way or a woken worker; while a client waits, so
  has every free slot. The two halves are about the numbers of these threads.
\<close>

definition wake_ok :: "int \<Rightarrow> int \<Rightarrow> client list \<Rightarrow> worker list \<Rightarrow> bool" where
  "wake_ok cap n cs ws \<longleftrightarrow>
     (0 < cnt (\<lambda>w. w = W_wait) ws \<longrightarrow> n \<le> cnt (\<lambda>c. c = C_notify) cs + cnt (\<lambda>w. w = W_woken) ws) \<and>
     (0 < cnt waiting_c cs \<longrightarrow> cap - n \<le> cnt notify_w ws + cnt woken_c cs)"

definition wake_inv :: "nat \<Rightarrow> log_pool \<Rightarrow> bool" where
  "wake_inv cap s \<longleftrightarrow> wake_ok (int cap) (int (length (cq_items (tp_q s)))) (tp_clients s) (tp_threads s)"

lemma wake_inv_run:
  assumes "run_step names moved s t" "wake_inv cap s" "queue_inv cap s"
  shows "wake_inv cap t"
  using assms
proof (induction rule: run_step.induct)
  case (client_enters i s c c' q' ms)
  have q: "cq_inv (tp_q s)" "cq_capacity (tp_q s) = cap" using client_enters.prems by (auto simp: queue_inv_def)
  have full: "circular_q_full (tp_q s) \<longleftrightarrow> cq_size (tp_q s) = cap"
    using cq.full_items [OF q(1)] q(2) by simp
  note upd = cnt_update [OF client_enters(1)]
  from q(1) client_enters(4,3) show ?case
  proof (cases rule: client_section_cases)
    case (waits m)
    then show ?thesis
      using client_enters(2,3) client_enters.prems(1) full cnt_nth [OF client_enters(1), of woken_c]
        cnt_nonneg [of notify_w "tp_threads s"] cnt_nonneg [of woken_c "tp_clients s"]
      by (auto simp: wake_inv_def wake_ok_def upd)
  next
    case (pushes m)
    then have "cq_size q' = Suc (cq_size (tp_q s))" by (metis length_append_singleton length_cq_items)
    then show ?thesis using client_enters(2,3) client_enters.prems(1) pushes
      by (auto simp: wake_inv_def wake_ok_def upd)
  next
    case (overruns m)
    then have "cq_size q' = cq_size (tp_q s)" by (metis diff_Suc_1 length_append_singleton length_cq_items length_tl)
    then show ?thesis using client_enters(2,3) client_enters.prems(1) overruns
      by (auto simp: wake_inv_def wake_ok_def upd)
  qed
next
  case (worker_enters j s w w' q' ms)
  have q: "cq_inv (tp_q s)" using worker_enters.prems by (simp add: queue_inv_def)
  note upd = cnt_update [OF worker_enters(1)]
  from q worker_enters(4) show ?case
  proof (cases rule: worker_section_cases)
    case waits
    then have "cq_size (tp_q s) = 0" by (metis length_cq_items list.size(3))
    then show ?thesis
      using worker_enters(2,3) worker_enters.prems(1) waits cnt_nth [OF worker_enters(1), of "\<lambda>w. w = W_woken"]
        cnt_nonneg [of "\<lambda>c. c = C_notify" "tp_clients s"] cnt_nonneg [of "\<lambda>w. w = W_woken" "tp_threads s"]
      by (auto simp: wake_inv_def wake_ok_def upd)
  next
    case (pops m)
    then have "cq_size (tp_q s) = Suc (cq_size q')" by (metis length_Cons length_cq_items)
    then show ?thesis using worker_enters(2,3) worker_enters.prems(1) pops
      by (auto simp: wake_inv_def wake_ok_def upd)
  qed
next
  case (client_wakes_worker i s j)
  then show ?case by (auto simp: wake_inv_def wake_ok_def cnt_update)
next
  case (client_wakes_none i s)
  moreover from this have "\<not> 0 < cnt (\<lambda>w. w = W_wait) (tp_threads s)" by (auto simp: cnt_pos)
  ultimately show ?case by (auto simp: wake_inv_def wake_ok_def cnt_update)
next
  case (worker_wakes_client j s m i m')
  then show ?case by (auto simp: wake_inv_def wake_ok_def cnt_update)
next
  case (worker_wakes_none j s m)
  moreover from this have "\<not> 0 < cnt waiting_c (tp_clients s)"
    unfolding cnt_pos by (metis waiting_c.elims(2))
  ultimately show ?case by (auto simp: wake_inv_def wake_ok_def cnt_update)
qed (auto simp: wake_inv_def wake_ok_def cnt_update post_async_msg_def)

lemma wake_inv_ext:
  assumes "ext_step s t" "wake_inv cap s"
  shows "wake_inv cap t"
  using assms
proof (induction rule: ext_step.induct)
  case (client_logs i s l p msg c)
  then have "c = C_post p (async_msg_of_log (Some l) msg_log msg)" by (auto simp: posting_defs split: if_splits)
  with client_logs show ?case by (auto simp: wake_inv_def wake_ok_def cnt_update)
next
  case (client_flushes i s l p c)
  then have "c = C_post p (async_msg_of_type (Some l) msg_flush)" by (auto simp: posting_defs split: if_splits)
  with client_flushes show ?case by (auto simp: wake_inv_def wake_ok_def cnt_update)
qed (auto simp: wake_inv_def wake_ok_def cnt_update)

section \<open>Reachable states\<close>

definition pool_inv :: "(nat \<Rightarrow> string) \<Rightarrow> nat \<Rightarrow> log_pool \<Rightarrow> bool" where
  "pool_inv names cap s \<longleftrightarrow> queue_inv cap s \<and> msgs_inv names s \<and> term_inv s \<and> wake_inv cap s"

definition pool_init :: "nat \<Rightarrow> nat \<Rightarrow> nat \<Rightarrow> nat \<Rightarrow> log_pool \<Rightarrow> bool" where
  "pool_init limit clients q_max_items threads_n s \<longleftrightarrow>
     q_max_items < limit \<and> limit < 2 ^ 64 \<and> thread_pool_new limit clients q_max_items threads_n = Inr s"

lemma pool_inv_init:
  assumes "pool_init limit clients cap n s"
  shows "pool_inv names cap s"
proof -
  obtain q where q: "circular_q_new limit async_msg_default cap = Inr q" "cq_inv q" "cq_items q = []" "cq_capacity q = cap"
    "circular_q_overrun_counter q = 0"
    using circular_q_new_ok [of cap limit async_msg_default] assms by (auto simp: pool_init_def)
  have s: "n \<noteq> 0" "s = \<lparr>tp_q = q, tp_threads = replicate n W_dequeue, tp_clients = replicate clients C_idle,
      tp_dtor = D_none, tp_pushed = [], tp_popped = [], tp_done = [], tp_calls = [], tp_overrun = 0\<rparr>"
    using assms q(1) by (auto simp: pool_init_def thread_pool_new_def split: if_splits)
  have z: "cq_size q = 0" using q(3) by (metis length_cq_items list.size(3))
  have "held (replicate n W_dequeue) = []" "held [W_dequeue] = []" by (simp_all add: held_def)
  moreover have "cnt (\<lambda>w. w = W_wait) (replicate n W_dequeue) = 0" "cnt waiting_c (replicate clients C_idle) = 0"
    by (simp_all add: cnt_def)
  ultimately show ?thesis
    using s(1) q z
    by (simp add: pool_inv_def queue_inv_def msgs_inv_def term_inv_def wake_inv_def wake_ok_def s(2))
qed

interpretation tp: invariant_system "pool_init limit clients cap n" "pool_step names moved" "pool_inv names cap"
proof unfold_locales
  fix s t
  show "pool_init limit clients cap n s \<Longrightarrow> pool_inv names cap s" by (rule pool_inv_init)
  show "pool_inv names cap s \<Longrightarrow> pool_step names moved s t \<Longrightarrow> pool_inv names cap t"
    unfolding pool_inv_def pool_step_def
    using queue_inv_run msgs_inv_run term_inv_run wake_inv_run queue_inv_ext msgs_inv_ext term_inv_ext wake_inv_ext
    by metis
qed

section \<open>Termination\<close>

text \<open>What the threads still have to do, as a number that every step of theirs makes smaller.\<close>

fun client_work :: "client \<Rightarrow> nat" where
  "client_work C_idle = 0"
| "client_work (C_post p m) = 7"
| "client_work (C_wait m) = 6"
| "client_work (C_woken m) = 7"
| "client_work C_notify = 2"

fun worker_work :: "worker \<Rightarrow> nat" where
  "worker_work W_dequeue = 1"
| "worker_work W_wait = 0"
| "worker_work W_woken = 1"
| "worker_work W_timeout = 2"
| "worker_work (W_notify m) = 4"
| "worker_work (W_process m) = 2"
| "worker_work W_exit = 0"

fun dtor_work :: "dtor \<Rightarrow> nat" where
  "dtor_work (D_posting i k) = 8 * k + 1"
| "dtor_work _ = 0"

definition pool_work :: "log_pool \<Rightarrow> int" where
  "pool_work s = weight client_work (tp_clients s) + weight worker_work (tp_threads s) +
     4 * int (length (cq_items (tp_q s))) + int (dtor_work (tp_dtor s))"

lemma pool_work_nonneg: "0 \<le> pool_work s"
  by (simp add: pool_work_def weight_def)

lemma run_step_work:
  assumes "run_step names moved s t" "cq_inv (tp_q s)"
  shows "pool_work t < pool_work s"
  using assms
proof (induction rule: run_step.induct)
  case (client_enters i s c c' q' ms)
  note upd = weight_update [OF client_enters(1)]
  from client_enters.prems client_enters(4,3) show ?case
  proof (cases rule: client_section_cases)
    case (waits m)
    then show ?thesis using client_enters(2,3) by (auto simp: pool_work_def upd)
  next
    case (pushes m)
    then have "cq_size q' = Suc (cq_size (tp_q s))" by (metis length_append_singleton length_cq_items)
    then show ?thesis using client_enters(2,3) pushes by (auto simp: pool_work_def upd)
  next
    case (overruns m)
    then have "cq_size q' = cq_size (tp_q s)" by (metis diff_Suc_1 length_append_singleton length_cq_items length_tl)
    then show ?thesis using client_enters(2,3) overruns by (auto simp: pool_work_def upd)
  qed
next
  case (worker_enters j s w w' q' ms)
  note upd = weight_update [OF worker_enters(1)]
  from worker_enters.prems worker_enters(4) show ?case
  proof (cases rule: worker_section_cases)
    case waits
    then show ?thesis using worker_enters(2,3) by (auto simp: pool_work_def upd)
  next
    case (pops m)
    then have "cq_size (tp_q s) = Suc (cq_size q')" by (metis length_Cons length_cq_items)
    then show ?thesis using worker_enters(2,3) pops by (auto simp: pool_work_def upd)
  qed
qed (simp_all add: pool_work_def weight_update post_async_msg_def)

section \<open>Progress\<close>

lemma client_waits_only:
  assumes "cq_inv (tp_q s)" "\<And>t. \<not> run_step names moved s t" "i < length (tp_clients s)"
  shows "tp_clients s ! i = C_idle \<or> (\<exists>m. tp_clients s ! i = C_wait m)"
proof (cases "tp_clients s ! i")
  case C_notify
  then have "W_wait \<in> set (tp_threads s)" using assms(2) client_wakes_none [OF assms(3)] by blast
  then show ?thesis using assms(2) client_wakes_worker [OF assms(3) C_notify] by (metis in_set_conv_nth)
next
  case (C_post p m)
  obtain c' q' ms where "client_section (C_post p m) (tp_q s) = Inr (c', q', ms)"
    using client_section_total [OF assms(1), of "C_post p m"] by (metis surj_pair)
  then show ?thesis using assms(2) client_enters [OF assms(3), of "C_post p m"] C_post by fastforce
next
  case (C_woken m)
  obtain c' q' ms where "client_section (C_woken m) (tp_q s) = Inr (c', q', ms)"
    using client_section_total [OF assms(1), of "C_woken m"] by (metis surj_pair)
  then show ?thesis using assms(2) client_enters [OF assms(3), of "C_woken m"] C_woken by fastforce
qed auto

lemma worker_waits_only:
  assumes "pool_inv names cap s" "\<And>t. \<not> run_step names moved s t" "j < length (tp_threads s)"
  shows "tp_threads s ! j = W_wait \<or> tp_threads s ! j = W_exit"
proof -
  have q: "cq_inv (tp_q s)" using assms(1) by (simp add: pool_inv_def queue_inv_def)
  have enters: "\<not> (w = W_dequeue \<or> w = W_woken \<or> w = W_timeout)" if "w = tp_threads s ! j" for w
    using worker_section_total [OF q, of moved w] assms(2) worker_enters [OF assms(3) that] by (metis surj_pair)
  show ?thesis
  proof (cases "tp_threads s ! j")
    case (W_notify m)
    then obtain m' where "C_wait m' \<in> set (tp_clients s)" using assms(2) worker_wakes_none [OF assms(3)] by blast
    then show ?thesis using assms(2) worker_wakes_client [OF assms(3) W_notify] by (metis in_set_conv_nth)
  next
    case (W_process m)
    have "msg_fine m" using msgs_inv_held [of names s cap j m] assms(1,3) W_process by (simp add: pool_inv_def)
    then have "process_msg names m = Inr None \<or> (\<exists>call. process_msg names m = Inr (Some call))"
      using process_fine by blast
    then show ?thesis using assms(2) worker_ends [OF assms(3) W_process] worker_processes [OF assms(3) W_process] by blast
  qed (use enters in auto)
qed

lemma held_wait_exit:
  "\<forall>w \<in> set ws. w = W_wait \<or> w = W_exit \<Longrightarrow> held ws = replicate (length (filter (\<lambda>w. w = W_exit) ws)) terminate_msg"
  by (induction ws) (auto simp: held_def)

text \<open>The number of ended workers, when all others wait.\<close>

lemma popped_exits:
  assumes "msgs_inv names s" "\<forall>w \<in> set (tp_threads s). w = W_wait \<or> w = W_exit"
  shows "count (mset (tp_popped s)) terminate_msg = length (filter (\<lambda>w. w = W_exit) (tp_threads s))"
proof -
  have "mset (tp_popped s) = mset (tp_done s) + mset (held (tp_threads s))" "terminate_msg \<notin> set (tp_done s)"
    using assms(1) by (auto simp: msgs_inv_def)
  then show ?thesis using held_wait_exit [OF assms(2)] by (simp add: count_mset_0_iff)
qed

text \<open>When no thread can go on: the threads wait, and the queue is empty if a worker waits, full if a client waits.\<close>

lemma stuck_threads:
  assumes inv: "pool_inv names cap s" and stuck: "\<And>t. \<not> run_step names moved s t"
  shows "\<forall>c \<in> set (tp_clients s). c = C_idle \<or> (\<exists>m. c = C_wait m)"
    and "\<forall>w \<in> set (tp_threads s). w = W_wait \<or> w = W_exit"
    and "W_wait \<in> set (tp_threads s) \<Longrightarrow> cq_items (tp_q s) = []"
    and "C_wait m \<in> set (tp_clients s) \<Longrightarrow> cap \<le> length (cq_items (tp_q s))"
proof -
  let ?ws = "tp_threads s" and ?cs = "tp_clients s"
  have q: "cq_inv (tp_q s)" using inv by (simp add: pool_inv_def queue_inv_def)
  show cs: "\<forall>c \<in> set ?cs. c = C_idle \<or> (\<exists>m. c = C_wait m)"
    using client_waits_only [OF q stuck] by (metis in_set_conv_nth)
  show ws: "\<forall>w \<in> set ?ws. w = W_wait \<or> w = W_exit"
    using worker_waits_only [OF inv stuck] by (metis in_set_conv_nth)
  have no: "cnt (\<lambda>c. c = C_notify) ?cs = 0" "cnt (\<lambda>w. w = W_woken) ?ws = 0" "cnt notify_w ?ws = 0" "cnt woken_c ?cs = 0"
    using cs ws by (auto simp: cnt_def filter_empty_conv)
  have wake: "wake_ok (int cap) (int (length (cq_items (tp_q s)))) ?cs ?ws"
    using inv by (simp add: pool_inv_def wake_inv_def)
  have "0 < cnt (\<lambda>w. w = W_wait) ?ws" if "W_wait \<in> set ?ws" using that by (auto simp: cnt_pos)
  then show "cq_items (tp_q s) = []" if "W_wait \<in> set ?ws"
    using wake no that unfolding wake_ok_def by (simp flip: length_0_conv)
  have "0 < cnt waiting_c ?cs" if "C_wait m \<in> set ?cs"
    using that by (metis cnt_pos waiting_c.simps(1))
  then show "cap \<le> length (cq_items (tp_q s))" if "C_wait m \<in> set ?cs"
    using wake no that unfolding wake_ok_def by simp
qed

lemma stuck_not_posting:
  assumes inv: "pool_inv names cap s" and cap: "0 < cap" and stuck: "\<And>t. \<not> run_step names moved s t"
  shows "tp_dtor s \<noteq> D_posting i k"
proof
  assume d: "tp_dtor s = D_posting i k"
  let ?ws = "tp_threads s" and ?c = "tp_clients s ! i"
  have parts: "msgs_inv names s" "term_inv s" using inv by (auto simp: pool_inv_def)
  note st = stuck_threads [OF inv stuck]
  have i: "i < length (tp_clients s)" using parts(2) unfolding term_inv_def d dtor.case by simp
  obtain ms t where t: "tp_popped s @ cq_items (tp_q s) = ms @ replicate t terminate_msg" "terminate_msg \<notin> set ms"
    "t + length (client_held ?c) + k = length ?ws"
    using parts(2) unfolding term_inv_def d dtor.case by blast
  have "set ?ws \<subseteq> {W_exit}" if "W_wait \<notin> set ?ws"
    using bspec [OF st(2)] that by (metis insertI1 subsetI)
  then have e: "cq_items (tp_q s) = []"
    using st(3) posting_quiet [OF parts(2) d parts(1)] by (cases "W_wait \<in> set ?ws") auto
  have "C_wait m \<notin> set (tp_clients s)" for m using st(4) [of m] e cap by (auto simp del: length_cq_items)
  then have idle: "?c = C_idle" using st(1) i by (metis nth_mem)
  have k: "k = 0" using stuck dtor_posts [of s i "k - 1"] d i idle by (cases k) auto
  have "count (mset (tp_popped s)) terminate_msg = t" using t(1,2) e by (simp add: count_mset_0_iff)
  then have "length (filter (\<lambda>w. w = W_exit) ?ws) = length ?ws"
    using popped_exits [OF parts(1) st(2)] t(3) idle k by simp
  then have "set ?ws \<subseteq> {W_exit}" using length_filter_less [of _ ?ws "\<lambda>w. w = W_exit"] by fastforce
  then show False using stuck dtor_joins [of s i] d i idle k by auto
qed

lemma stuck_idle:
  assumes inv: "pool_inv names cap s" and cap: "0 < cap" and stuck: "\<And>t. \<not> run_step names moved s t"
  shows "set (tp_clients s) \<subseteq> {C_idle}"
proof (rule ccontr)
  assume "\<not> set (tp_clients s) \<subseteq> {C_idle}"
  have parts: "msgs_inv names s" "term_inv s" using inv by (auto simp: pool_inv_def)
  note st = stuck_threads [OF inv stuck]
  obtain m where "C_wait m \<in> set (tp_clients s)" using st(1) \<open>\<not> set (tp_clients s) \<subseteq> {C_idle}\<close> by blast
  then have "cq_items (tp_q s) \<noteq> []" using st(4) [of m] cap by (auto simp del: length_cq_items)
  then have "filter (\<lambda>w. w = W_exit) (tp_threads s) = tp_threads s" using st(2,3) by (auto simp: filter_id_conv)
  then have "count (mset (tp_popped s)) terminate_msg = length (tp_threads s)"
    using popped_exits [OF parts(1) st(2)] by simp
  moreover have "tp_threads s \<noteq> []" using parts(2) by (simp add: term_inv_def)
  ultimately have "terminate_msg \<in> set (tp_popped s)" by (metis count_mset_0_iff length_0_conv)
  then show False
    using parts(2) stuck_not_posting [OF inv cap stuck] \<open>\<not> set (tp_clients s) \<subseteq> {C_idle}\<close>
    by (cases "tp_dtor s") (auto simp: term_inv_def)
qed

section \<open>Delivery, progress and shutdown\<close>

text \<open>C28: in every interleaving of posting threads, workers and destructor, messages leave the queue in the order in which they
  entered it; what entered has left, is in the queue, or was overrun, and the overrun counter counts the latter; what left is
  processed or in the hands of a worker; a pool with one thread processes in that order, and every processed message has been
  handed to the back end as it was posted.\<close>

theorem pool_delivery:
  assumes "reachable (pool_init limit clients cap n) (pool_step names moved) s"
  shows "subseq (tp_popped s @ cq_items (tp_q s)) (tp_pushed s) \<and>
    length (tp_pushed s) = length (tp_popped s) + length (cq_items (tp_q s)) + tp_overrun s \<and>
    circular_q_overrun_counter (tp_q s) = tp_overrun s mod 2 ^ 64 \<and> length (cq_items (tp_q s)) \<le> cap \<and>
    mset (tp_popped s) = mset (tp_done s) + mset (held (tp_threads s)) \<and>
    (length (tp_threads s) = 1 \<longrightarrow> tp_popped s = tp_done s @ held (tp_threads s)) \<and>
    map (process_msg names) (tp_done s) = map (\<lambda>c. Inr (Some c)) (tp_calls s)"
proof -
  have "pool_inv names cap s" using tp.reachable_inv [OF assms] .
  then show ?thesis
    using cq.items_bound [of "tp_q s"]
    by (auto simp: pool_inv_def queue_inv_def msgs_inv_def simp del: length_cq_items)
qed

lemma sample_pool_init: "\<exists>s. pool_init 100 1 2 1 s \<and> tp_dtor s = D_none \<and> tp_clients s = [C_idle]"
  by (simp add: pool_init_def thread_pool_new_def circular_q_new_def sz_add_def Let_def)

theorem pool_delivery_witness:
  "\<exists>s. reachable (pool_init 100 1 2 1) (pool_step (\<lambda>_. []) (\<lambda>m. m)) s \<and>
    subseq (tp_popped s @ cq_items (tp_q s)) (tp_pushed s)"
proof -
  obtain s where "pool_init 100 1 2 1 s" using sample_pool_init by blast
  then have "reachable (pool_init 100 1 2 1) (pool_step (\<lambda>_. []) (\<lambda>m. m)) s" by (rule reachable_init)
  with pool_delivery [OF this] show ?thesis by blast
qed

text \<open>C29: no deadlock and no lost wake-up: with room for one message, as long as a thread is posting or the destructor is
  under way, some thread can take a step, without spurious wake-ups and timeouts.\<close>

theorem pool_progress:
  assumes "reachable (pool_init limit clients cap n) (pool_step names moved) s" "0 < cap"
    and "(\<exists>c \<in> set (tp_clients s). c \<noteq> C_idle) \<or> (\<exists>i k. tp_dtor s = D_posting i k)"
  shows "\<exists>t. run_step names moved s t"
proof (rule ccontr)
  assume "\<nexists>t. run_step names moved s t"
  then have stuck: "\<not> run_step names moved s t" for t by blast
  have inv: "pool_inv names cap s" using tp.reachable_inv [OF assms(1)] .
  show False using stuck_idle [OF inv assms(2) stuck] stuck_not_posting [OF inv assms(2) stuck] assms(3) by blast
qed

lemma sample_posting:
  "\<exists>s. reachable (pool_init 100 1 2 1) (pool_step (\<lambda>_. []) (\<lambda>m. m)) s \<and> tp_dtor s = D_posting 0 1"
proof -
  obtain s where s: "pool_init 100 1 2 1 s" "tp_dtor s = D_none" "tp_clients s = [C_idle]" using sample_pool_init by blast
  let ?t = "s\<lparr>tp_dtor := D_posting 0 (length (tp_threads s))\<rparr>"
  have "ext_step s ?t" by (rule dtor_starts) (use s in auto)
  then have "reachable (pool_init 100 1 2 1) (pool_step (\<lambda>_. []) (\<lambda>m. m)) ?t"
    using reachable_step [OF reachable_init [of "pool_init 100 1 2 1", OF s(1)]] by (simp add: pool_step_def)
  moreover have "length (tp_threads s) = 1" using s(1) by (auto simp: pool_init_def thread_pool_new_def res_simps)
  ultimately show ?thesis by (intro exI [of _ ?t]) simp
qed

theorem pool_progress_witness:
  "\<exists>s t. tp_dtor s = D_posting 0 1 \<and> run_step (\<lambda>_. []) (\<lambda>m. m) s t"
proof -
  obtain s where s: "reachable (pool_init 100 1 2 1) (pool_step (\<lambda>_. []) (\<lambda>m. m)) s" "tp_dtor s = D_posting 0 1"
    using sample_posting by blast
  with pool_progress [OF s(1)] show ?thesis by auto
qed

lemma run_reachable:
  "(run_step names moved)\<^sup>*\<^sup>* s t \<Longrightarrow> reachable I (pool_step names moved) s \<Longrightarrow> reachable I (pool_step names moved) t"
  by (induction rule: rtranclp_induct) (auto intro: reachable_step simp: pool_step_def)

lemma run_finite:
  assumes "\<And>i. pool_inv names cap (f i)" "\<And>i. run_step names moved (f i) (f (Suc i))"
  shows False
proof -
  have "pool_work (f (Suc i)) < pool_work (f i)" for i
    using run_step_work [OF assms(2)] assms(1) [of i] by (simp add: pool_inv_def queue_inv_def)
  then have "pool_work (f i) \<le> pool_work (f 0) - int i" for i
  proof (induction i)
    case (Suc i)
    then show ?case by (smt (verit) of_nat_Suc)
  qed simp
  from this [of "nat (pool_work (f 0)) + 1"] pool_work_nonneg [of "f (nat (pool_work (f 0)) + 1)"] pool_work_nonneg [of "f 0"]
  show False by simp
qed

text \<open>What the destructor has achieved when it returns.\<close>

definition shut_down :: "log_pool \<Rightarrow> bool" where
  "shut_down s \<longleftrightarrow> tp_dtor s = D_done \<and> cq_items (tp_q s) = [] \<and> set (tp_threads s) \<subseteq> {W_exit} \<and>
     mset (filter (\<lambda>m. m \<noteq> terminate_msg) (tp_popped s)) = mset (tp_done s)"

lemma done_shut_down:
  assumes "pool_inv names cap s" "tp_dtor s = D_done"
  shows "shut_down s"
proof -
  have t: "cq_items (tp_q s) = []" "set (tp_threads s) \<subseteq> {W_exit}" using assms by (auto simp: pool_inv_def term_inv_def)
  have m: "mset (tp_popped s) = mset (tp_done s) + mset (held (tp_threads s))" "terminate_msg \<notin> set (tp_done s)"
    using assms(1) by (auto simp: pool_inv_def msgs_inv_def)
  have "filter (\<lambda>m. m \<noteq> terminate_msg) (held (tp_threads s)) = []" by (simp add: held_exit [OF t(2)] filter_empty_conv)
  moreover have "filter (\<lambda>m. m \<noteq> terminate_msg) (tp_done s) = tp_done s" using m(2) by (auto simp: filter_id_conv)
  ultimately have "mset (filter (\<lambda>m. m \<noteq> terminate_msg) (tp_popped s)) = mset (tp_done s)"
    using m(1) by (metis add.right_neutral filter_union_mset mset.simps(1) mset_filter)
  with t assms(2) show ?thesis by (simp add: shut_down_def)
qed

lemma dtor_stays: "run_step names moved s t \<Longrightarrow> tp_dtor s \<noteq> D_none \<Longrightarrow> tp_dtor t \<noteq> D_none"
  by (induction rule: run_step.induct) auto

lemma dtor_stays_run: "(run_step names moved)\<^sup>*\<^sup>* s t \<Longrightarrow> tp_dtor s \<noteq> D_none \<Longrightarrow> tp_dtor t \<noteq> D_none"
  by (induction rule: rtranclp_induct) (auto dest: dtor_stays)

text \<open>C30: once the destructor has started, the threads cannot run for ever, and wherever they cannot go on the destructor has returned:
  the workers have ended, the queue is empty, and every message that left it, except those that end
  workers, has been processed.\<close>

theorem pool_shutdown:
  assumes "reachable (pool_init limit clients cap n) (pool_step names moved) s" "0 < cap" "tp_dtor s = D_posting i k"
  shows "(\<nexists>f. f 0 = s \<and> (\<forall>j. run_step names moved (f j) (f (Suc j)))) \<and>
    (\<forall>t. (run_step names moved)\<^sup>*\<^sup>* s t \<longrightarrow> (\<nexists>u. run_step names moved t u) \<longrightarrow> shut_down t)"
proof (intro conjI allI impI notI)
  assume "\<exists>f. f 0 = s \<and> (\<forall>j. run_step names moved (f j) (f (Suc j)))"
  then obtain f where f: "f 0 = s" "\<And>j. run_step names moved (f j) (f (Suc j))" by blast
  have "reachable (pool_init limit clients cap n) (pool_step names moved) (f j)" for j
  proof (induction j)
    case (Suc j)
    moreover have "pool_step names moved (f j) (f (Suc j))" using f(2) by (simp add: pool_step_def)
    ultimately show ?case by (rule reachable_step)
  qed (use assms(1) f(1) in simp)
  then have "pool_inv names cap (f j)" for j using tp.reachable_inv by blast
  then show False using run_finite f(2) by blast
next
  fix t assume run: "(run_step names moved)\<^sup>*\<^sup>* s t" and stop: "\<nexists>u. run_step names moved t u"
  then have stuck: "\<not> run_step names moved t u" for u by blast
  have inv: "pool_inv names cap t" using tp.reachable_inv [OF run_reachable [OF run assms(1)]] .
  have "tp_dtor t \<noteq> D_none" using dtor_stays_run [OF run] assms(3) by simp
  then have "tp_dtor t = D_done" using stuck_not_posting [OF inv assms(2) stuck] by (cases "tp_dtor t") auto
  with inv show "shut_down t" by (rule done_shut_down)
qed

theorem pool_shutdown_witness:
  "\<exists>s. tp_dtor s = D_posting 0 1 \<and> (\<nexists>f. f 0 = s \<and> (\<forall>j. run_step (\<lambda>_. []) (\<lambda>m. m) (f j) (f (Suc j))))"
proof -
  obtain s where s: "reachable (pool_init 100 1 2 1) (pool_step (\<lambda>_. []) (\<lambda>m. m)) s" "tp_dtor s = D_posting 0 1"
    using sample_posting by blast
  with pool_shutdown [OF s(1) _ s(2)] show ?thesis by auto
qed

text \<open>A message comes out of the queue as the message that was posted, with the name of its logger and no colours.\<close>

lemma async_msg_roundtrip:
  "to_log_msg names (async_msg_of_log (Some l) t m) =
     Inr (m\<lparr>lm_logger_name := names l, lm_color_start := 0, lm_color_end := 0\<rparr>)"
  by (simp add: to_log_msg_def async_msg_of_log_def log_msg_new_def)

end
