(* ===== verification/Log_Logger.thy ===== *)
theory Log_Logger
  imports Log_Sink Log_Pool
begin

text \<open>
  Loggers and their registry (\<^verbatim>\<open>logger.h\<close>, \<^verbatim>\<open>details/logger_impl.h\<close>, \<^verbatim>\<open>details/async_logger_impl.h\<close>,
  \<^verbatim>\<open>details/registry.h\<close>, \<^verbatim>\<open>spdlog.h\<close> and \<^verbatim>\<open>async.h\<close> under \<^verbatim>\<open>src/deps/spdlog\<close>) and the set-up of the two
  loggers of the network library (\<^verbatim>\<open>bounce/logger.h\<close>, \<^verbatim>\<open>bounce/logger.cc\<close>). Sinks and loggers are shared objects with numbers. An
  asynchronous logger posts messages, whose way through the queue is the theory of the thread pool; what its back end does with a
  message is here.

  The lemmas show that no exception leaves a logger, what each sink gets for a message, that names in the registry are unique and
  what the global settings do, how the loggers of the library are set up, and a colour range that one sink leaves for the next.
\<close>

section \<open>State\<close>

text \<open>
  An error handler is the default one, a function object that holds the address of a logger, or one of the program with a number. An
  asynchronous logger has a policy and a weak pointer to a pool.
\<close>

datatype err_fn = Default_of nat | Custom nat

record logger =
  lg_name :: string
  lg_sinks :: "nat list"
  lg_level :: level_enum
  lg_flush_level :: level_enum
  lg_err_handler :: err_fn
  lg_last_err_time :: int
  lg_async :: "(async_overflow_policy \<times> nat) option"

text \<open>
  The objects, what asynchronous loggers have posted, the text on standard error, the calls of error handlers of the program; and the
  registry, which holds the only shared pointer to the pool.
\<close>

record log_world =
  lw_sinks :: "nat \<Rightarrow> sink option"
  lw_loggers :: "nat \<Rightarrow> logger option"
  lw_next :: nat
  lw_posts :: "client list"
  lw_stderr :: string
  lw_handled :: "(nat \<times> string) list"
  rg_loggers :: "(string \<times> nat) list"
  rg_formatter :: pattern_formatter
  rg_level :: level_enum
  rg_flush_level :: level_enum
  rg_err_handler :: "err_fn option"
  rg_tp :: "nat option"
  rg_default :: "nat option"
  rg_automatic :: bool

text \<open>The time and the thread of a call, and the date that \<^verbatim>\<open>strftime\<close> gives for a time in seconds.\<close>

record log_call =
  lc_env :: log_env
  lc_os :: log_os
  lc_now :: int
  lc_tid :: nat
  lc_date :: "int \<Rightarrow> string"

definition get_logger :: "nat \<Rightarrow> log_world \<Rightarrow> logger res" where
  "get_logger l w = (case lw_loggers w l of None \<Rightarrow> Inl Null_deref | Some lg \<Rightarrow> Inr lg)"

definition get_sink :: "nat \<Rightarrow> log_world \<Rightarrow> sink res" where
  "get_sink k w = (case lw_sinks w k of None \<Rightarrow> Inl Null_deref | Some sk \<Rightarrow> Inr sk)"

definition put_logger :: "nat \<Rightarrow> logger \<Rightarrow> log_world \<Rightarrow> log_world" where
  "put_logger l lg w = w\<lparr>lw_loggers := (lw_loggers w)(l \<mapsto> lg)\<rparr>"

definition put_sink :: "nat \<Rightarrow> sink \<Rightarrow> log_world \<Rightarrow> log_world" where
  "put_sink k sk w = w\<lparr>lw_sinks := (lw_sinks w)(k \<mapsto> sk)\<rparr>"

definition modify_logger :: "(logger \<Rightarrow> logger) \<Rightarrow> nat \<Rightarrow> log_world \<Rightarrow> log_world res" where
  "modify_logger f l w = res_bind (get_logger l w) (\<lambda>lg. Inr (put_logger l (f lg) w))"

definition make_shared_sink :: "sink \<Rightarrow> log_world \<Rightarrow> nat \<times> log_world" where
  "make_shared_sink sk w = (lw_next w, (put_sink (lw_next w) sk w)\<lparr>lw_next := lw_next w + 1\<rparr>)"

text \<open>A logger is constructed at its address.\<close>

definition make_shared_logger :: "(nat \<Rightarrow> logger) \<Rightarrow> log_world \<Rightarrow> nat \<times> log_world" where
  "make_shared_logger ctor w = (lw_next w, (put_logger (lw_next w) (ctor (lw_next w)) w)\<lparr>lw_next := lw_next w + 1\<rparr>)"

section \<open>Loggers\<close>

definition default_level :: level_enum where
  "default_level = level_info"

definition logger_new :: "string \<Rightarrow> nat list \<Rightarrow> nat \<Rightarrow> logger" where
  "logger_new nm sinks this =
     \<lparr>lg_name = nm, lg_sinks = sinks, lg_level = default_level, lg_flush_level = level_off,
      lg_err_handler = Default_of this,
      lg_last_err_time = 0, lg_async = None\<rparr>"

definition async_logger_new :: "string \<Rightarrow> nat list \<Rightarrow> nat \<Rightarrow> async_overflow_policy \<Rightarrow> nat \<Rightarrow> logger" where
  "async_logger_new nm sinks tp overflow_policy this = (logger_new nm sinks this)\<lparr>lg_async := Some (overflow_policy, tp)\<rparr>"

definition logger_should_log :: "level_enum \<Rightarrow> logger \<Rightarrow> bool" where
  "logger_should_log msg_level lg \<longleftrightarrow> level_code (lg_level lg) \<le> level_code msg_level"

definition logger_should_flush :: "log_msg \<Rightarrow> logger \<Rightarrow> bool" where
  "logger_should_flush msg lg \<longleftrightarrow> level_code (lg_flush_level lg) \<le> level_code (lm_level msg) \<and> lm_level msg \<noteq> level_off"

definition logger_set_level :: "level_enum \<Rightarrow> logger \<Rightarrow> logger" where
  "logger_set_level log_level lg = lg\<lparr>lg_level := log_level\<rparr>"

definition logger_flush_on :: "level_enum \<Rightarrow> logger \<Rightarrow> logger" where
  "logger_flush_on log_level lg = lg\<lparr>lg_flush_level := log_level\<rparr>"

definition logger_set_error_handler :: "err_fn \<Rightarrow> logger \<Rightarrow> logger" where
  "logger_set_error_handler err_handler lg = lg\<lparr>lg_err_handler := err_handler\<rparr>"

fun sinks_set_formatter :: "pattern_formatter \<Rightarrow> nat list \<Rightarrow> log_world \<Rightarrow> log_world res" where
  "sinks_set_formatter f [] w = Inr w"
| "sinks_set_formatter f (k # ks) w =
     res_bind (get_sink k w) (\<lambda>sk.
     sinks_set_formatter f ks (put_sink k (sink_set_formatter (pattern_formatter_clone f) sk) w))"

definition logger_set_formatter :: "pattern_formatter \<Rightarrow> nat \<Rightarrow> log_world \<Rightarrow> log_world res" where
  "logger_set_formatter f l w = res_bind (get_logger l w) (\<lambda>lg. sinks_set_formatter f (lg_sinks lg) w)"

definition logger_set_pattern :: "string \<Rightarrow> pattern_time_type \<Rightarrow> nat \<Rightarrow> log_world \<Rightarrow> log_world res" where
  "logger_set_pattern pattern time_type = logger_set_formatter (pattern_formatter_new pattern time_type default_eol)"

text \<open>The message goes from sink to sink, with its colour range.\<close>

fun sinks_log :: "log_call \<Rightarrow> nat list \<Rightarrow> log_world \<times> log_msg \<Rightarrow> (log_world \<times> log_msg) outcome" where
  "sinks_log c [] s = ok s"
| "sinks_log c (k # ks) (w, msg) =
     res_bind (get_sink k w) (\<lambda>sk.
       if sink_should_log (lm_level msg) sk then
         and_then
           (res_bind (sink_log (lc_env c) (lc_os c) (sk, msg)) (\<lambda>((sk, msg), ex). Inr ((put_sink k sk w, msg), ex)))
           (sinks_log c ks)
       else sinks_log c ks (w, msg))"

fun sinks_flush :: "nat list \<Rightarrow> log_world \<Rightarrow> log_world res" where
  "sinks_flush [] w = Inr w"
| "sinks_flush (k # ks) w = res_bind (get_sink k w) (\<lambda>sk. sinks_flush ks (put_sink k (sink_flush sk) w))"

text \<open>The virtual functions \<^verbatim>\<open>flush_\<close> and \<^verbatim>\<open>sink_it_\<close>, for both kinds of loggers.\<close>

definition logger_flush_virtual :: "nat \<Rightarrow> log_world \<Rightarrow> log_world outcome" where
  "logger_flush_virtual l w =
     res_bind (get_logger l w) (\<lambda>lg.
       case lg_async lg of
         None \<Rightarrow> res_bind (sinks_flush (lg_sinks lg) w) ok
       | Some (policy, tp) \<Rightarrow> catching w (async_flush (rg_tp w = Some tp) l policy) (\<lambda>cl. ok (w\<lparr>lw_posts := lw_posts w @ [cl]\<rparr>)))"

definition logger_sink_it :: "log_call \<Rightarrow> nat \<Rightarrow> log_msg \<Rightarrow> log_world \<Rightarrow> log_world outcome" where
  "logger_sink_it c l msg w =
     res_bind (get_logger l w) (\<lambda>lg.
       case lg_async lg of
         None \<Rightarrow>
           res_bind (sinks_log c (lg_sinks lg) (w, msg)) (\<lambda>((w, msg), ex).
             case ex of
               Some what \<Rightarrow> throw what w
             | None \<Rightarrow> if logger_should_flush msg lg then logger_flush_virtual l w else ok w)
       | Some (policy, tp) \<Rightarrow> catching w (async_sink_it (rg_tp w = Some tp) l policy msg) (\<lambda>cl. ok (w\<lparr>lw_posts := lw_posts w @ [cl]\<rparr>)))"

text \<open>The default handler writes at most one line a minute.\<close>

definition default_err_handler :: "log_call \<Rightarrow> string \<Rightarrow> nat \<Rightarrow> log_world \<Rightarrow> log_world res" where
  "default_err_handler c what l w =
     res_bind (get_logger l w) (\<lambda>lg.
       let now = to_secs (lc_now c) in
       if now - lg_last_err_time lg < 60 then Inr w
       else
         let w = put_logger l (lg\<lparr>lg_last_err_time := now\<rparr>) w in
         res_bind (format_to (le_fmt (lc_env c)) [] (''[*** LOG ERROR ***] [{}] [{}] {}'' @ [CHR 0x0A])
             [Plain (Arg_cstring 1 (lc_date c now)), Plain (Arg_string (lg_name lg)), Plain (Arg_string what)]) (\<lambda>line.
           Inr (w\<lparr>lw_stderr := lw_stderr w @ line\<rparr>)))"

definition err_handler :: "log_call \<Rightarrow> string \<Rightarrow> nat \<Rightarrow> log_world \<Rightarrow> log_world res" where
  "err_handler c what l w =
     res_bind (get_logger l w) (\<lambda>lg.
       case lg_err_handler lg of
         Default_of d \<Rightarrow> default_err_handler c what d w
       | Custom h \<Rightarrow> Inr (w\<lparr>lw_handled := lw_handled w @ [(h, what)]\<rparr>))"

text \<open>\<^verbatim>\<open>try { ... } SPDLOG_CATCH_AND_HANDLE\<close>.\<close>

definition catch_and_handle :: "log_call \<Rightarrow> nat \<Rightarrow> log_world outcome \<Rightarrow> log_world res" where
  "catch_and_handle c l m = res_bind m (\<lambda>(w, ex). case ex of None \<Rightarrow> Inr w | Some what \<Rightarrow> err_handler c what l w)"

definition make_msg :: "log_call \<Rightarrow> source_loc \<Rightarrow> logger \<Rightarrow> level_enum \<Rightarrow> string \<Rightarrow> log_msg" where
  "make_msg c src lg lvl view = log_msg_new (lc_now c) (lc_tid c) src (lg_name lg) lvl view"

text \<open>Logging a format string with arguments, and logging a text.\<close>

definition logger_log_fmt ::
  "log_call \<Rightarrow> nat \<Rightarrow> source_loc \<Rightarrow> level_enum \<Rightarrow> string \<Rightarrow> store_arg list \<Rightarrow> log_world \<Rightarrow> log_world res" where
  "logger_log_fmt c l src lvl fmt args w =
     res_bind (get_logger l w) (\<lambda>lg.
       if \<not> logger_should_log lvl lg then Inr w
       else catch_and_handle c l
         (catching w (format_to (le_fmt (lc_env c)) [] fmt args) (\<lambda>buf.
           logger_sink_it c l (make_msg c src lg lvl buf) w)))"

definition logger_log_text :: "log_call \<Rightarrow> nat \<Rightarrow> source_loc \<Rightarrow> level_enum \<Rightarrow> string \<Rightarrow> log_world \<Rightarrow> log_world res" where
  "logger_log_text c l src lvl msg w =
     res_bind (get_logger l w) (\<lambda>lg.
       if \<not> logger_should_log lvl lg then Inr w
       else catch_and_handle c l (logger_sink_it c l (make_msg c src lg lvl msg) w))"

text \<open>A value that is no text is formatted with an empty replacement field.\<close>

definition logger_log_value :: "log_call \<Rightarrow> nat \<Rightarrow> source_loc \<Rightarrow> level_enum \<Rightarrow> store_arg \<Rightarrow> log_world \<Rightarrow> log_world res" where
  "logger_log_value c l src lvl v w = logger_log_fmt c l src lvl ''{}'' [v] w"

text \<open>With a format string and no argument, overload resolution takes the function that logs a text.\<close>

definition logger_log :: "log_call \<Rightarrow> nat \<Rightarrow> level_enum \<Rightarrow> string \<Rightarrow> store_arg list \<Rightarrow> log_world \<Rightarrow> log_world res" where
  "logger_log c l lvl fmt args =
     (if args = [] then logger_log_text c l no_source lvl fmt else logger_log_fmt c l no_source lvl fmt args)"

definition logger_trace :: "log_call \<Rightarrow> nat \<Rightarrow> string \<Rightarrow> store_arg list \<Rightarrow> log_world \<Rightarrow> log_world res" where
  "logger_trace c l fmt args = logger_log c l level_trace fmt args"

definition logger_debug :: "log_call \<Rightarrow> nat \<Rightarrow> string \<Rightarrow> store_arg list \<Rightarrow> log_world \<Rightarrow> log_world res" where
  "logger_debug c l fmt args = logger_log c l level_debug fmt args"

definition logger_info :: "log_call \<Rightarrow> nat \<Rightarrow> string \<Rightarrow> store_arg list \<Rightarrow> log_world \<Rightarrow> log_world res" where
  "logger_info c l fmt args = logger_log c l level_info fmt args"

definition logger_warn :: "log_call \<Rightarrow> nat \<Rightarrow> string \<Rightarrow> store_arg list \<Rightarrow> log_world \<Rightarrow> log_world res" where
  "logger_warn c l fmt args = logger_log c l level_warn fmt args"

definition logger_error :: "log_call \<Rightarrow> nat \<Rightarrow> string \<Rightarrow> store_arg list \<Rightarrow> log_world \<Rightarrow> log_world res" where
  "logger_error c l fmt args = logger_log c l level_err fmt args"

definition logger_critical :: "log_call \<Rightarrow> nat \<Rightarrow> string \<Rightarrow> store_arg list \<Rightarrow> log_world \<Rightarrow> log_world res" where
  "logger_critical c l fmt args = logger_log c l level_critical fmt args"

definition logger_flush :: "log_call \<Rightarrow> nat \<Rightarrow> log_world \<Rightarrow> log_world res" where
  "logger_flush c l w = catch_and_handle c l (logger_flush_virtual l w)"

definition logger_clone :: "string \<Rightarrow> nat \<Rightarrow> log_world \<Rightarrow> (nat \<times> log_world) res" where
  "logger_clone nm l w =
     res_bind (get_logger l w) (\<lambda>lg.
       Inr (make_shared_logger (\<lambda>this.
         logger_set_error_handler (lg_err_handler lg) (logger_flush_on (lg_flush_level lg) (logger_set_level (lg_level lg)
           ((logger_new nm (lg_sinks lg) this)\<lparr>lg_async := lg_async lg\<rparr>)))) w))"

text \<open>The back end of an asynchronous logger, on a worker thread.\<close>

definition backend_flush :: "log_call \<Rightarrow> nat \<Rightarrow> log_world \<Rightarrow> log_world res" where
  "backend_flush c l w =
     res_bind (get_logger l w) (\<lambda>lg. catch_and_handle c l (res_bind (sinks_flush (lg_sinks lg) w) ok))"

definition backend_log :: "log_call \<Rightarrow> nat \<Rightarrow> log_msg \<Rightarrow> log_world \<Rightarrow> log_world res" where
  "backend_log c l incoming w =
     res_bind (get_logger l w) (\<lambda>lg.
     res_bind (catch_and_handle c l
       (res_bind (sinks_log c (lg_sinks lg) (w, incoming)) (\<lambda>((w, msg), ex). Inr (w, ex)))) (\<lambda>w.
     if logger_should_flush incoming lg then backend_flush c l w else Inr w))"

fun backend_run :: "log_call \<Rightarrow> backend_call \<Rightarrow> log_world \<Rightarrow> log_world res" where
  "backend_run c (Backend_log l msg) w = backend_log c l msg w"
| "backend_run c (Backend_flush l) w = backend_flush c l w"

section \<open>Registry\<close>

text \<open>The map from names to loggers is a list of pairs; loops over it go through the list.\<close>

definition map_put :: "string \<Rightarrow> nat \<Rightarrow> (string \<times> nat) list \<Rightarrow> (string \<times> nat) list" where
  "map_put k v xs = (k, v) # filter (\<lambda>p. fst p \<noteq> k) xs"

definition map_erase :: "string \<Rightarrow> (string \<times> nat) list \<Rightarrow> (string \<times> nat) list" where
  "map_erase k xs = filter (\<lambda>p. fst p \<noteq> k) xs"

definition for_loggers :: "(nat \<Rightarrow> log_world \<Rightarrow> log_world res) \<Rightarrow> log_world \<Rightarrow> log_world res" where
  "for_loggers f w = res_fold (\<lambda>p. f (snd p)) (rg_loggers w) w"

text \<open>The registry is constructed with the default logger, on a coloured console.\<close>

definition registry_new :: "log_os \<Rightarrow> log_world" where
  "registry_new os =
     (let w = \<lparr>lw_sinks = (\<lambda>_. None), lw_loggers = (\<lambda>_. None), lw_next = 0, lw_posts = [], lw_stderr = [], lw_handled = [],
            rg_loggers = [], rg_formatter = pattern_formatter_default time_local default_eol, rg_level = default_level,
            rg_flush_level = level_off, rg_err_handler = None, rg_tp = None, rg_default = None, rg_automatic = True\<rparr>;
          (k, w) = make_shared_sink (ansicolor_sink_new os) w;
          (l, w) = make_shared_logger (logger_new [] [k]) w
      in w\<lparr>rg_default := Some l, rg_loggers := map_put [] l (rg_loggers w)\<rparr>)"

definition throw_if_exists :: "string \<Rightarrow> log_world \<Rightarrow> unit res" where
  "throw_if_exists nm w =
     (if map_of (rg_loggers w) nm \<noteq> None then Inl (Spdlog_ex (''logger with name '' @ [CHR 0x27] @ nm @ [CHR 0x27] @ '' already exists''))
      else Inr ())"

definition register_logger :: "nat \<Rightarrow> log_world \<Rightarrow> log_world res" where
  "register_logger l w =
     res_bind (get_logger l w) (\<lambda>lg.
     res_bind (throw_if_exists (lg_name lg) w) (\<lambda>_.
     Inr (w\<lparr>rg_loggers := map_put (lg_name lg) l (rg_loggers w)\<rparr>)))"

definition initialize_logger :: "nat \<Rightarrow> log_world \<Rightarrow> log_world res" where
  "initialize_logger l w =
     res_bind (logger_set_formatter (pattern_formatter_clone (rg_formatter w)) l w) (\<lambda>w.
     res_bind (case rg_err_handler w of None \<Rightarrow> Inr w | Some h \<Rightarrow> modify_logger (logger_set_error_handler h) l w) (\<lambda>w.
     res_bind (modify_logger (logger_set_level (rg_level w)) l w) (\<lambda>w.
     res_bind (modify_logger (logger_flush_on (rg_flush_level w)) l w) (\<lambda>w.
     if rg_automatic w then register_logger l w else Inr w))))"

definition registry_get :: "string \<Rightarrow> log_world \<Rightarrow> nat option" where
  "registry_get nm w = map_of (rg_loggers w) nm"

definition default_logger :: "log_world \<Rightarrow> nat option" where
  "default_logger w = rg_default w"

definition set_default_logger :: "nat option \<Rightarrow> log_world \<Rightarrow> log_world res" where
  "set_default_logger new_default w =
     res_bind
       (case rg_default w of
          None \<Rightarrow> Inr w
        | Some d \<Rightarrow> res_bind (get_logger d w) (\<lambda>lg. Inr (w\<lparr>rg_loggers := map_erase (lg_name lg) (rg_loggers w)\<rparr>))) (\<lambda>w.
     res_bind
       (case new_default of
          None \<Rightarrow> Inr w
        | Some d \<Rightarrow> res_bind (get_logger d w) (\<lambda>lg. Inr (w\<lparr>rg_loggers := map_put (lg_name lg) d (rg_loggers w)\<rparr>))) (\<lambda>w.
     Inr (w\<lparr>rg_default := new_default\<rparr>)))"

definition registry_set_tp :: "nat option \<Rightarrow> log_world \<Rightarrow> log_world" where
  "registry_set_tp tp w = w\<lparr>rg_tp := tp\<rparr>"

definition registry_set_formatter :: "pattern_formatter \<Rightarrow> log_world \<Rightarrow> log_world res" where
  "registry_set_formatter f w =
     (let w = w\<lparr>rg_formatter := f\<rparr>
      in for_loggers (logger_set_formatter (pattern_formatter_clone f)) w)"

definition registry_set_level :: "level_enum \<Rightarrow> log_world \<Rightarrow> log_world res" where
  "registry_set_level log_level w =
     res_bind (for_loggers (modify_logger (logger_set_level log_level)) w) (\<lambda>w. Inr (w\<lparr>rg_level := log_level\<rparr>))"

definition registry_flush_on :: "level_enum \<Rightarrow> log_world \<Rightarrow> log_world res" where
  "registry_flush_on log_level w =
     res_bind (for_loggers (modify_logger (logger_flush_on log_level)) w) (\<lambda>w. Inr (w\<lparr>rg_flush_level := log_level\<rparr>))"

definition registry_set_error_handler :: "err_fn \<Rightarrow> log_world \<Rightarrow> log_world res" where
  "registry_set_error_handler h w =
     res_bind (for_loggers (modify_logger (logger_set_error_handler h)) w) (\<lambda>w. Inr (w\<lparr>rg_err_handler := Some h\<rparr>))"

definition registry_flush_all :: "log_call \<Rightarrow> log_world \<Rightarrow> log_world res" where
  "registry_flush_all c w = for_loggers (logger_flush c) w"

text \<open>Dropping a logger takes it out of the registry; who holds a pointer to it keeps it.\<close>

definition registry_drop :: "string \<Rightarrow> log_world \<Rightarrow> log_world res" where
  "registry_drop nm w =
     (let w = w\<lparr>rg_loggers := map_erase nm (rg_loggers w)\<rparr> in
      case rg_default w of
        None \<Rightarrow> Inr w
      | Some d \<Rightarrow> res_bind (get_logger d w) (\<lambda>lg. Inr (if lg_name lg = nm then w\<lparr>rg_default := None\<rparr> else w)))"

definition registry_drop_all :: "log_world \<Rightarrow> log_world" where
  "registry_drop_all w = w\<lparr>rg_loggers := [], rg_default := None\<rparr>"

definition registry_shutdown :: "log_world \<Rightarrow> log_world" where
  "registry_shutdown w = registry_set_tp None (registry_drop_all w)"

definition set_automatic_registration :: "bool \<Rightarrow> log_world \<Rightarrow> log_world" where
  "set_automatic_registration b w = w\<lparr>rg_automatic := b\<rparr>"

text \<open>The functions of the name space work on the registry, and log with the default logger, which may have been dropped.\<close>

definition spdlog_set_pattern :: "string \<Rightarrow> pattern_time_type \<Rightarrow> log_world \<Rightarrow> log_world res" where
  "spdlog_set_pattern pattern time_type = registry_set_formatter (pattern_formatter_new pattern time_type default_eol)"

definition spdlog_log :: "log_call \<Rightarrow> level_enum \<Rightarrow> string \<Rightarrow> store_arg list \<Rightarrow> log_world \<Rightarrow> log_world res" where
  "spdlog_log c lvl fmt args w =
     (case rg_default w of None \<Rightarrow> Inl Null_deref | Some d \<Rightarrow> logger_log c d lvl fmt args w)"

definition spdlog_trace :: "log_call \<Rightarrow> string \<Rightarrow> store_arg list \<Rightarrow> log_world \<Rightarrow> log_world res" where
  "spdlog_trace c fmt args w = (case rg_default w of None \<Rightarrow> Inl Null_deref | Some d \<Rightarrow> logger_trace c d fmt args w)"

definition spdlog_debug :: "log_call \<Rightarrow> string \<Rightarrow> store_arg list \<Rightarrow> log_world \<Rightarrow> log_world res" where
  "spdlog_debug c fmt args w = (case rg_default w of None \<Rightarrow> Inl Null_deref | Some d \<Rightarrow> logger_debug c d fmt args w)"

definition spdlog_info :: "log_call \<Rightarrow> string \<Rightarrow> store_arg list \<Rightarrow> log_world \<Rightarrow> log_world res" where
  "spdlog_info c fmt args w = (case rg_default w of None \<Rightarrow> Inl Null_deref | Some d \<Rightarrow> logger_info c d fmt args w)"

definition spdlog_warn :: "log_call \<Rightarrow> string \<Rightarrow> store_arg list \<Rightarrow> log_world \<Rightarrow> log_world res" where
  "spdlog_warn c fmt args w = (case rg_default w of None \<Rightarrow> Inl Null_deref | Some d \<Rightarrow> logger_warn c d fmt args w)"

definition spdlog_error :: "log_call \<Rightarrow> string \<Rightarrow> store_arg list \<Rightarrow> log_world \<Rightarrow> log_world res" where
  "spdlog_error c fmt args w = (case rg_default w of None \<Rightarrow> Inl Null_deref | Some d \<Rightarrow> logger_error c d fmt args w)"

definition spdlog_critical :: "log_call \<Rightarrow> string \<Rightarrow> store_arg list \<Rightarrow> log_world \<Rightarrow> log_world res" where
  "spdlog_critical c fmt args w = (case rg_default w of None \<Rightarrow> Inl Null_deref | Some d \<Rightarrow> logger_critical c d fmt args w)"

section \<open>Factories\<close>

definition synchronous_create :: "string \<Rightarrow> sink res \<Rightarrow> log_world \<Rightarrow> (nat \<times> log_world) res" where
  "synchronous_create nm sink_ctor w =
     res_bind sink_ctor (\<lambda>sk.
     let (k, w) = make_shared_sink sk w;
         (l, w) = make_shared_logger (logger_new nm [k]) w
     in res_bind (initialize_logger l w) (\<lambda>w. Inr (l, w)))"

text \<open>A new pool is a new object; the pool of an asynchronous logger is created when there is none, before the sink.\<close>

definition init_thread_pool :: "log_world \<Rightarrow> log_world" where
  "init_thread_pool w = (registry_set_tp (Some (lw_next w)) w)\<lparr>lw_next := lw_next w + 1\<rparr>"

definition async_create :: "async_overflow_policy \<Rightarrow> string \<Rightarrow> sink res \<Rightarrow> log_world \<Rightarrow> (nat \<times> log_world) res" where
  "async_create policy nm sink_ctor w =
     (let w = (if rg_tp w = None then init_thread_pool w else w) in
      res_bind sink_ctor (\<lambda>sk.
      let (k, w) = make_shared_sink sk w;
          (l, w) = make_shared_logger (async_logger_new nm [k] (the (rg_tp w)) policy) w
      in res_bind (initialize_logger l w) (\<lambda>w. Inr (l, w))))"

definition stdout_color_mt :: "log_os \<Rightarrow> string \<Rightarrow> log_world \<Rightarrow> (nat \<times> log_world) res" where
  "stdout_color_mt os nm w = synchronous_create nm (Inr (ansicolor_sink_new os)) w"

definition basic_logger_mt_async :: "log_os \<Rightarrow> string \<Rightarrow> string \<Rightarrow> log_world \<Rightarrow> (nat \<times> log_world) res" where
  "basic_logger_mt_async os nm filename w = async_create policy_block nm (basic_file_sink_new os filename False) w"

section \<open>The loggers of the network library\<close>

text \<open>Directories: whether one can be opened, and whether one can be made.\<close>

record bounce_log =
  bl_once :: bool
  bl_path :: string
  bl_dirs :: nat
  bl_world :: log_world

record dir_os =
  do_opendir :: "string \<Rightarrow> bool"
  do_mkdir :: "string \<Rightarrow> bool"

definition setBounceLogPath :: "string \<Rightarrow> bounce_log \<Rightarrow> bounce_log" where
  "setBounceLogPath path b = b\<lparr>bl_path := path\<rparr>"

text \<open>The body of the try block; a stream of a directory that was opened is not closed.\<close>

definition logSysInit_try :: "log_call \<Rightarrow> dir_os \<Rightarrow> string \<Rightarrow> bounce_log \<Rightarrow> bounce_log res" where
  "logSysInit_try c d log_path b =
     res_bind (stdout_color_mt (lc_os c) ''bounce_console'' (bl_world b)) (\<lambda>(console, w).
     res_bind
       (if do_opendir d log_path then Inr (b\<lparr>bl_dirs := bl_dirs b + 1\<rparr>, w)
        else if \<not> do_mkdir d log_path then
          res_bind (logger_critical c console ''File log dir can't open and create.'' [] w) (\<lambda>_. Inl (Process_exit 1))
        else Inr (b, w)) (\<lambda>(b, w).
     res_bind (basic_logger_mt_async (lc_os c) ''bounce_file_log'' (log_path @ ''/bounce_log.txt'') w) (\<lambda>(async_file, w).
     res_bind (logger_info c async_file ''Bounce library is servicing.'' [] w) (\<lambda>w.
     Inr (b\<lparr>bl_world := w\<rparr>)))))"

definition logSysInit :: "log_call \<Rightarrow> dir_os \<Rightarrow> bounce_log \<Rightarrow> bounce_log res" where
  "logSysInit c d b =
     (let log_path = (if bl_path b = [] then ''./logs'' else bl_path b) in
      case logSysInit_try c d log_path b of
        Inl (Spdlog_ex what) \<Rightarrow> Inl (Process_exit 1)
      | r \<Rightarrow> r)"

text \<open>\<^verbatim>\<open>pthread_once\<close> runs the set-up in the first call.\<close>

definition Logger_get :: "log_call \<Rightarrow> dir_os \<Rightarrow> string \<Rightarrow> bounce_log \<Rightarrow> (nat option \<times> bounce_log) res" where
  "Logger_get c d nm b =
     res_bind (if bl_once b then Inr b else logSysInit c d (b\<lparr>bl_once := True\<rparr>)) (\<lambda>b.
     Inr (registry_get nm (bl_world b), b))"

section \<open>Sinks return\<close>

lemma res_bind_Inr_ex: "\<exists>x. m = Inr x \<Longrightarrow> (\<And>x. m = Inr x \<Longrightarrow> \<exists>y. f x = Inr y \<and> P y) \<Longrightarrow> \<exists>y. res_bind m f = Inr y \<and> P y"
  by auto

text \<open>A pattern sets the end of the colour range when it has a stop marker or the full format.\<close>

fun stops_color :: "flag_formatter \<Rightarrow> bool" where
  "stops_color (color_stop_formatter p) = True"
| "stops_color (full_formatter p fc) = True"
| "stops_color f = False"

definition sets_range :: "sink \<Rightarrow> bool" where
  "sets_range sk \<longleftrightarrow> list_ex stops_color (compile_pattern (pf_pattern (sk_formatter sk)))"

lemma flag_effect_range:
  assumes "flag_effect env t f (msg, dest) = (msg', dest')"
  shows "length dest \<le> length dest'" "lm_level msg' = lm_level msg" "lm_time msg' = lm_time msg" "lm_payload msg' = lm_payload msg"
    "stops_color f \<or> lm_color_end msg \<le> length dest \<Longrightarrow> lm_color_end msg' \<le> length dest'"
  using assms by (cases f; auto simp: flag_effect_def full_text_def)+

lemma fold_effect_range:
  assumes "fold (flag_effect env t) fs (msg, dest) = (msg', dest')"
  shows "length dest \<le> length dest' \<and> lm_level msg' = lm_level msg \<and> lm_time msg' = lm_time msg \<and> (msg_ok msg' \<longleftrightarrow> msg_ok msg) \<and>
    (list_ex stops_color fs \<or> lm_color_end msg \<le> length dest \<longrightarrow> lm_color_end msg' \<le> length dest')"
  using assms
proof (induction fs arbitrary: msg dest)
  case (Cons f fs)
  obtain m d where md: "flag_effect env t f (msg, dest) = (m, d)" by (cases "flag_effect env t f (msg, dest)")
  have "fold (flag_effect env t) fs (m, d) = (msg', dest')" using Cons.prems md by simp
  from Cons.IH [OF this] show ?case
    using flag_effect_range [OF md] flag_effect_keeps [of env t f msg dest] md by auto
qed simp

lemma pattern_line_range:
  assumes "pattern_line env (sk_formatter sk) (msg, []) = (msg', s)"
  shows "lm_level msg' = lm_level msg" "lm_time msg' = lm_time msg" "msg_ok msg' \<longleftrightarrow> msg_ok msg"
    "sets_range sk \<or> lm_color_end msg = 0 \<Longrightarrow> lm_color_end msg' \<le> length s"
  using assms fold_effect_range
  by (fastforce simp: pattern_line_def sets_range_def Let_def split: prod.splits)+

definition console :: "sink \<Rightarrow> bool" where
  "console sk \<longleftrightarrow> (\<exists>b cols out. sk_target sk = Console_target b cols out)"

definition msg_timed :: "log_msg \<Rightarrow> bool" where
  "msg_timed msg \<longleftrightarrow> msg_ok msg \<and> to_secs (lm_time msg) \<noteq> 0"

text \<open>Two states of a sink between which it has only written.\<close>

definition same_sink :: "sink \<Rightarrow> sink \<Rightarrow> bool" where
  "same_sink sk sk' \<longleftrightarrow> sk_level sk' = sk_level sk \<and> pf_pattern (sk_formatter sk') = pf_pattern (sk_formatter sk) \<and>
     console sk' = console sk"

lemma ansicolor_print_total:
  "lm_color_end msg \<le> length s \<Longrightarrow> \<exists>out'. ansicolor_print os b cols msg s out = Inr out'"
  by (auto simp: ansicolor_print_def print_range_def Let_def)

lemma sink_log_total:
  assumes "sink_ok env sk" "log_env_ok env" "msg_timed msg" "console sk \<Longrightarrow> sets_range sk \<or> lm_color_end msg = 0"
  shows "\<exists>sk' msg' ex. sink_log env os (sk, msg) = Inr ((sk', msg'), ex) \<and> sink_ok env sk' \<and> same_sink sk sk' \<and>
    msg_timed msg' \<and> lm_level msg' = lm_level msg"
proof -
  obtain msg' s where line: "pattern_line env (sk_formatter sk) (msg, []) = (msg', s)"
    by (cases "pattern_line env (sk_formatter sk) (msg, [])")
  obtain pf where pf: "pattern_formatter_format env (sk_formatter sk) (msg, []) = Inr (pf, msg', s)" "pattern_inv env pf"
    "pf_pattern pf = pf_pattern (sk_formatter sk)"
    using pattern_format_eq [of env "sk_formatter sk" msg "[]"] assms(1-3) line by (auto simp: sink_ok_def msg_timed_def)
  note m = pattern_line_range [OF line]
  show ?thesis
  proof (cases "sk_target sk")
    case (File_target fh)
    then show ?thesis
      using pf m assms(1,3)
      by (auto simp: sink_log_def catching_def file_helper_write_def ok_def throw_def sink_ok_def Let_def same_sink_def
          console_def msg_timed_def)
  next
    case (Console_target b cols out)
    then have "lm_color_end msg' \<le> length s" using m(4) assms(4) by (auto simp: console_def)
    then obtain out' where "ansicolor_print os b cols msg' s out = Inr out'" using ansicolor_print_total by blast
    then show ?thesis
      using pf m assms(1,3) Console_target
      by (auto simp: sink_log_def catching_def ok_def sink_ok_def same_sink_def console_def msg_timed_def)
  qed
qed

section \<open>Well-formed worlds\<close>

text \<open>The default handler of a logger needs the logger.\<close>

definition handler_ok :: "log_world \<Rightarrow> err_fn \<Rightarrow> bool" where
  "handler_ok w h \<longleftrightarrow> (\<forall>d. h = Default_of d \<longrightarrow> lw_loggers w d \<noteq> None)"

text \<open>The sinks of a logger exist, and only the first may be a console.\<close>

definition sinks_ok :: "log_world \<Rightarrow> nat list \<Rightarrow> bool" where
  "sinks_ok w ks \<longleftrightarrow> (\<forall>k \<in> set ks. lw_sinks w k \<noteq> None) \<and> (\<forall>k \<in> set (tl ks). \<not> console (the (lw_sinks w k)))"

definition logger_ok :: "log_world \<Rightarrow> logger \<Rightarrow> bool" where
  "logger_ok w lg \<longleftrightarrow> sinks_ok w (lg_sinks lg) \<and> handler_ok w (lg_err_handler lg)"

text \<open>Objects are numbered from below; the registry has a name once, with a logger of that name.\<close>

definition objects_ok :: "log_env \<Rightarrow> log_world \<Rightarrow> bool" where
  "objects_ok env w \<longleftrightarrow>
     (\<forall>k sk. lw_sinks w k = Some sk \<longrightarrow> k < lw_next w \<and> sink_ok env sk) \<and>
     (\<forall>l lg. lw_loggers w l = Some lg \<longrightarrow> l < lw_next w \<and> logger_ok w lg)"

definition registry_ok :: "log_world \<Rightarrow> bool" where
  "registry_ok w \<longleftrightarrow>
     distinct (map fst (rg_loggers w)) \<and>
     (\<forall>(nm, l) \<in> set (rg_loggers w). \<exists>lg. lw_loggers w l = Some lg \<and> lg_name lg = nm) \<and>
     (\<forall>d. rg_default w = Some d \<longrightarrow> lw_loggers w d \<noteq> None) \<and>
     (\<forall>h. rg_err_handler w = Some h \<longrightarrow> handler_ok w h)"

definition world_ok :: "log_env \<Rightarrow> log_world \<Rightarrow> bool" where
  "world_ok env w \<longleftrightarrow> objects_ok env w \<and> registry_ok w"

text \<open>Objects stay, with their names and sinks.\<close>

definition world_ext :: "log_world \<Rightarrow> log_world \<Rightarrow> bool" where
  "world_ext w w' \<longleftrightarrow>
     (\<forall>k sk. lw_sinks w k = Some sk \<longrightarrow> (\<exists>sk'. lw_sinks w' k = Some sk' \<and> console sk' = console sk)) \<and>
     (\<forall>l lg. lw_loggers w l = Some lg \<longrightarrow> (\<exists>lg'. lw_loggers w' l = Some lg' \<and> lg_name lg' = lg_name lg \<and> lg_sinks lg' = lg_sinks lg))"

lemma world_ext_refl [simp]: "world_ext w w"
  by (simp add: world_ext_def)

lemma world_ext_trans: "world_ext u v \<Longrightarrow> world_ext v w \<Longrightarrow> world_ext u w"
  unfolding world_ext_def by metis

lemma handler_ok_ext: "world_ext w w' \<Longrightarrow> handler_ok w h \<Longrightarrow> handler_ok w' h"
  unfolding world_ext_def handler_ok_def by (metis option.distinct(1) option.exhaust)

lemma sinks_ok_ext: "world_ext w w' \<Longrightarrow> sinks_ok w ks \<Longrightarrow> sinks_ok w' ks"
  unfolding world_ext_def sinks_ok_def by (metis list.set_sel(2) option.collapse option.distinct(1) option.sel tl_Nil)

lemma logger_ok_ext: "world_ext w w' \<Longrightarrow> logger_ok w lg \<Longrightarrow> logger_ok w' lg"
  by (simp add: logger_ok_def handler_ok_ext sinks_ok_ext)

lemma registry_ok_ext:
  assumes "world_ext w w'" "registry_ok w" "rg_loggers w' = rg_loggers w" "rg_default w' = rg_default w"
    "rg_err_handler w' = rg_err_handler w"
  shows "registry_ok w'"
proof -
  have *: "\<exists>lg'. lw_loggers w' l = Some lg' \<and> lg_name lg' = lg_name lg" if "lw_loggers w l = Some lg" for l lg
    using assms(1) that unfolding world_ext_def by blast
  show ?thesis
    using assms(2) * handler_ok_ext [OF assms(1)] unfolding registry_ok_def assms(3-5) by fast
qed

lemma world_okD:
  assumes "world_ok env w"
  shows "lw_sinks w k = Some sk \<Longrightarrow> sink_ok env sk" "lw_loggers w l = Some lg \<Longrightarrow> logger_ok w lg"
  using assms by (simp_all add: world_ok_def objects_ok_def)

lemma put_sink_ok:
  assumes "world_ok env w" "lw_sinks w k = Some sk" "sink_ok env sk'" "console sk' = console sk"
  shows "world_ok env (put_sink k sk' w) \<and> world_ext w (put_sink k sk' w)"
proof -
  have ext: "world_ext w (put_sink k sk' w)" using assms by (simp add: world_ext_def put_sink_def)
  have "objects_ok env (put_sink k sk' w)"
    using assms(1-3) logger_ok_ext [OF ext] by (auto simp: world_ok_def objects_ok_def put_sink_def)
  moreover have "registry_ok (put_sink k sk' w)"
    using assms(1) by (intro registry_ok_ext [OF ext]) (simp_all add: world_ok_def put_sink_def)
  ultimately show ?thesis using ext by (simp add: world_ok_def)
qed

lemma put_logger_ok:
  assumes "world_ok env w" "lw_loggers w l = Some lg" "lg_name lg' = lg_name lg" "lg_sinks lg' = lg_sinks lg"
    "handler_ok w (lg_err_handler lg')"
  shows "world_ok env (put_logger l lg' w) \<and> world_ext w (put_logger l lg' w)"
proof -
  have ext: "world_ext w (put_logger l lg' w)" using assms by (simp add: world_ext_def put_logger_def)
  have "logger_ok w lg'" using assms(2,4,5) world_okD(2) [OF assms(1,2)] by (simp add: logger_ok_def)
  then have "objects_ok env (put_logger l lg' w)"
    using assms(1,2) logger_ok_ext [OF ext] by (auto simp: world_ok_def objects_ok_def put_logger_def)
  moreover have "registry_ok (put_logger l lg' w)"
    using assms(1) by (intro registry_ok_ext [OF ext]) (simp_all add: world_ok_def put_logger_def)
  ultimately show ?thesis using ext by (simp add: world_ok_def)
qed

text \<open>Fields that no object depends on.\<close>

lemmas world_defs = world_ok_def objects_ok_def registry_ok_def logger_ok_def sinks_ok_def handler_ok_def world_ext_def

lemma world_ok_fields [simp]:
  "world_ok env (w\<lparr>lw_posts := ps\<rparr>) = world_ok env w" "world_ok env (w\<lparr>lw_stderr := e\<rparr>) = world_ok env w"
  "world_ok env (w\<lparr>lw_handled := hs\<rparr>) = world_ok env w" "world_ok env (w\<lparr>rg_formatter := f\<rparr>) = world_ok env w"
  "world_ok env (w\<lparr>rg_level := v\<rparr>) = world_ok env w" "world_ok env (w\<lparr>rg_flush_level := v\<rparr>) = world_ok env w"
  "world_ok env (w\<lparr>rg_tp := tp\<rparr>) = world_ok env w" "world_ok env (w\<lparr>rg_automatic := b\<rparr>) = world_ok env w"
  by (simp_all add: world_defs)

lemma world_ext_fields [simp]:
  "world_ext w (v\<lparr>lw_posts := ps\<rparr>) = world_ext w v" "world_ext w (v\<lparr>lw_stderr := e\<rparr>) = world_ext w v"
  "world_ext w (v\<lparr>lw_handled := hs\<rparr>) = world_ext w v" "world_ext w (v\<lparr>rg_formatter := f\<rparr>) = world_ext w v"
  "world_ext w (v\<lparr>rg_level := lv\<rparr>) = world_ext w v" "world_ext w (v\<lparr>rg_flush_level := lv\<rparr>) = world_ext w v"
  "world_ext w (v\<lparr>rg_tp := tp\<rparr>) = world_ext w v" "world_ext w (v\<lparr>rg_automatic := b\<rparr>) = world_ext w v"
  "world_ext w (v\<lparr>rg_loggers := rs\<rparr>) = world_ext w v" "world_ext w (v\<lparr>rg_default := rd\<rparr>) = world_ext w v"
  "world_ext w (v\<lparr>rg_err_handler := rh\<rparr>) = world_ext w v" "world_ext w (v\<lparr>lw_next := n\<rparr>) = world_ext w v"
  by (simp_all add: world_ext_def)

section \<open>Loggers return\<close>

text \<open>A call returns, whether with an exception or not, and keeps the world well-formed; a call returns without an exception.\<close>

definition keeps_ex :: "log_env \<Rightarrow> log_world \<Rightarrow> log_world outcome \<Rightarrow> bool" where
  "keeps_ex env w r \<longleftrightarrow> (\<exists>w' ex. r = Inr (w', ex) \<and> world_ok env w' \<and> world_ext w w')"

definition keeps :: "log_env \<Rightarrow> log_world \<Rightarrow> log_world res \<Rightarrow> bool" where
  "keeps env w r \<longleftrightarrow> (\<exists>w'. r = Inr w' \<and> world_ok env w' \<and> world_ext w w')"

lemma keeps_Inr [simp]: "keeps env w (Inr w') \<longleftrightarrow> world_ok env w' \<and> world_ext w w'"
  by (simp add: keeps_def)

lemma keeps_ex_simps [simp]:
  "keeps_ex env w (ok w') \<longleftrightarrow> world_ok env w' \<and> world_ext w w'" "keeps_ex env w (throw what w') \<longleftrightarrow> world_ok env w' \<and> world_ext w w'"
  by (simp_all add: keeps_ex_def ok_def throw_def)

lemma keeps_bind:
  assumes "keeps env w m" "\<And>w'. world_ok env w' \<Longrightarrow> world_ext w w' \<Longrightarrow> keeps env w' (f w')"
  shows "keeps env w (res_bind m f)"
  using assms unfolding keeps_def by (metis res_bind_Inr world_ext_trans)

lemma keeps_bind_ok: "keeps env w m \<Longrightarrow> keeps_ex env w (res_bind m ok)"
  by (auto simp: keeps_def)

lemma get_logger_Some: "lw_loggers w l = Some lg \<Longrightarrow> get_logger l w = Inr lg"
  by (simp add: get_logger_def)

lemma get_sink_Some: "lw_sinks w k = Some sk \<Longrightarrow> get_sink k w = Inr sk"
  by (simp add: get_sink_def)

lemma modify_logger_keeps:
  assumes "world_ok env w" "lw_loggers w l = Some lg" "lg_name (f lg) = lg_name lg" "lg_sinks (f lg) = lg_sinks lg"
    "handler_ok w (lg_err_handler (f lg))"
  shows "keeps env w (modify_logger f l w)"
  using put_logger_ok [OF assms] assms(2) by (simp add: modify_logger_def get_logger_Some)

lemma sinks_set_formatter_keeps:
  assumes "world_ok env w" "\<forall>k \<in> set ks. lw_sinks w k \<noteq> None"
  shows "keeps env w (sinks_set_formatter f ks w)"
  using assms
proof (induction ks arbitrary: w)
  case (Cons k ks)
  then obtain sk where sk: "lw_sinks w k = Some sk" by auto
  let ?sk = "sink_set_formatter (pattern_formatter_clone f) sk" and ?w = "put_sink k (sink_set_formatter (pattern_formatter_clone f) sk) w"
  have "sink_ok env ?sk" "console ?sk = console sk"
    using world_okD(1) [OF Cons.prems(1) sk] by (simp_all add: sink_ok_def sink_set_formatter_def pattern_inv_clone console_def)
  from put_sink_ok [OF Cons.prems(1) sk this] have w: "world_ok env ?w" "world_ext w ?w" by simp_all
  moreover have "\<forall>k \<in> set ks. lw_sinks ?w k \<noteq> None" using Cons.prems(2) by (simp add: put_sink_def)
  ultimately have "keeps env ?w (sinks_set_formatter f ks ?w)" using Cons.IH by blast
  then show ?case using w(2) world_ext_trans by (auto simp: get_sink_Some [OF sk] keeps_def)
qed simp

lemma logger_set_formatter_keeps:
  assumes "world_ok env w" "lw_loggers w l = Some lg"
  shows "keeps env w (logger_set_formatter f l w)"
  using sinks_set_formatter_keeps [OF assms(1)] world_okD(2) [OF assms] get_logger_Some [OF assms(2)]
  by (simp add: logger_set_formatter_def logger_ok_def sinks_ok_def)

lemma sinks_flush_keeps:
  assumes "world_ok env w" "\<forall>k \<in> set ks. lw_sinks w k \<noteq> None"
  shows "keeps env w (sinks_flush ks w)"
  using assms
proof (induction ks arbitrary: w)
  case (Cons k ks)
  then obtain sk where sk: "lw_sinks w k = Some sk" by auto
  let ?w = "put_sink k (sink_flush sk) w"
  have "sink_ok env (sink_flush sk)" "console (sink_flush sk) = console sk"
    using world_okD(1) [OF Cons.prems(1) sk]
    by (auto simp: sink_ok_def sink_flush_def file_helper_flush_def console_def split: sink_target.splits)
  from put_sink_ok [OF Cons.prems(1) sk this] have w: "world_ok env ?w" "world_ext w ?w" by simp_all
  moreover have "\<forall>k \<in> set ks. lw_sinks ?w k \<noteq> None" using Cons.prems(2) by (simp add: put_sink_def)
  ultimately have "keeps env ?w (sinks_flush ks ?w)" using Cons.IH by blast
  then show ?case using w(2) world_ext_trans by (auto simp: get_sink_Some [OF sk] keeps_def)
qed simp

text \<open>The environment of a call: memory buffers, a time after the first second of the epoch, fields that fit their types.\<close>

definition call_ok :: "log_call \<Rightarrow> bool" where
  "call_ok c \<longleftrightarrow> log_env_ok (lc_env c) \<and> env_contiguous (le_fmt (lc_env c)) \<and> to_secs (lc_now c) \<noteq> 0 \<and>
     - (2 ^ 63) \<le> lc_now c \<and> lc_now c < 2 ^ 63 \<and> lc_tid c < 2 ^ 64"

lemma make_msg_timed:
  "call_ok c \<Longrightarrow> sl_line src < 2 ^ 32 \<Longrightarrow> msg_timed (make_msg c src lg lvl view) \<and> lm_color_end (make_msg c src lg lvl view) = 0"
  by (simp add: call_ok_def msg_timed_def msg_ok_def make_msg_def log_msg_new_def)

lemma sinks_ok_Cons: "sinks_ok w (k # ks) \<Longrightarrow> sinks_ok w ks \<and> (\<forall>k \<in> set ks. \<not> console (the (lw_sinks w k)))"
  by (cases ks) (simp_all add: sinks_ok_def)

lemma sinks_log_total:
  assumes "log_env_ok (lc_env c)" "world_ok (lc_env c) w" "msg_timed msg" "sinks_ok w ks"
    and "ks \<noteq> [] \<Longrightarrow> console (the (lw_sinks w (hd ks))) \<Longrightarrow> lm_color_end msg = 0"
  shows "\<exists>w' msg' ex. sinks_log c ks (w, msg) = Inr ((w', msg'), ex) \<and> world_ok (lc_env c) w' \<and> world_ext w w' \<and>
    lm_level msg' = lm_level msg"
  using assms(2-5)
proof (induction ks arbitrary: w msg)
  case Nil
  then show ?case by (simp add: ok_def)
next
  case (Cons k ks)
  obtain sk where sk: "lw_sinks w k = Some sk" using Cons.prems(3) by (auto simp: sinks_ok_def)
  note rest = sinks_ok_Cons [OF Cons.prems(3)]
  have hd_rest: "ks \<noteq> [] \<Longrightarrow> \<not> console (the (lw_sinks w (hd ks)))" using rest by simp
  show ?case
  proof (cases "sink_should_log (lm_level msg) sk")
    case False
    then show ?thesis
      using Cons.IH [OF Cons.prems(1,2) conjunct1 [OF rest]] hd_rest by (simp add: get_sink_Some [OF sk])
  next
    case True
    obtain sk' msg' ex where s: "sink_log (lc_env c) (lc_os c) (sk, msg) = Inr ((sk', msg'), ex)" "sink_ok (lc_env c) sk'"
      "console sk' = console sk" "msg_timed msg'" "lm_level msg' = lm_level msg"
      using sink_log_total [OF world_okD(1) [OF Cons.prems(1) sk] assms(1) Cons.prems(2), of "lc_os c"] Cons.prems(4) sk
      by (auto simp: same_sink_def)
    let ?w = "put_sink k sk' w"
    have w: "world_ok (lc_env c) ?w" "world_ext w ?w" using put_sink_ok [OF Cons.prems(1) sk s(2,3)] by simp_all
    have "\<not> console (the (lw_sinks ?w (hd ks)))" if "ks \<noteq> []"
      using hd_rest [OF that] s(3) sk by (auto simp: put_sink_def)
    from Cons.IH [OF w(1) s(4) sinks_ok_ext [OF w(2) conjunct1 [OF rest]]] this
    obtain w' m' ex' where r: "sinks_log c ks (?w, msg') = Inr ((w', m'), ex')" "world_ok (lc_env c) w'" "world_ext ?w w'"
      "lm_level m' = lm_level msg'" by blast
    show ?thesis
    proof (cases ex)
      case None
      then show ?thesis
        using r s(1,5) True world_ext_trans [OF w(2) r(3)] by (simp add: get_sink_Some [OF sk] and_then_def)
    next
      case (Some what)
      then show ?thesis
        using s(1,5) True w by (simp add: get_sink_Some [OF sk] and_then_def throw_def)
    qed
  qed
qed

text \<open>The line of the default handler is formatted without an exception.\<close>

lemma error_line:
  "format_to env [] (''[*** LOG ERROR ***] [{}] [{}] {}'' @ [CHR 0x0A])
     [Plain (Arg_cstring 1 date), Plain (Arg_string nm), Plain (Arg_string what)] =
   Inr (''[*** LOG ERROR ***] ['' @ date @ ''] ['' @ nm @ ''] '' @ what @ [CHR 0x0A])"
proof -
  let ?ts = "map Chr ''[*** LOG ERROR ***] ['' @ [Auto_field] @ map Chr ''] ['' @ [Auto_field] @ map Chr ''] '' @ [Auto_field, Chr (CHR 0x0A)]"
  let ?as = "[Plain (Arg_cstring 1 date), Plain (Arg_string nm), Plain (Arg_string what)]"
  have "format_to env [] (render ?ts) ?as = Inr ([] @ tokens_text ?as 0 ?ts)"
    by (rule format_to_tokens) (auto simp: store_ok_def deserialize_def)
  then show ?thesis by (simp add: deserialize_def)
qed

lemma default_err_handler_keeps:
  assumes "world_ok env w" "lw_loggers w l = Some lg"
  shows "keeps env w (default_err_handler c what l w)"
proof -
  let ?lg = "lg\<lparr>lg_last_err_time := to_secs (lc_now c)\<rparr>"
  have "handler_ok w (lg_err_handler lg)" using world_okD(2) [OF assms] by (simp add: logger_ok_def)
  then have "world_ok env (put_logger l ?lg w) \<and> world_ext w (put_logger l ?lg w)"
    using put_logger_ok [OF assms, of ?lg] by simp
  then show ?thesis
    using assms by (simp add: default_err_handler_def get_logger_Some error_line [simplified] Let_def)
qed

lemma err_handler_keeps:
  assumes "world_ok env w" "lw_loggers w l = Some lg"
  shows "keeps env w (err_handler c what l w)"
proof (cases "lg_err_handler lg")
  case (Default_of d)
  then have "lw_loggers w d \<noteq> None" using world_okD(2) [OF assms] by (simp add: logger_ok_def handler_ok_def)
  then obtain lg' where "lw_loggers w d = Some lg'" by blast
  from default_err_handler_keeps [OF assms(1) this] show ?thesis
    using Default_of by (simp add: err_handler_def get_logger_Some [OF assms(2)])
next
  case (Custom h)
  then show ?thesis using assms(1) by (simp add: err_handler_def get_logger_Some [OF assms(2)])
qed

lemma catch_and_handle_keeps:
  assumes "keeps_ex env w m" "lw_loggers w l = Some lg"
  shows "keeps env w (catch_and_handle c l m)"
proof -
  obtain w' ex where m: "m = Inr (w', ex)" "world_ok env w'" "world_ext w w'" using assms(1) unfolding keeps_ex_def by blast
  obtain lg' where "lw_loggers w' l = Some lg'" using m(3) assms(2) unfolding world_ext_def by blast
  then have "keeps env w' (err_handler c what l w')" for what using err_handler_keeps m(2) by blast
  then show ?thesis
    using m world_ext_trans [OF m(3)] by (auto simp: catch_and_handle_def keeps_def split: option.splits)
qed

lemma logger_flush_virtual_keeps:
  assumes "world_ok env w" "lw_loggers w l = Some lg"
  shows "keeps_ex env w (logger_flush_virtual l w)"
proof (cases "lg_async lg")
  case None
  have "keeps env w (sinks_flush (lg_sinks lg) w)"
    using world_okD(2) [OF assms] sinks_flush_keeps [OF assms(1)] by (simp add: logger_ok_def sinks_ok_def)
  then show ?thesis using None by (simp add: logger_flush_virtual_def get_logger_Some [OF assms(2)] keeps_bind_ok)
next
  case (Some a)
  then show ?thesis
    using assms(1) by (cases a) (simp add: logger_flush_virtual_def get_logger_Some [OF assms(2)] async_flush_def catching_def)
qed

lemma logger_sink_it_keeps:
  assumes "call_ok c" "world_ok (lc_env c) w" "lw_loggers w l = Some lg" "msg_timed msg" "lm_color_end msg = 0"
  shows "keeps_ex (lc_env c) w (logger_sink_it c l msg w)"
proof (cases "lg_async lg")
  case None
  have "sinks_ok w (lg_sinks lg)" using world_okD(2) [OF assms(2,3)] by (simp add: logger_ok_def)
  with assms(1,2,4,5) obtain w' msg' ex where s: "sinks_log c (lg_sinks lg) (w, msg) = Inr ((w', msg'), ex)"
    "world_ok (lc_env c) w'" "world_ext w w'"
    using sinks_log_total [of c w msg "lg_sinks lg"] by (auto simp: call_ok_def)
  obtain lg' where "lw_loggers w' l = Some lg'" using s(3) assms(3) unfolding world_ext_def by blast
  from logger_flush_virtual_keeps [OF s(2) this] have "keeps_ex (lc_env c) w (logger_flush_virtual l w')"
    using world_ext_trans [OF s(3)] by (auto simp: keeps_ex_def)
  then show ?thesis using None s by (cases ex) (simp_all add: logger_sink_it_def get_logger_Some [OF assms(3)])
next
  case (Some a)
  then show ?thesis
    using assms(2) by (cases a) (simp add: logger_sink_it_def get_logger_Some [OF assms(3)] async_sink_it_def catching_def)
qed

lemma logger_log_text_keeps:
  assumes "call_ok c" "world_ok (lc_env c) w" "lw_loggers w l = Some lg" "sl_line src < 2 ^ 32"
  shows "keeps (lc_env c) w (logger_log_text c l src lvl s w)"
  using catch_and_handle_keeps [OF logger_sink_it_keeps [OF assms(1-3)] assms(3)] make_msg_timed [OF assms(1,4)] assms(2)
  by (simp add: logger_log_text_def get_logger_Some [OF assms(3)])

lemma logger_log_fmt_keeps:
  assumes "call_ok c" "world_ok (lc_env c) w" "lw_loggers w l = Some lg" "sl_line src < 2 ^ 32" "store_ok args"
  shows "keeps (lc_env c) w (logger_log_fmt c l src lvl fmt args w)"
proof -
  have "fmt_safe (format_to (le_fmt (lc_env c)) [] fmt args)"
    using assms(1,5) unfolding format_to_def vformat_to_def call_ok_def
    by (intro fmt_safe_bind parse_format_string_safe) simp_all
  then have "keeps_ex (lc_env c) w (catching w (format_to (le_fmt (lc_env c)) [] fmt args)
      (\<lambda>buf. logger_sink_it c l (make_msg c src lg lvl buf) w))"
    using logger_sink_it_keeps [OF assms(1-3)] make_msg_timed [OF assms(1,4)] assms(2)
    by (auto simp: fmt_safe_def catching_def split: sum.splits cpp_error.splits)
  from catch_and_handle_keeps [OF this assms(3)] show ?thesis
    using assms(2) by (simp add: logger_log_fmt_def get_logger_Some [OF assms(3)])
qed

lemma logger_log_keeps:
  assumes "call_ok c" "world_ok (lc_env c) w" "lw_loggers w l = Some lg" "store_ok args"
  shows "keeps (lc_env c) w (logger_log c l lvl fmt args w)"
  using logger_log_text_keeps [OF assms(1-3)] logger_log_fmt_keeps [OF assms(1-3) _ assms(4)]
  by (simp add: logger_log_def no_source_def)

lemma logger_flush_keeps:
  "world_ok env w \<Longrightarrow> lw_loggers w l = Some lg \<Longrightarrow> keeps env w (logger_flush c l w)"
  by (simp add: logger_flush_def catch_and_handle_keeps logger_flush_virtual_keeps)

lemma backend_flush_keeps:
  assumes "world_ok env w" "lw_loggers w l = Some lg"
  shows "keeps env w (backend_flush c l w)"
proof -
  have "keeps env w (sinks_flush (lg_sinks lg) w)"
    using world_okD(2) [OF assms] sinks_flush_keeps [OF assms(1)] by (simp add: logger_ok_def sinks_ok_def)
  from catch_and_handle_keeps [OF keeps_bind_ok [OF this] assms(2)] show ?thesis
    by (simp add: backend_flush_def get_logger_Some [OF assms(2)])
qed

lemma backend_log_keeps:
  assumes "call_ok c" "world_ok (lc_env c) w" "lw_loggers w l = Some lg" "msg_timed msg" "lm_color_end msg = 0"
  shows "keeps (lc_env c) w (backend_log c l msg w)"
proof -
  have "sinks_ok w (lg_sinks lg)" using world_okD(2) [OF assms(2,3)] by (simp add: logger_ok_def)
  with assms(1,2,4,5) have "keeps_ex (lc_env c) w
      (res_bind (sinks_log c (lg_sinks lg) (w, msg)) (\<lambda>((w, msg), ex). Inr (w, ex)))"
    using sinks_log_total [of c w msg "lg_sinks lg"] by (auto simp: call_ok_def keeps_ex_def)
  note k = catch_and_handle_keeps [OF this assms(3)]
  have "keeps (lc_env c) w' (if logger_should_flush msg lg then backend_flush c l w' else Inr w')"
    if "world_ok (lc_env c) w'" "world_ext w w'" for w'
    using that backend_flush_keeps [of "lc_env c" w' l] assms(3) unfolding world_ext_def by fastforce
  from keeps_bind [OF k this] show ?thesis by (simp add: backend_log_def get_logger_Some [OF assms(3)])
qed

section \<open>The registry keeps its invariant\<close>

lemma for_loggers_keeps:
  assumes "world_ok env w"
    and f: "\<And>w' l lg. world_ok env w' \<Longrightarrow> world_ext w w' \<Longrightarrow> lw_loggers w' l = Some lg \<Longrightarrow> keeps env w' (f l w')"
  shows "keeps env w (for_loggers f w)"
proof -
  have "keeps env v (res_fold (\<lambda>p. f (snd p)) ps v)"
    if "world_ok env v" "world_ext w v" "\<forall>p \<in> set ps. lw_loggers w (snd p) \<noteq> None" for ps v
    using that
  proof (induction ps arbitrary: v)
    case (Cons p ps)
    then obtain lg where "lw_loggers v (snd p) = Some lg"
      unfolding world_ext_def by (metis list.set_intros(1) option.exhaust)
    from f [OF Cons.prems(1,2) this] show ?case
      using Cons.IH Cons.prems world_ext_trans [OF Cons.prems(2)] by (simp add: keeps_bind)
  qed simp
  moreover have "\<forall>p \<in> set (rg_loggers w). lw_loggers w (snd p) \<noteq> None"
    using assms(1) by (fastforce simp: world_ok_def registry_ok_def)
  ultimately show ?thesis using assms(1) world_ext_refl unfolding for_loggers_def by blast
qed

lemma make_shared_sink_ok:
  assumes "world_ok env w" "sink_ok env sk" "make_shared_sink sk w = (k, w')"
  shows "world_ok env w'" "world_ext w w'" "lw_sinks w' k = Some sk"
proof -
  have w': "w' = (put_sink k sk w)\<lparr>lw_next := Suc k\<rparr>" "k = lw_next w" using assms(3) by (auto simp: make_shared_sink_def)
  have old: "lw_sinks w k' = Some sk' \<Longrightarrow> k' \<noteq> k" for k' sk' using assms(1) w'(2) by (auto simp: world_ok_def objects_ok_def)
  show ext: "world_ext w w'" using old by (auto simp: w'(1) world_ext_def put_sink_def)
  show "lw_sinks w' k = Some sk" by (simp add: w'(1) put_sink_def)
  have "objects_ok env w'"
    using assms(1,2) logger_ok_ext [OF ext] w'(2) less_Suc_eq by (auto simp: w'(1) world_ok_def objects_ok_def put_sink_def)
  moreover have "registry_ok w'"
    using assms(1) by (intro registry_ok_ext [OF ext]) (simp_all add: w'(1) world_ok_def put_sink_def)
  ultimately show "world_ok env w'" by (simp add: world_ok_def)
qed

lemma make_shared_logger_ok:
  assumes "world_ok env w" "make_shared_logger ctor w = (l, w')" "sinks_ok w (lg_sinks (ctor l))"
    "lg_err_handler (ctor l) = Default_of l \<or> handler_ok w (lg_err_handler (ctor l))"
  shows "world_ok env w'" "world_ext w w'" "lw_loggers w' l = Some (ctor l)"
proof -
  have w': "w' = (put_logger l (ctor l) w)\<lparr>lw_next := Suc l\<rparr>" "l = lw_next w" using assms(2) by (auto simp: make_shared_logger_def)
  have old: "lw_loggers w l' = Some lg' \<Longrightarrow> l' \<noteq> l" for l' lg' using assms(1) w'(2) by (auto simp: world_ok_def objects_ok_def)
  show ext: "world_ext w w'" using old by (auto simp: w'(1) world_ext_def put_logger_def)
  show new: "lw_loggers w' l = Some (ctor l)" by (simp add: w'(1) put_logger_def)
  have "handler_ok w' (lg_err_handler (ctor l))"
    using assms(4) handler_ok_ext [OF ext] new by (auto simp: handler_ok_def)
  then have "logger_ok w' (ctor l)" using sinks_ok_ext [OF ext assms(3)] by (simp add: logger_ok_def)
  then have "objects_ok env w'"
    using assms(1) logger_ok_ext [OF ext] w'(2) less_Suc_eq by (auto simp: w'(1) world_ok_def objects_ok_def put_logger_def)
  moreover have "registry_ok w'"
    using assms(1) by (intro registry_ok_ext [OF ext]) (simp_all add: w'(1) world_ok_def put_logger_def)
  ultimately show "world_ok env w'" by (simp add: world_ok_def)
qed

text \<open>Changes of the map from names to loggers.\<close>

lemma map_put_ok:
  assumes "world_ok env w" "lw_loggers w l = Some lg"
  shows "world_ok env (w\<lparr>rg_loggers := map_put (lg_name lg) l (rg_loggers w)\<rparr>)"
  using assms by (auto simp: world_defs map_put_def distinct_map inj_on_def)

lemma map_erase_ok: "world_ok env w \<Longrightarrow> world_ok env (w\<lparr>rg_loggers := map_erase nm (rg_loggers w)\<rparr>)"
  by (auto simp: world_defs map_erase_def distinct_map inj_on_def)

lemma rg_default_ok:
  "world_ok env w \<Longrightarrow> (\<And>d. dl = Some d \<Longrightarrow> lw_loggers w d \<noteq> None) \<Longrightarrow> world_ok env (w\<lparr>rg_default := dl\<rparr>)"
  by (auto simp: world_defs)

text \<open>A call fails only with an exception of the library.\<close>

definition keeps_or_ex :: "log_env \<Rightarrow> log_world \<Rightarrow> log_world res \<Rightarrow> bool" where
  "keeps_or_ex env w r \<longleftrightarrow> keeps env w r \<or> (\<exists>what. r = Inl (Spdlog_ex what))"

lemma keeps_or_ex_bind:
  assumes "keeps_or_ex env w m" "\<And>w'. world_ok env w' \<Longrightarrow> world_ext w w' \<Longrightarrow> keeps_or_ex env w' (f w')"
  shows "keeps_or_ex env w (res_bind m f)"
proof (cases m)
  case (Inl e)
  then show ?thesis using assms(1) by (simp add: keeps_or_ex_def keeps_def)
next
  case (Inr w')
  then have w': "world_ok env w'" "world_ext w w'" using assms(1) by (simp_all add: keeps_or_ex_def)
  from assms(2) [OF this] show ?thesis using Inr world_ext_trans [OF w'(2)] by (auto simp: keeps_or_ex_def keeps_def)
qed

text \<open>In a sequence of statements, each is a call in a world that extends the first.\<close>

lemma keeps_or_ex_seq:
  assumes "\<And>v. world_ok env v \<Longrightarrow> world_ext w v \<Longrightarrow> keeps env v (m v)"
    and "\<And>v. world_ok env v \<Longrightarrow> world_ext w v \<Longrightarrow> keeps_or_ex env v (f v)"
    and "world_ok env u" "world_ext w u"
  shows "keeps_or_ex env u (res_bind (m u) f)"
  using assms world_ext_trans [OF assms(4)] by (intro keeps_or_ex_bind) (simp_all add: keeps_or_ex_def)

lemma keeps_or_exI: "keeps env w r \<Longrightarrow> keeps_or_ex env w r"
  by (simp add: keeps_or_ex_def)

lemma register_logger_keeps:
  assumes "world_ok env w" "lw_loggers w l = Some lg"
  shows "keeps_or_ex env w (register_logger l w)"
  using map_put_ok [OF assms] by (simp add: register_logger_def get_logger_Some [OF assms(2)] throw_if_exists_def keeps_or_ex_def)

lemma world_ext_logger: "world_ext w w' \<Longrightarrow> lw_loggers w l = Some lg \<Longrightarrow> \<exists>lg'. lw_loggers w' l = Some lg'"
  unfolding world_ext_def by blast

lemma set_error_handler_keeps:
  assumes "world_ok env w" "lw_loggers w l = Some lg" "handler_ok w h"
  shows "keeps env w (modify_logger (logger_set_error_handler h) l w)"
  using assms by (intro modify_logger_keeps) (simp_all add: logger_set_error_handler_def)

lemma set_levels_keep:
  assumes "world_ok env w" "lw_loggers w l = Some lg"
  shows "keeps env w (modify_logger (logger_set_level lvl) l w)" "keeps env w (modify_logger (logger_flush_on lvl) l w)"
  using world_okD(2) [OF assms]
  by (auto intro!: modify_logger_keeps [OF assms] simp: logger_set_level_def logger_flush_on_def logger_ok_def)

lemma initialize_logger_keeps:
  assumes "world_ok env w" "lw_loggers w l = Some lg"
  shows "keeps_or_ex env w (initialize_logger l w)"
proof -
  note e = world_ext_logger
  have h: "keeps env v (case rg_err_handler v of None \<Rightarrow> Inr v | Some h \<Rightarrow> modify_logger (logger_set_error_handler h) l v)"
    if "world_ok env v" "world_ext w v" for v
    using that e [OF that(2) assms(2)] set_error_handler_keeps [OF that(1)]
    by (auto simp: world_ok_def registry_ok_def split: option.splits)
  have "keeps_or_ex env v (if rg_automatic v then register_logger l v else Inr v)" if "world_ok env v" "world_ext w v" for v
    using that e [OF that(2) assms(2)] register_logger_keeps by (auto simp: keeps_or_ex_def)
  moreover have "keeps env v (modify_logger (logger_set_level lvl) l v)" "keeps env v (modify_logger (logger_flush_on lvl) l v)"
    if "world_ok env v" "world_ext w v" for v lvl
    using that e [OF that(2) assms(2)] set_levels_keep by blast+
  moreover have "keeps env v (logger_set_formatter (pattern_formatter_clone (rg_formatter v)) l v)"
    if "world_ok env v" "world_ext w v" for v
    using that e [OF that(2) assms(2)] logger_set_formatter_keeps by blast
  ultimately have "keeps_or_ex env w (initialize_logger l w)"
    unfolding initialize_logger_def using assms(1) world_ext_refl
    by - (rule keeps_or_ex_seq [where w = w and m = "\<lambda>v. logger_set_formatter (pattern_formatter_clone (rg_formatter v)) l v"], assumption,
      rule keeps_or_ex_seq [where w = w and m = "\<lambda>v. case rg_err_handler v of None \<Rightarrow> Inr v | Some h \<Rightarrow> modify_logger (logger_set_error_handler h) l v"], rule h, assumption+,
      rule keeps_or_ex_seq [where w = w and m = "\<lambda>v. modify_logger (logger_set_level (rg_level v)) l v"], assumption,
      rule keeps_or_ex_seq [where w = w and m = "\<lambda>v. modify_logger (logger_flush_on (rg_flush_level v)) l v"], assumption+)
  then show ?thesis .
qed

lemma registry_set_formatter_keeps: "world_ok env w \<Longrightarrow> keeps env w (registry_set_formatter f w)"
  unfolding registry_set_formatter_def Let_def
  using for_loggers_keeps [of env "w\<lparr>rg_formatter := f\<rparr>" "logger_set_formatter (pattern_formatter_clone f)"] logger_set_formatter_keeps
  by (simp add: keeps_def world_ext_def)

lemma registry_levels_keep:
  assumes "world_ok env w"
  shows "keeps env w (registry_set_level lvl w)" "keeps env w (registry_flush_on lvl w)"
  unfolding registry_set_level_def registry_flush_on_def
  by (intro keeps_bind for_loggers_keeps assms set_levels_keep; simp)+

lemma registry_set_error_handler_keeps:
  assumes "world_ok env w" "handler_ok w h"
  shows "keeps env w (registry_set_error_handler h w)"
proof -
  have "keeps env w (for_loggers (modify_logger (logger_set_error_handler h)) w)"
    by (intro for_loggers_keeps assms(1) set_error_handler_keeps) (use assms(2) handler_ok_ext in blast)+
  moreover have "world_ok env (v\<lparr>rg_err_handler := Some h\<rparr>)" if "world_ok env v" "world_ext w v" for v
    using that handler_ok_ext [OF that(2) assms(2)] by (auto simp: world_defs)
  ultimately show ?thesis unfolding registry_set_error_handler_def by (intro keeps_bind) simp_all
qed

lemma registry_flush_all_keeps: "world_ok env w \<Longrightarrow> keeps env w (registry_flush_all c w)"
  unfolding registry_flush_all_def by (intro for_loggers_keeps logger_flush_keeps)

lemma registry_drop_keeps:
  assumes "world_ok env w"
  shows "keeps env w (registry_drop nm w)"
proof -
  let ?w = "w\<lparr>rg_loggers := map_erase nm (rg_loggers w)\<rparr>"
  have ok: "world_ok env ?w" "world_ok env (?w\<lparr>rg_default := None\<rparr>)" using map_erase_ok [OF assms] rg_default_ok by blast+
  show ?thesis
  proof (cases "rg_default w")
    case None
    then show ?thesis using ok(1) by (simp add: registry_drop_def Let_def)
  next
    case (Some d)
    then obtain lg where "lw_loggers w d = Some lg" using assms by (auto simp: world_ok_def registry_ok_def)
    then show ?thesis using Some ok by (simp add: registry_drop_def Let_def get_logger_def)
  qed
qed

lemma registry_drop_all_ok: "world_ok env w \<Longrightarrow> world_ok env (registry_drop_all w) \<and> world_ext w (registry_drop_all w)"
  by (auto simp: registry_drop_all_def world_defs)

lemma set_default_logger_keeps:
  assumes "world_ok env w" "\<And>d. dl = Some d \<Longrightarrow> lw_loggers w d \<noteq> None"
  shows "keeps env w (set_default_logger dl w)"
proof -
  let ?m = "case rg_default w of None \<Rightarrow> Inr w
    | Some d \<Rightarrow> res_bind (get_logger d w) (\<lambda>lg. Inr (w\<lparr>rg_loggers := map_erase (lg_name lg) (rg_loggers w)\<rparr>))"
  have "keeps env w ?m"
    using assms(1) map_erase_ok [OF assms(1)]
    by (auto simp: world_ok_def registry_ok_def get_logger_def split: option.splits)
  moreover have "keeps env v (res_bind (case dl of None \<Rightarrow> Inr v
      | Some d \<Rightarrow> res_bind (get_logger d v) (\<lambda>lg. Inr (v\<lparr>rg_loggers := map_put (lg_name lg) d (rg_loggers v)\<rparr>)))
      (\<lambda>w. Inr (w\<lparr>rg_default := dl\<rparr>)))" if v: "world_ok env v" "world_ext w v" for v
  proof (cases dl)
    case None
    then show ?thesis using rg_default_ok [OF v(1), of None] by simp
  next
    case (Some d)
    then obtain lg where lg: "lw_loggers v d = Some lg" using assms(2) world_ext_logger [OF v(2)] by blast
    from rg_default_ok [OF map_put_ok [OF v(1) lg], of dl] show ?thesis
      using Some lg by (simp add: get_logger_Some [OF lg])
  qed
  ultimately show ?thesis unfolding set_default_logger_def by (rule keeps_bind)
qed

text \<open>Creating a logger also returns its address.\<close>

definition created :: "log_env \<Rightarrow> log_world \<Rightarrow> (nat \<times> log_world) res \<Rightarrow> bool" where
  "created env w r \<longleftrightarrow> keeps_or_ex env w (res_bind r (\<lambda>(l, w). Inr w))"

lemma created_Inl [simp]: "created env w (Inl (Spdlog_ex what))"
  by (simp add: created_def keeps_or_ex_def)

lemma created_ext: "world_ext w v \<Longrightarrow> created env v r \<Longrightarrow> created env w r"
  unfolding created_def keeps_or_ex_def keeps_def using world_ext_trans by blast

lemma create_keeps:
  assumes "world_ok env w" "sink_ok env sk" "\<And>l k. lg_sinks (ctor k l) = [k] \<and> lg_err_handler (ctor k l) = Default_of l"
  shows "created env w (let (k, w) = make_shared_sink sk w; (l, w) = make_shared_logger (ctor k) w
     in res_bind (initialize_logger l w) (\<lambda>w. Inr (l, w)))"
proof -
  obtain k v where s: "make_shared_sink sk w = (k, v)" by fastforce
  obtain l u where l: "make_shared_logger (ctor k) v = (l, u)" by fastforce
  note v = make_shared_sink_ok [OF assms(1,2) s]
  have "sinks_ok v (lg_sinks (ctor k l))" using v(3) assms(3) by (simp add: sinks_ok_def)
  note u = make_shared_logger_ok [OF v(1) l this disjI1 [OF conjunct2 [OF assms(3)]]]
  from initialize_logger_keeps [OF u(1,3)] have "keeps_or_ex env w (initialize_logger l u)"
    using world_ext_trans [OF v(2) world_ext_trans [OF u(2)]] by (auto simp: keeps_or_ex_def keeps_def)
  then show ?thesis
    by (cases "initialize_logger l u") (simp_all add: created_def s l)
qed

lemma ansicolor_sink_ok: "sink_ok env (ansicolor_sink_new os)"
  by (simp add: ansicolor_sink_new_def sink_new_def sink_ok_def pattern_inv_default)

lemma file_sink_ok: "sink_ok env (sink_new (File_target fh)) = fh_fd fh"
  by (simp add: sink_new_def sink_ok_def pattern_inv_default)

lemma stdout_color_mt_keeps: "world_ok env w \<Longrightarrow> created env w (stdout_color_mt os nm w)"
  using create_keeps [OF _ ansicolor_sink_ok, of env w "\<lambda>k. logger_new nm [k]" os]
  by (simp add: stdout_color_mt_def synchronous_create_def logger_new_def)

lemma init_thread_pool_ok: "world_ok env w \<Longrightarrow> world_ok env (init_thread_pool w) \<and> world_ext w (init_thread_pool w)"
  by (fastforce simp: init_thread_pool_def registry_set_tp_def world_defs)

lemma basic_logger_mt_async_keeps:
  assumes "world_ok env w"
  shows "created env w (basic_logger_mt_async os nm fname w)"
proof -
  let ?w = "if rg_tp w = None then init_thread_pool w else w"
  have w: "world_ok env ?w" "world_ext w ?w" using assms init_thread_pool_ok by auto
  have "created env ?w (let (k, w) = make_shared_sink sk ?w; (l, w) = make_shared_logger (async_logger_new nm [k] (the (rg_tp w)) policy_block) w
     in res_bind (initialize_logger l w) (\<lambda>w. Inr (l, w)))" if "sink_ok env sk" for sk
    using create_keeps [OF w(1) that, of "\<lambda>k. async_logger_new nm [k] (the (rg_tp ?w)) policy_block"]
    by (simp add: async_logger_new_def logger_new_def make_shared_sink_def put_sink_def)
  from created_ext [OF w(2) this] show ?thesis
    by (simp add: basic_logger_mt_async_def async_create_def file_sink_new_eq Let_def file_sink_ok)
qed

lemma logger_clone_keeps:
  assumes "world_ok env w" "lw_loggers w l = Some lg"
  shows "created env w (logger_clone nm l w)"
proof -
  let ?c = "\<lambda>this. logger_set_error_handler (lg_err_handler lg) (logger_flush_on (lg_flush_level lg) (logger_set_level (lg_level lg)
    ((logger_new nm (lg_sinks lg) this)\<lparr>lg_async := lg_async lg\<rparr>)))"
  obtain l' w' where m: "make_shared_logger ?c w = (l', w')" by fastforce
  have "sinks_ok w (lg_sinks (?c l'))" "handler_ok w (lg_err_handler (?c l'))"
    using world_okD(2) [OF assms]
    by (simp_all add: logger_ok_def logger_set_error_handler_def logger_flush_on_def logger_set_level_def logger_new_def)
  from make_shared_logger_ok [OF assms(1) m this(1) disjI2 [OF this(2)]] show ?thesis
    by (simp add: logger_clone_def get_logger_Some [OF assms(2)] m created_def keeps_or_ex_def)
qed

section \<open>Programs that log\<close>

text \<open>The calls of a program, and what the thread of the pool runs.\<close>

datatype api_call =
    Stdout_color_mt string
  | Basic_logger_mt_async string string
  | New_logger string "nat list"
  | Clone nat string
  | Initialize_logger nat
  | Register_logger nat
  | Set_formatter pattern_formatter
  | Set_pattern string pattern_time_type
  | Set_level level_enum
  | Flush_on level_enum
  | Set_error_handler err_fn
  | Set_automatic_registration bool
  | Set_default_logger "nat option"
  | Drop_logger string
  | Drop_all
  | Shutdown
  | Init_thread_pool
  | Flush_all
  | Spdlog_log level_enum string "store_arg list"
  | Logger_set_pattern nat string pattern_time_type
  | Logger_set_level nat level_enum
  | Logger_flush_on nat level_enum
  | Logger_set_error_handler nat err_fn
  | Logger_log nat level_enum string "store_arg list"
  | Logger_log_text nat source_loc level_enum string
  | Logger_log_fmt nat source_loc level_enum string "store_arg list"
  | Logger_flush nat
  | Backend backend_call

definition world_of :: "(nat \<times> log_world) res \<Rightarrow> log_world res" where
  "world_of r = res_bind r (\<lambda>(l, w). Inr w)"

fun api_exec :: "log_call \<Rightarrow> api_call \<Rightarrow> log_world \<Rightarrow> log_world res" where
  "api_exec c (Stdout_color_mt nm) w = world_of (stdout_color_mt (lc_os c) nm w)"
| "api_exec c (Basic_logger_mt_async nm fname) w = world_of (basic_logger_mt_async (lc_os c) nm fname w)"
| "api_exec c (New_logger nm ks) w = Inr (snd (make_shared_logger (logger_new nm ks) w))"
| "api_exec c (Clone l nm) w = world_of (logger_clone nm l w)"
| "api_exec c (Initialize_logger l) w = initialize_logger l w"
| "api_exec c (Register_logger l) w = register_logger l w"
| "api_exec c (Set_formatter f) w = registry_set_formatter f w"
| "api_exec c (Set_pattern pat tt) w = spdlog_set_pattern pat tt w"
| "api_exec c (Set_level lvl) w = registry_set_level lvl w"
| "api_exec c (Flush_on lvl) w = registry_flush_on lvl w"
| "api_exec c (Set_error_handler h) w = registry_set_error_handler h w"
| "api_exec c (Set_automatic_registration b) w = Inr (set_automatic_registration b w)"
| "api_exec c (Set_default_logger d) w = set_default_logger d w"
| "api_exec c (Drop_logger nm) w = registry_drop nm w"
| "api_exec c Drop_all w = Inr (registry_drop_all w)"
| "api_exec c Shutdown w = Inr (registry_shutdown w)"
| "api_exec c Init_thread_pool w = Inr (init_thread_pool w)"
| "api_exec c Flush_all w = registry_flush_all c w"
| "api_exec c (Spdlog_log lvl fmt args) w = spdlog_log c lvl fmt args w"
| "api_exec c (Logger_set_pattern l pat tt) w = logger_set_pattern pat tt l w"
| "api_exec c (Logger_set_level l lvl) w = modify_logger (logger_set_level lvl) l w"
| "api_exec c (Logger_flush_on l lvl) w = modify_logger (logger_flush_on lvl) l w"
| "api_exec c (Logger_set_error_handler l h) w = modify_logger (logger_set_error_handler h) l w"
| "api_exec c (Logger_log l lvl fmt args) w = logger_log c l lvl fmt args w"
| "api_exec c (Logger_log_text l src lvl s) w = logger_log_text c l src lvl s w"
| "api_exec c (Logger_log_fmt l src lvl fmt args) w = logger_log_fmt c l src lvl fmt args w"
| "api_exec c (Logger_flush l) w = logger_flush c l w"
| "api_exec c (Backend b) w = backend_run c b w"

text \<open>
  What a caller must see to: pointers to loggers and sinks are valid, arguments fit their types, the default logger has not been dropped
  when it is used; a logger with several sinks has a console only in front. A message that comes back from the queue has no colour range.
\<close>

abbreviation live :: "log_world \<Rightarrow> nat \<Rightarrow> bool" where
  "live w l \<equiv> lw_loggers w l \<noteq> None"

fun backend_ok :: "log_world \<Rightarrow> backend_call \<Rightarrow> bool" where
  "backend_ok w (Backend_log l msg) \<longleftrightarrow> live w l \<and> msg_timed msg \<and> lm_color_end msg = 0"
| "backend_ok w (Backend_flush l) \<longleftrightarrow> live w l"

fun api_ok :: "log_world \<Rightarrow> api_call \<Rightarrow> bool" where
  "api_ok w (New_logger nm ks) \<longleftrightarrow> sinks_ok w ks"
| "api_ok w (Clone l nm) \<longleftrightarrow> live w l"
| "api_ok w (Initialize_logger l) \<longleftrightarrow> live w l"
| "api_ok w (Register_logger l) \<longleftrightarrow> live w l"
| "api_ok w (Set_error_handler h) \<longleftrightarrow> handler_ok w h"
| "api_ok w (Set_default_logger d) \<longleftrightarrow> (d \<noteq> None \<longrightarrow> live w (the d))"
| "api_ok w (Spdlog_log lvl fmt args) \<longleftrightarrow> rg_default w \<noteq> None \<and> store_ok args"
| "api_ok w (Logger_set_pattern l pat tt) \<longleftrightarrow> live w l"
| "api_ok w (Logger_set_level l lvl) \<longleftrightarrow> live w l"
| "api_ok w (Logger_flush_on l lvl) \<longleftrightarrow> live w l"
| "api_ok w (Logger_set_error_handler l h) \<longleftrightarrow> live w l \<and> handler_ok w h"
| "api_ok w (Logger_log l lvl fmt args) \<longleftrightarrow> live w l \<and> store_ok args"
| "api_ok w (Logger_log_text l src lvl s) \<longleftrightarrow> live w l \<and> sl_line src < 2 ^ 32"
| "api_ok w (Logger_log_fmt l src lvl fmt args) \<longleftrightarrow> live w l \<and> sl_line src < 2 ^ 32 \<and> store_ok args"
| "api_ok w (Logger_flush l) \<longleftrightarrow> live w l"
| "api_ok w (Backend b) \<longleftrightarrow> backend_ok w b"
| "api_ok w _ \<longleftrightarrow> True"

text \<open>The worlds of a program, from the construction of the registry. The time and the thread change from call to call.\<close>

inductive log_reachable :: "log_env \<Rightarrow> log_os \<Rightarrow> log_world \<Rightarrow> bool" for env os where
  log_start: "log_reachable env os (registry_new os)"
| log_next: "log_reachable env os w \<Longrightarrow> call_ok c \<Longrightarrow> lc_env c = env \<Longrightarrow> lc_os c = os \<Longrightarrow> api_ok w a \<Longrightarrow>
    api_exec c a w = Inr w' \<Longrightarrow> log_reachable env os w'"

lemma registry_new_ok: "world_ok env (registry_new os)"
proof -
  define w where "w = \<lparr>lw_sinks = (\<lambda>_. None), lw_loggers = (\<lambda>_. None), lw_next = 0, lw_posts = [], lw_stderr = [], lw_handled = [],
    rg_loggers = [], rg_formatter = pattern_formatter_default time_local default_eol, rg_level = default_level,
    rg_flush_level = level_off, rg_err_handler = None, rg_tp = None, rg_default = None, rg_automatic = True\<rparr>"
  have w: "world_ok env w" by (simp add: w_def world_defs)
  obtain k v where s: "make_shared_sink (ansicolor_sink_new os) w = (k, v)" by fastforce
  obtain l u where l: "make_shared_logger (logger_new [] [k]) v = (l, u)" by fastforce
  note v = make_shared_sink_ok [OF w ansicolor_sink_ok s]
  have "sinks_ok v (lg_sinks (logger_new [] [k] l))" "lg_err_handler (logger_new [] [k] l) = Default_of l"
    using v(3) by (simp_all add: sinks_ok_def logger_new_def)
  note u = make_shared_logger_ok [OF v(1) l this(1) disjI1 [OF this(2)]]
  from rg_default_ok [OF map_put_ok [OF u(1,3)], of "Some l"]
  have "world_ok env (u\<lparr>rg_loggers := map_put [] l (rg_loggers u), rg_default := Some l\<rparr>)"
    using u(3) by (simp add: logger_new_def)
  moreover have "registry_new os = u\<lparr>rg_loggers := map_put [] l (rg_loggers u), rg_default := Some l\<rparr>"
    using s l unfolding registry_new_def w_def [symmetric] by (simp add: Let_def)
  ultimately show ?thesis by simp
qed

text \<open>Only what enters a logger under its name, or opens a file, throws.\<close>

fun may_throw :: "api_call \<Rightarrow> bool" where
  "may_throw (Stdout_color_mt nm) = True"
| "may_throw (Basic_logger_mt_async nm fname) = True"
| "may_throw (Initialize_logger l) = True"
| "may_throw (Register_logger l) = True"
| "may_throw _ = False"

lemma api_exec_throws:
  assumes "world_ok (lc_env c) w" "api_ok w a" "may_throw a"
  shows "keeps_or_ex (lc_env c) w (api_exec c a w)"
  using assms created_def [folded world_of_def, symmetric]
  by (cases a) (auto intro: register_logger_keeps initialize_logger_keeps simp: stdout_color_mt_keeps basic_logger_mt_async_keeps)

lemma api_exec_keeps:
  assumes "call_ok c" "world_ok (lc_env c) w" "api_ok w a" "\<not> may_throw a"
  shows "keeps (lc_env c) w (api_exec c a w)"
proof -
  have dflt: "live w d" if "rg_default w = Some d" for d using that assms(2) by (auto simp: world_ok_def registry_ok_def)
  show ?thesis
  proof (cases a)
    case (New_logger nm ks)
    obtain l w' where m: "make_shared_logger (logger_new nm ks) w = (l, w')" by fastforce
    with make_shared_logger_ok [OF assms(2) m] New_logger assms(3) show ?thesis by (simp add: logger_new_def)
  next
    case (Clone l nm)
    then obtain lg where "lw_loggers w l = Some lg" using assms(3) by auto
    from logger_clone_keeps [OF assms(2) this, of nm] get_logger_Some [OF this] show ?thesis
      using Clone by (simp add: created_def keeps_or_ex_def world_of_def logger_clone_def split: prod.splits)
  next
    case (Backend b)
    then show ?thesis using assms(3) backend_log_keeps [OF assms(1,2)] backend_flush_keeps [OF assms(2)] by (cases b) auto
  next
    case (Spdlog_log lvl fmt args)
    then show ?thesis using assms(3) dflt logger_log_keeps [OF assms(1,2)] by (fastforce simp: spdlog_log_def)
  next
    case (Set_default_logger d)
    then show ?thesis using assms(3) set_default_logger_keeps [OF assms(2), of d] by (cases d) auto
  next
    case Shutdown
    then show ?thesis using registry_drop_all_ok [OF assms(2)] by (simp add: registry_shutdown_def registry_set_tp_def)
  qed (use assms(2-4) registry_drop_all_ok [OF assms(2)] init_thread_pool_ok [OF assms(2)] in
     \<open>auto intro!: registry_set_formatter_keeps registry_levels_keep registry_set_error_handler_keeps
       registry_flush_all_keeps registry_drop_keeps logger_set_formatter_keeps set_levels_keep set_error_handler_keeps logger_flush_keeps
       logger_log_keeps logger_log_text_keeps logger_log_fmt_keeps assms(1)
       simp: spdlog_set_pattern_def logger_set_pattern_def set_automatic_registration_def\<close>)
qed

lemma log_reachable_ok: "log_reachable env os w \<Longrightarrow> world_ok env w"
proof (induction rule: log_reachable.induct)
  case (log_next w c a w')
  then show ?case using api_exec_keeps [of c w a] api_exec_throws [of c w a] by (cases "may_throw a") (auto simp: keeps_or_ex_def)
qed (rule registry_new_ok)


definition sample_os :: log_os where
  "sample_os = \<lparr>lo_fopen = (\<lambda>f m n. True), lo_fwrite = (\<lambda>out s. length s), lo_syserr = (\<lambda>s. s), lo_color = True\<rparr>"

definition sample_call :: log_call where
  "sample_call = \<lparr>lc_env = sample_log_env, lc_os = sample_os, lc_now = 1577934245000000000, lc_tid = 7, lc_date = (\<lambda>s. [])\<rparr>"

lemma sample_call_ok: "call_ok sample_call"
  using sample_log_ok(1) by (simp add: call_ok_def sample_call_def to_secs_def sample_log_env_def test_env_def)

lemma sample_call_env: "lc_env sample_call = sample_log_env" "lc_os sample_call = sample_os"
  by (simp_all add: sample_call_def)


section \<open>What loggers write\<close>

definition sink_out :: "sink \<Rightarrow> string" where
  "sink_out sk = (case sk_target sk of File_target fh \<Rightarrow> fh_text fh | Console_target b cols out \<Rightarrow> out)"

text \<open>The text of a message on a sink: the line of its pattern, on a console with the range in the colour of the level.\<close>

definition sink_line :: "log_env \<Rightarrow> sink \<Rightarrow> log_msg \<Rightarrow> string" where
  "sink_line env sk msg =
     (let (m, s) = pattern_line env (sk_formatter sk) (msg, []) in
      case sk_target sk of
        File_target fh \<Rightarrow> s
      | Console_target b cols out \<Rightarrow>
          if b \<and> lm_color_start m < lm_color_end m then colored (cols (lm_level m)) (lm_color_start m) (lm_color_end m) s else s)"

text \<open>Messages that are the same up to their colour ranges give the same texts.\<close>

definition recolored :: "log_msg \<Rightarrow> log_msg \<Rightarrow> bool" where
  "recolored m n \<longleftrightarrow> (\<exists>a b. n = m\<lparr>lm_color_start := a, lm_color_end := b\<rparr>)"

lemma recolored_simps:
  assumes "recolored m n"
  shows "lm_level n = lm_level m" "lm_time n = lm_time m" "msg_timed n = msg_timed m" "flag_text env n t f = flag_text env m t f"
    "full_head n t = full_head m t" "full_text n t = full_text m t" "lm_logger_name n = lm_logger_name m" "lm_msg_id n = lm_msg_id m"
    "lm_thread_id n = lm_thread_id m" "lm_payload n = lm_payload m" "lm_source n = lm_source m"
proof -
  obtain a b where n: "n = m\<lparr>lm_color_start := a, lm_color_end := b\<rparr>" using assms unfolding recolored_def by blast
  show "flag_text env n t f = flag_text env m t f" unfolding n by (cases f) simp_all
qed (use assms in \<open>auto simp: recolored_def msg_timed_def msg_ok_def full_head_def full_text_def full_tail_def\<close>)

lemma recolored_refl [simp]: "recolored m m"
proof -
  have "m = m\<lparr>lm_color_start := lm_color_start m, lm_color_end := lm_color_end m\<rparr>" by simp
  then show ?thesis unfolding recolored_def by blast
qed

lemma recolored_update:
  assumes "recolored m n"
  shows "recolored m (n\<lparr>lm_color_start := a\<rparr>)" "recolored m (n\<lparr>lm_color_end := a\<rparr>)" "recolored (m\<lparr>lm_color_start := a\<rparr>) n"
    "recolored (m\<lparr>lm_color_end := a\<rparr>) n"
proof -
  obtain x y where n: "n = m\<lparr>lm_color_start := x, lm_color_end := y\<rparr>" using assms unfolding recolored_def by blast
  show "recolored m (n\<lparr>lm_color_start := a\<rparr>)" unfolding recolored_def n by (rule exI [of _ a], rule exI [of _ y]) simp
  show "recolored m (n\<lparr>lm_color_end := a\<rparr>)" unfolding recolored_def n by (rule exI [of _ x], rule exI [of _ a]) simp
  show "recolored (m\<lparr>lm_color_start := a\<rparr>) n" "recolored (m\<lparr>lm_color_end := a\<rparr>) n"
    unfolding recolored_def n by (rule exI [of _ x], rule exI [of _ y], simp)+
qed

lemma flag_effect_recolored:
  assumes "recolored m n" "flag_effect env t f (m, d) = (m', d')" "flag_effect env t f (n, d) = (n', e')"
  shows "recolored m' n' \<and> recolored m m' \<and> e' = d'"
  using assms recolored_update [OF assms(1)] recolored_update [OF recolored_refl] recolored_simps [OF assms(1)]
  by (cases f) (auto simp: flag_effect_def intro!: recolored_update)

lemma fold_effect_recolored:
  assumes "recolored m n" "fold (flag_effect env t) fs (m, d) = (m', d')" "fold (flag_effect env t) fs (n, d) = (n', e')"
  shows "recolored m n' \<and> e' = d'"
  using assms
proof (induction fs arbitrary: m n d)
  case (Cons f fs)
  obtain a x where a: "flag_effect env t f (m, d) = (a, x)" by fastforce
  obtain b y where b: "flag_effect env t f (n, d) = (b, y)" by fastforce
  from flag_effect_recolored [OF Cons.prems(1) a b] have r: "recolored a b" "recolored m a" "y = x" by simp_all
  have "recolored a n' \<and> e' = d'" using Cons.IH [OF r(1)] Cons.prems(2,3) a b r(3) by simp
  moreover have "recolored m n'" if "recolored a n'"
    using that r(2) unfolding recolored_def by fastforce
  ultimately show ?case by simp
qed simp

lemma pattern_line_recolored:
  assumes "recolored m n" "pattern_line env pf (m, []) = (m', s)" "pattern_line env pf (n, []) = (n', r)"
  shows "recolored m n' \<and> r = s"
  using assms(2,3) fold_effect_recolored [OF assms(1)] recolored_simps(2) [OF assms(1)]
  by (fastforce simp: pattern_line_def Let_def split: prod.splits)

lemma sink_log_writes:
  assumes "sink_ok env sk" "log_env_ok env" "writes_all os" "msg_timed msg" "recolored msg m"
    and "console sk \<Longrightarrow> m = msg \<and> lm_color_end msg = 0"
  shows "\<exists>sk' m'. sink_log env os (sk, m) = ok (sk', m') \<and> recolored msg m' \<and> sink_ok env sk' \<and>
    sink_out sk' = sink_out sk @ sink_line env sk msg"
proof -
  obtain m' s where line: "pattern_line env (sk_formatter sk) (m, []) = (m', s)" by fastforce
  obtain n r where line': "pattern_line env (sk_formatter sk) (msg, []) = (n, r)" by fastforce
  have rec: "recolored msg m'" "s = r" using pattern_line_recolored [OF assms(5) line' line] by simp_all
  have t: "msg_ok m" "to_secs (lm_time m) \<noteq> 0" using recolored_simps(2,3) [OF assms(5)] assms(4) by (simp_all add: msg_timed_def)
  have "lm_color_end m' \<le> length s" if "sk_target sk = Console_target b cols out" for b cols out
    using assms(6) that pattern_line_range(4) [OF line] by (auto simp: console_def)
  then obtain sk' where sk': "sink_log env os (sk, m) = ok (sk', m')" "sink_ok env sk'" "sk_target sk' = target_put m' s (sk_target sk)"
    using sink_log_eq [OF assms(1-3) t line] by blast
  have "sink_out sk' = sink_out sk @ sink_line env sk msg"
  proof (cases "sk_target sk")
    case (File_target fh)
    then show ?thesis using sk'(3) rec(2) line' by (simp add: sink_out_def sink_line_def)
  next
    case (Console_target b cols out)
    then have "m' = n" using assms(6) line line' by (simp add: console_def)
    then show ?thesis using Console_target sk'(3) rec(2) line' by (simp add: sink_out_def sink_line_def)
  qed
  with sk' rec(1) show ?thesis by blast
qed

text \<open>What a sink has got, of the sinks of a logger and of others.\<close>

definition got_line :: "log_env \<Rightarrow> nat list \<Rightarrow> log_msg \<Rightarrow> (nat \<Rightarrow> sink option) \<Rightarrow> (nat \<Rightarrow> sink option) \<Rightarrow> bool" where
  "got_line env ks msg f g \<longleftrightarrow>
     (\<forall>k sk. f k = Some sk \<longrightarrow> (\<exists>sk'. g k = Some sk' \<and>
        sink_out sk' = sink_out sk @ (if k \<in> set ks \<and> sink_should_log (lm_level msg) sk then sink_line env sk msg else [])))"

lemma got_line_Cons:
  assumes "k \<notin> set ks" "f k = Some sk"
    and "sink_out sk' = sink_out sk @ (if sink_should_log (lm_level msg) sk then sink_line env sk msg else [])"
    and "got_line env ks msg (f(k \<mapsto> sk')) g"
  shows "got_line env (k # ks) msg f g"
  unfolding got_line_def
proof (intro allI impI)
  fix i si assume i: "f i = Some si"
  show "\<exists>s'. g i = Some s' \<and> sink_out s' = sink_out si @
      (if i \<in> set (k # ks) \<and> sink_should_log (lm_level msg) si then sink_line env si msg else [])"
  proof (cases "i = k")
    case True
    then have "(f(k \<mapsto> sk')) i = Some sk'" by simp
    with assms(4) obtain s' where "g i = Some s'" "sink_out s' = sink_out sk'"
      using True assms(1) unfolding got_line_def by fastforce
    then show ?thesis using assms(2,3) True i by simp
  next
    case False
    then have "(f(k \<mapsto> sk')) i = Some si" using i by simp
    with assms(4) show ?thesis using False unfolding got_line_def by force
  qed
qed

lemma sinks_log_writes:
  assumes "log_env_ok (lc_env c)" "writes_all (lc_os c)" "msg_timed msg"
    and "distinct ks" "recolored msg m" "world_ok (lc_env c) w" "sinks_ok w ks"
    and "ks \<noteq> [] \<Longrightarrow> console (the (lw_sinks w (hd ks))) \<Longrightarrow> m = msg \<and> lm_color_end msg = 0"
  shows "\<exists>g m'. sinks_log c ks (w, m) = ok (w\<lparr>lw_sinks := g\<rparr>, m') \<and> recolored msg m' \<and> got_line (lc_env c) ks msg (lw_sinks w) g"
  using assms(4-8)
proof (induction ks arbitrary: w m)
  case Nil
  then have "sinks_log c [] (w, m) = ok (w\<lparr>lw_sinks := lw_sinks w\<rparr>, m)" by simp
  moreover have "got_line (lc_env c) [] msg (lw_sinks w) (lw_sinks w)" by (simp add: got_line_def)
  ultimately show ?case using Nil.prems(2) by blast
next
  case (Cons k ks)
  obtain sk where sk: "lw_sinks w k = Some sk" using Cons.prems(4) by (auto simp: sinks_ok_def)
  have rest: "sinks_ok w ks" "\<forall>k \<in> set ks. \<not> console (the (lw_sinks w k))" using sinks_ok_Cons [OF Cons.prems(4)] by simp_all
  have k: "k \<notin> set ks" "distinct ks" using Cons.prems(1) by simp_all
  have lvl: "lm_level m = lm_level msg" by (rule recolored_simps(1) [OF Cons.prems(2)])
  show ?case
  proof (cases "sink_should_log (lm_level msg) sk")
    case False
    have hd_rest: "ks \<noteq> [] \<Longrightarrow> console (the (lw_sinks w (hd ks))) \<Longrightarrow> m = msg \<and> lm_color_end msg = 0" using rest(2) by simp
    obtain g m' where g: "sinks_log c ks (w, m) = ok (w\<lparr>lw_sinks := g\<rparr>, m')" "recolored msg m'"
      "got_line (lc_env c) ks msg (lw_sinks w) g"
      using Cons.IH [OF k(2) Cons.prems(2,3) rest(1) hd_rest] by blast
    have "(lw_sinks w)(k \<mapsto> sk) = lw_sinks w" using sk by (rule fun_upd_idem)
    then have "got_line (lc_env c) (k # ks) msg (lw_sinks w) g"
      using g(3) got_line_Cons [where f = "lw_sinks w", OF k(1) sk, of sk msg "lc_env c" g] False by simp
    moreover have "sinks_log c (k # ks) (w, m) = ok (w\<lparr>lw_sinks := g\<rparr>, m')"
      using g(1) False lvl by (simp add: get_sink_Some [OF sk])
    ultimately show ?thesis using g(2) by blast
  next
    case True
    have con: "console sk \<Longrightarrow> m = msg \<and> lm_color_end msg = 0" using Cons.prems(5) sk by simp
    obtain sk' m1 where s: "sink_log (lc_env c) (lc_os c) (sk, m) = ok (sk', m1)" "recolored msg m1" "sink_ok (lc_env c) sk'"
      "sink_out sk' = sink_out sk @ sink_line (lc_env c) sk msg"
      using sink_log_writes [OF world_okD(1) [OF Cons.prems(3) sk] assms(1-3) Cons.prems(2) con] by blast
    have "console sk' = console sk"
      using sink_log_total [OF world_okD(1) [OF Cons.prems(3) sk] assms(1), of m "lc_os c"] con assms(3) s(1)
        recolored_simps(3) [OF Cons.prems(2)] by (auto simp: ok_def same_sink_def)
    note w = put_sink_ok [OF Cons.prems(3) sk s(3) this]
    let ?w = "put_sink k sk' w"
    have "\<not> console (the (lw_sinks ?w (hd ks)))" if "ks \<noteq> []"
      using that rest(2) k(1) hd_in_set [OF that] by (auto simp: put_sink_def)
    then obtain g m' where g: "sinks_log c ks (?w, m1) = ok (?w\<lparr>lw_sinks := g\<rparr>, m')" "recolored msg m'"
      "got_line (lc_env c) ks msg (lw_sinks ?w) g"
      using Cons.IH [OF k(2) s(2) conjunct1 [OF w] sinks_ok_ext [OF conjunct2 [OF w] rest(1)]] by blast
    have "lw_sinks ?w = (lw_sinks w)(k \<mapsto> sk')" "?w\<lparr>lw_sinks := g\<rparr> = w\<lparr>lw_sinks := g\<rparr>" by (simp_all add: put_sink_def)
    then have fin: "got_line (lc_env c) (k # ks) msg (lw_sinks w) g" "sinks_log c ks (?w, m1) = ok (w\<lparr>lw_sinks := g\<rparr>, m')"
      using g got_line_Cons [where f = "lw_sinks w", OF k(1) sk, of sk' msg "lc_env c" g] s(4) True by simp_all
    have "sinks_log c (k # ks) (w, m) = ok (w\<lparr>lw_sinks := g\<rparr>, m')"
      using fin(2) s(1) True lvl by (simp add: get_sink_Some [OF sk] ok_def and_then_def)
    then show ?thesis using g(2) fin(1) by blast
  qed
qed

text \<open>Flushing leaves the texts.\<close>

definition all_flushed :: "sink \<Rightarrow> bool" where
  "all_flushed sk \<longleftrightarrow> (\<forall>fh. sk_target sk = File_target fh \<longrightarrow> fh_flushed fh = length (fh_text fh))"

lemma sink_flush_out: "sink_out (sink_flush sk) = sink_out sk" "all_flushed (sink_flush sk)"
  by (simp_all add: sink_flush_def sink_out_def all_flushed_def file_helper_flush_def split: sink_target.splits)

definition flushed_sinks :: "nat list \<Rightarrow> (nat \<Rightarrow> sink option) \<Rightarrow> nat \<Rightarrow> sink option" where
  "flushed_sinks ks f k = (if k \<in> set ks then map_option sink_flush (f k) else f k)"

lemma sinks_flush_eq:
  assumes "\<forall>k \<in> set ks. lw_sinks w k \<noteq> None"
  shows "sinks_flush ks w = Inr (w\<lparr>lw_sinks := flushed_sinks ks (lw_sinks w)\<rparr>)"
  using assms
proof (induction ks arbitrary: w)
  case (Cons k ks)
  then obtain sk where sk: "lw_sinks w k = Some sk" by auto
  have twice: "sink_flush (sink_flush sk) = sink_flush sk"
    by (simp add: sink_flush_def file_helper_flush_def split: sink_target.splits)
  let ?w = "put_sink k (sink_flush sk) w"
  have ex: "\<forall>i \<in> set ks. lw_sinks ?w i \<noteq> None" using Cons.prems by (simp add: put_sink_def)
  have upd: "?w\<lparr>lw_sinks := f\<rparr> = w\<lparr>lw_sinks := f\<rparr>" for f by (simp add: put_sink_def)
  have "flushed_sinks ks (lw_sinks ?w) = flushed_sinks (k # ks) (lw_sinks w)"
    using sk twice by (auto simp: flushed_sinks_def fun_eq_iff put_sink_def)
  with Cons.IH [OF ex, unfolded upd] show ?case by (simp add: get_sink_Some [OF sk])
next
  case Nil
  have "flushed_sinks [] (lw_sinks w) = lw_sinks w" by (simp add: flushed_sinks_def fun_eq_iff)
  then show ?case by simp
qed

text \<open>After a line, and after a flush when the level of the message asks for it.\<close>

definition line_written :: "log_env \<Rightarrow> logger \<Rightarrow> log_msg \<Rightarrow> log_world \<Rightarrow> log_world \<Rightarrow> bool" where
  "line_written env lg msg w w' \<longleftrightarrow>
     got_line env (lg_sinks lg) msg (lw_sinks w) (lw_sinks w') \<and> w' = w\<lparr>lw_sinks := lw_sinks w'\<rparr> \<and>
     (logger_should_flush msg lg \<longrightarrow> (\<forall>k \<in> set (lg_sinks lg). \<forall>sk. lw_sinks w' k = Some sk \<longrightarrow> all_flushed sk))"

lemma got_line_flush:
  assumes "got_line env ks msg f g"
  shows "got_line env ks msg f (flushed_sinks ks g)"
  using assms unfolding got_line_def flushed_sinks_def by (metis (no_types, lifting) option.simps(9) sink_flush_out(1))

lemma sinks_log_flush:
  assumes "call_ok c" "writes_all (lc_os c)" "world_ok (lc_env c) w" "lw_loggers w l = Some lg" "distinct (lg_sinks lg)"
    "msg_timed msg" "lm_color_end msg = 0"
  obtains g m' where "sinks_log c (lg_sinks lg) (w, msg) = ok (w\<lparr>lw_sinks := g\<rparr>, m')" "lm_level m' = lm_level msg"
    "got_line (lc_env c) (lg_sinks lg) msg (lw_sinks w) g"
    "sinks_flush (lg_sinks lg) (w\<lparr>lw_sinks := g\<rparr>) =
       Inr (w\<lparr>lw_sinks := flushed_sinks (lg_sinks lg) g\<rparr>)"
proof -
  have ks: "sinks_ok w (lg_sinks lg)" using world_okD(2) [OF assms(3,4)] by (simp add: logger_ok_def)
  have env: "log_env_ok (lc_env c)" using assms(1) by (simp add: call_ok_def)
  obtain g m' where g: "sinks_log c (lg_sinks lg) (w, msg) = ok (w\<lparr>lw_sinks := g\<rparr>, m')" "recolored msg m'"
    "got_line (lc_env c) (lg_sinks lg) msg (lw_sinks w) g"
    using sinks_log_writes [OF env assms(2,6,5) recolored_refl assms(3) ks] assms(7) by auto
  have "\<forall>k \<in> set (lg_sinks lg). g k \<noteq> None"
    using ks g(3) unfolding sinks_ok_def got_line_def by (metis option.discI option.exhaust)
  then have "sinks_flush (lg_sinks lg) (w\<lparr>lw_sinks := g\<rparr>) =
      Inr (w\<lparr>lw_sinks := flushed_sinks (lg_sinks lg) g\<rparr>)"
    using sinks_flush_eq [of "lg_sinks lg" "w\<lparr>lw_sinks := g\<rparr>"] by simp
  then show thesis using that g recolored_simps(1) [OF g(2)] by blast
qed

lemma line_writtenI:
  assumes "got_line env (lg_sinks lg) msg (lw_sinks w) g"
  shows "\<not> logger_should_flush msg lg \<Longrightarrow> line_written env lg msg w (w\<lparr>lw_sinks := g\<rparr>)"
    "line_written env lg msg w (w\<lparr>lw_sinks := flushed_sinks (lg_sinks lg) g\<rparr>)"
  using assms got_line_flush [OF assms] by (auto simp: line_written_def sink_flush_out(2) flushed_sinks_def)

lemma sink_it_written:
  assumes "call_ok c" "writes_all (lc_os c)" "world_ok (lc_env c) w" "lw_loggers w l = Some lg" "distinct (lg_sinks lg)"
    "msg_timed msg" "lm_color_end msg = 0" "lg_async lg = None"
  shows "\<exists>w'. logger_sink_it c l msg w = ok w' \<and> line_written (lc_env c) lg msg w w'"
proof -
  obtain g m' where g: "sinks_log c (lg_sinks lg) (w, msg) = ok (w\<lparr>lw_sinks := g\<rparr>, m')" "lm_level m' = lm_level msg"
    "got_line (lc_env c) (lg_sinks lg) msg (lw_sinks w) g"
    "sinks_flush (lg_sinks lg) (w\<lparr>lw_sinks := g\<rparr>) =
       Inr (w\<lparr>lw_sinks := flushed_sinks (lg_sinks lg) g\<rparr>)"
    using sinks_log_flush [OF assms(1-7)] by blast
  have fl: "logger_should_flush m' lg = logger_should_flush msg lg" using g(2) by (simp add: logger_should_flush_def)
  have lg: "get_logger l (w\<lparr>lw_sinks := g\<rparr>) = Inr lg" using assms(4) by (simp add: get_logger_def)
  note r = g(1,4) fl assms(8) get_logger_Some [OF assms(4)] lg line_writtenI [OF g(3)]
  show ?thesis
    by (cases "logger_should_flush msg lg")
       (use r in \<open>auto simp: logger_sink_it_def logger_flush_virtual_def ok_def\<close>)
qed


text \<open>The worlds that witnesses start from.\<close>

lemma registry_new_simps:
  "lw_loggers (registry_new os) (Suc 0) = Some (logger_new [] [0] (Suc 0))" "rg_automatic (registry_new os)" "rg_tp (registry_new os) = None"
  "rg_loggers (registry_new os) = [([], Suc 0)]" "rg_level (registry_new os) = level_info" "lw_next (registry_new os) = 2"
  by (simp_all add: registry_new_def make_shared_sink_def make_shared_logger_def put_logger_def put_sink_def map_put_def default_level_def
      Let_def)

lemma sample_writes_all: "writes_all sample_os"
  by (simp add: writes_all_def sample_os_def)

lemma format_to_chars:
  assumes "CHR ''{'' \<notin> set s" "CHR ''}'' \<notin> set s"
  shows "format_to env [] s [] = Inr s"
proof -
  have r: "render (map Chr s) = s" "tokens_text [] 0 (map Chr s) = s" "Fmt_Format.fields (map Chr s) = 0" by (induction s) simp_all
  then show ?thesis
    using format_to_tokens [of "[]" "map Chr s" env "[]"] assms by (auto simp: store_ok_def)
qed


text \<open>The back end on its way through the sinks.\<close>

lemma backend_log_written:
  assumes "call_ok c" "writes_all (lc_os c)" "world_ok (lc_env c) w" "lw_loggers w l = Some lg" "distinct (lg_sinks lg)"
    "msg_timed msg" "lm_color_end msg = 0"
  shows "\<exists>w'. backend_log c l msg w = Inr w' \<and> line_written (lc_env c) lg msg w w'"
proof -
  obtain g m' where g: "sinks_log c (lg_sinks lg) (w, msg) = ok (w\<lparr>lw_sinks := g\<rparr>, m')"
    "got_line (lc_env c) (lg_sinks lg) msg (lw_sinks w) g"
    "sinks_flush (lg_sinks lg) (w\<lparr>lw_sinks := g\<rparr>) = Inr (w\<lparr>lw_sinks := flushed_sinks (lg_sinks lg) g\<rparr>)"
    using sinks_log_flush [OF assms(1-7)] by blast
  have "get_logger l (w\<lparr>lw_sinks := g\<rparr>) = Inr lg" using assms(4) by (simp add: get_logger_def)
  then have "backend_flush c l (w\<lparr>lw_sinks := g\<rparr>) = Inr (w\<lparr>lw_sinks := flushed_sinks (lg_sinks lg) g\<rparr>)"
    using g(3) by (simp add: backend_flush_def catch_and_handle_def ok_def)
  then show ?thesis
    using g(1) line_writtenI [OF g(2)] get_logger_Some [OF assms(4)]
    by (auto simp: backend_log_def catch_and_handle_def ok_def)
qed

text \<open>C34: An asynchronous logger whose pool is alive posts one message for a call of sufficient level, and changes nothing else. The worker that takes it from
  the queue calls the back end of that logger with the message that a synchronous logger would have passed to its sinks, so that in whatever
  world the back end runs, each sink of the logger gets the line of its pattern for that message, with the time and the thread of the caller.\<close>

theorem async_logger_writes_lines:
  assumes "log_reachable env os w" "call_ok c" "lc_env c = env" "lw_loggers w l = Some lg" "lg_async lg = Some (policy, tp)"
    and "rg_tp w = Some tp" "logger_should_log lvl lg" "sl_line src < 2 ^ 32" "format_to (le_fmt env) [] fmt args = Inr buf"
    and "names l = lg_name lg" "log_reachable env os v" "call_ok d" "lc_env d = env" "lc_os d = os" "writes_all os"
    and "lw_loggers v l = Some lg'" "distinct (lg_sinks lg')"
  shows "logger_log_fmt c l src lvl fmt args w =
      Inr (w\<lparr>lw_posts := lw_posts w @ [post_log l (make_msg c src lg lvl buf) policy]\<rparr>) \<and>
    process_msg names (async_msg_of_log (Some l) msg_log (make_msg c src lg lvl buf)) = Inr (Some (Backend_log l (make_msg c src lg lvl buf))) \<and>
    (\<exists>v'. backend_run d (Backend_log l (make_msg c src lg lvl buf)) v = Inr v' \<and> line_written env lg' (make_msg c src lg lvl buf) v v')"
proof (intro conjI)
  show "logger_log_fmt c l src lvl fmt args w =
      Inr (w\<lparr>lw_posts := lw_posts w @ [post_log l (make_msg c src lg lvl buf) policy]\<rparr>)"
    using assms(3,5-7,9) get_logger_Some [OF assms(4)]
    by (simp add: logger_log_fmt_def logger_sink_it_def async_sink_it_def catching_def catch_and_handle_def ok_def)
  show "process_msg names (async_msg_of_log (Some l) msg_log (make_msg c src lg lvl buf)) =
      Inr (Some (Backend_log l (make_msg c src lg lvl buf)))"
    using async_msg_roundtrip [of names l msg_log "make_msg c src lg lvl buf"] assms(10)
    by (simp add: process_msg_def) (simp add: async_msg_of_log_def make_msg_def log_msg_new_def)
  show "\<exists>v'. backend_run d (Backend_log l (make_msg c src lg lvl buf)) v = Inr v' \<and> line_written env lg' (make_msg c src lg lvl buf) v v'"
    using backend_log_written [of d v l lg' "make_msg c src lg lvl buf"] make_msg_timed [OF assms(2,8), of lg lvl buf]
      log_reachable_ok [OF assms(11)] assms(12-) by simp
qed

section \<open>Loggers under their names\<close>

lemma sinks_set_formatter_frame:
  "sinks_set_formatter f ks w = Inr w' \<Longrightarrow> w' = w\<lparr>lw_sinks := lw_sinks w'\<rparr>"
proof (induction ks arbitrary: w)
  case (Cons k ks)
  then obtain sk where "sinks_set_formatter f ks (put_sink k sk w) = Inr w'" by (auto simp: res_simps)
  from Cons.IH [OF this] show ?case by (simp add: put_sink_def)
qed simp

text \<open>The settings of the registry that a new logger gets.\<close>

definition initialized :: "log_world \<Rightarrow> logger \<Rightarrow> logger" where
  "initialized w lg = lg\<lparr>lg_err_handler := (case rg_err_handler w of None \<Rightarrow> lg_err_handler lg | Some h \<Rightarrow> h),
     lg_level := rg_level w, lg_flush_level := rg_flush_level w\<rparr>"

definition exists_ex :: "string \<Rightarrow> cpp_error" where
  "exists_ex nm = Spdlog_ex (''logger with name '' @ [CHR 0x27] @ nm @ [CHR 0x27] @ '' already exists'')"

lemma logger_set_formatter_eq:
  assumes "world_ok env w" "lw_loggers w l = Some lg"
  shows "\<exists>g. logger_set_formatter f l w = Inr (w\<lparr>lw_sinks := g\<rparr>)"
  using logger_set_formatter_keeps [OF assms, of f] sinks_set_formatter_frame [of f "lg_sinks lg" w]
  by (auto simp: keeps_def logger_set_formatter_def get_logger_Some [OF assms(2)])

lemma initialize_logger_eq:
  assumes "world_ok env w" "lw_loggers w l = Some lg" "rg_automatic w"
  shows "\<exists>g. initialize_logger l w =
    (if map_of (rg_loggers w) (lg_name lg) = None
     then Inr (w\<lparr>lw_sinks := g, lw_loggers := (lw_loggers w)(l \<mapsto> initialized w lg),
       rg_loggers := map_put (lg_name lg) l (rg_loggers w)\<rparr>)
     else Inl (exists_ex (lg_name lg)))"
proof -
  obtain g where "logger_set_formatter (pattern_formatter_clone (rg_formatter w)) l w = Inr (w\<lparr>lw_sinks := g\<rparr>)"
    using logger_set_formatter_eq [OF assms(1,2)] by blast
  then show ?thesis
    using assms(2,3)
    by (cases "rg_err_handler w")
       (auto simp: initialize_logger_def modify_logger_def get_logger_def put_logger_def register_logger_def throw_if_exists_def
         logger_set_error_handler_def logger_set_level_def logger_flush_on_def initialized_def exists_ex_def)
qed

text \<open>A new logger on a new sink, after the settings.\<close>

lemma create_eq:
  assumes "world_ok env w" "sink_ok env sk" "lg_sinks (ctor (lw_next w + 1)) = [lw_next w]"
    "lg_err_handler (ctor (lw_next w + 1)) = Default_of (lw_next w + 1)"
    and "rg_automatic w" "lg_name (ctor (lw_next w + 1)) = nm"
  shows "\<exists>g. (let (k, w) = make_shared_sink sk w; (l, w) = make_shared_logger ctor w
      in res_bind (initialize_logger l w) (\<lambda>w. Inr (l, w))) =
    (if map_of (rg_loggers w) nm = None
     then Inr (lw_next w + 1, w\<lparr>lw_sinks := g, lw_loggers := (lw_loggers w)(lw_next w + 1 \<mapsto> initialized w (ctor (lw_next w + 1))),
       lw_next := lw_next w + 2, rg_loggers := map_put nm (lw_next w + 1) (rg_loggers w)\<rparr>)
     else Inl (exists_ex nm))"
proof -
  let ?k = "lw_next w" and ?l = "lw_next w + 1"
  obtain v where s: "make_shared_sink sk w = (?k, v)" by (simp add: make_shared_sink_def)
  then have v': "v = (put_sink ?k sk w)\<lparr>lw_next := ?l\<rparr>" by (simp add: make_shared_sink_def)
  obtain u where l: "make_shared_logger ctor v = (?l, u)" by (simp add: make_shared_logger_def v')
  then have u': "u = (put_logger ?l (ctor ?l) v)\<lparr>lw_next := lw_next w + 2\<rparr>" by (simp add: make_shared_logger_def v')
  note v = make_shared_sink_ok [OF assms(1,2) s]
  have "sinks_ok v (lg_sinks (ctor ?l))" using v(3) assms(3) by (simp add: sinks_ok_def)
  note u = make_shared_logger_ok [OF v(1) l this disjI1 [OF assms(4)]]
  have "rg_automatic u" using assms(5) by (simp add: u' v' put_logger_def put_sink_def)
  from initialize_logger_eq [OF u(1,3) this] obtain g where g: "initialize_logger ?l u =
    (if map_of (rg_loggers u) (lg_name (ctor ?l)) = None
     then Inr (u\<lparr>lw_sinks := g, lw_loggers := (lw_loggers u)(?l \<mapsto> initialized u (ctor ?l)),
       rg_loggers := map_put (lg_name (ctor ?l)) ?l (rg_loggers u)\<rparr>)
     else Inl (exists_ex (lg_name (ctor ?l))))"
    by blast
  have f: "rg_loggers u = rg_loggers w" "initialized u (ctor ?l) = initialized w (ctor ?l)"
    by (simp_all add: u' v' put_logger_def put_sink_def initialized_def)
  have upd: "u\<lparr>lw_sinks := g, lw_loggers := (lw_loggers u)(?l \<mapsto> lg), rg_loggers := r\<rparr> =
      w\<lparr>lw_sinks := g, lw_loggers := (lw_loggers w)(?l \<mapsto> lg), lw_next := lw_next w + 2, rg_loggers := r\<rparr>" for lg r
    by (simp add: u' v' put_logger_def put_sink_def)
  show ?thesis
    by (rule exI [of _ g]) (simp only: s l prod.case Let_def g [unfolded f assms(6) upd] if_distrib [of "\<lambda>m. res_bind m _"]
      res_bind_Inr res_bind_Inl)
qed

lemma stdout_color_mt_eq:
  assumes "world_ok env w" "rg_automatic w"
  shows "\<exists>g. stdout_color_mt os nm w =
    (if map_of (rg_loggers w) nm = None
     then Inr (lw_next w + 1, w\<lparr>lw_sinks := g,
       lw_loggers := (lw_loggers w)(lw_next w + 1 \<mapsto> initialized w (logger_new nm [lw_next w] (lw_next w + 1))),
       lw_next := lw_next w + 2, rg_loggers := map_put nm (lw_next w + 1) (rg_loggers w)\<rparr>)
     else Inl (exists_ex nm))"
  using create_eq [OF assms(1) ansicolor_sink_ok _ _ assms(2), of "logger_new nm [lw_next w]" nm os]
  by (simp add: stdout_color_mt_def synchronous_create_def logger_new_def make_shared_sink_def Let_def)

lemma map_of_map_put: "map_of (map_put k v xs) i = (if i = k then Some v else map_of xs i)"
  by (induction xs) (auto simp: map_put_def)

text \<open>A world in which a logger has been entered under its name.\<close>

definition enters :: "string \<Rightarrow> nat \<Rightarrow> logger \<Rightarrow> log_world \<Rightarrow> log_world \<Rightarrow> bool" where
  "enters nm l lg w w' \<longleftrightarrow> rg_loggers w' = map_put nm l (rg_loggers w) \<and> lw_loggers w' = (lw_loggers w)(l \<mapsto> lg) \<and>
     lw_posts w' = lw_posts w \<and> rg_level w' = rg_level w \<and> rg_automatic w' = rg_automatic w"

lemma created_Inr: "created env w (Inr (l, w')) \<Longrightarrow> world_ok env w' \<and> world_ext w w'"
  by (simp add: created_def keeps_or_ex_def)

lemma stdout_color_mt_enters:
  assumes "world_ok env w" "rg_automatic w" "map_of (rg_loggers w) nm = None"
  shows "\<exists>w'. stdout_color_mt os nm w = Inr (lw_next w + 1, w') \<and> world_ok env w' \<and> world_ext w w' \<and>
    enters nm (lw_next w + 1) (initialized w (logger_new nm [lw_next w] (lw_next w + 1))) w w'"
proof -
  obtain g where g: "stdout_color_mt os nm w = Inr (lw_next w + 1, w\<lparr>lw_sinks := g,
       lw_loggers := (lw_loggers w)(lw_next w + 1 \<mapsto> initialized w (logger_new nm [lw_next w] (lw_next w + 1))),
       lw_next := lw_next w + 2, rg_loggers := map_put nm (lw_next w + 1) (rg_loggers w)\<rparr>)"
    using stdout_color_mt_eq [OF assms(1,2), of os nm] assms(3) by auto
  with created_Inr [OF stdout_color_mt_keeps [OF assms(1), of os nm, unfolded g]] show ?thesis by (simp add: enters_def)
qed

lemma basic_logger_mt_async_enters:
  assumes "world_ok env w" "rg_automatic w" "map_of (rg_loggers w) nm = None" "\<exists>i < 5. lo_fopen os fname ''ab'' i"
  shows "\<exists>l w' tp. basic_logger_mt_async os nm fname w = Inr (l, w') \<and> world_ok env w' \<and> world_ext w w' \<and> rg_tp w' = Some tp \<and> l \<ge> lw_next w \<and>
    enters nm l (initialized w (async_logger_new nm [l - 1] tp policy_block l)) w w'"
proof -
  define v where "v = (if rg_tp w = None then init_thread_pool w else w)"
  have v: "world_ok env v" "rg_automatic v" "rg_loggers v = rg_loggers w" "lw_loggers v = lw_loggers w" "lw_posts v = lw_posts w"
    "rg_level v = rg_level w" "rg_tp v \<noteq> None" "lw_next w \<le> lw_next v" "initialized v = initialized w"
    using assms(1,2) init_thread_pool_ok [OF assms(1)]
    by (auto simp: v_def init_thread_pool_def registry_set_tp_def initialized_def fun_eq_iff)
  let ?fh = "\<lparr>fh_fd = True, fh_filename = fname, fh_mode = ''ab'', fh_text = [], fh_flushed = 0\<rparr>"
  let ?c = "async_logger_new nm [lw_next v] (the (rg_tp v)) policy_block"
  have sk: "sink_ok env (sink_new (File_target ?fh))" by (simp add: file_sink_ok)
  have "basic_logger_mt_async os nm fname w = (let (k, w) = make_shared_sink (sink_new (File_target ?fh)) v; (l, w) = make_shared_logger ?c w
      in res_bind (initialize_logger l w) (\<lambda>w. Inr (l, w)))"
    using assms(4)
    by (simp add: basic_logger_mt_async_def async_create_def v_def [symmetric] file_sink_new_eq make_shared_sink_def put_sink_def Let_def)
  moreover obtain g where "(let (k, w) = make_shared_sink (sink_new (File_target ?fh)) v; (l, w) = make_shared_logger ?c w
      in res_bind (initialize_logger l w) (\<lambda>w. Inr (l, w))) =
    Inr (lw_next v + 1, v\<lparr>lw_sinks := g, lw_loggers := (lw_loggers v)(lw_next v + 1 \<mapsto> initialized v (?c (lw_next v + 1))),
       lw_next := lw_next v + 2, rg_loggers := map_put nm (lw_next v + 1) (rg_loggers v)\<rparr>)"
    using create_eq [OF v(1) sk _ _ v(2), of ?c nm] assms(3) v(3) by (auto simp: async_logger_new_def logger_new_def)
  ultimately have r: "basic_logger_mt_async os nm fname w = Inr (lw_next v + 1, v\<lparr>lw_sinks := g,
      lw_loggers := (lw_loggers v)(lw_next v + 1 \<mapsto> initialized v (?c (lw_next v + 1))), lw_next := lw_next v + 2,
      rg_loggers := map_put nm (lw_next v + 1) (rg_loggers v)\<rparr>)" by simp
  with created_Inr [OF basic_logger_mt_async_keeps [OF assms(1), of os nm fname, unfolded r]] v assms(2) show ?thesis
    by (auto simp: enters_def)
qed

lemma basic_logger_mt_async_no_file:
  assumes "\<not> (\<exists>i < 5. lo_fopen os fname ''ab'' i)"
  shows "basic_logger_mt_async os nm fname w = Inl (Spdlog_ex (lo_syserr os (''Failed opening file '' @ fname @ '' for writing'')))"
proof -
  have "basic_file_sink_new os fname False = Inl (Spdlog_ex (lo_syserr os (''Failed opening file '' @ fname @ '' for writing'')))"
    unfolding file_sink_new_eq using assms by (simp only: if_False)
  then show ?thesis by (simp add: basic_logger_mt_async_def async_create_def Let_def)
qed

lemma logger_info_posts:
  assumes "lw_loggers w l = Some lg" "lg_async lg = Some (policy, tp)" "rg_tp w = Some tp"
  shows "logger_info c l s [] w = Inr (if logger_should_log level_info lg
    then w\<lparr>lw_posts := lw_posts w @ [post_log l (make_msg c no_source lg level_info s) policy]\<rparr> else w)"
  using assms
  by (simp add: logger_info_def logger_log_def logger_log_text_def get_logger_Some [OF assms(1)] logger_sink_it_def async_sink_it_def
      catching_def catch_and_handle_def ok_def)

section \<open>Setting up the loggers of the library\<close>

definition log_dir :: "bounce_log \<Rightarrow> string" where
  "log_dir b = (if bl_path b = [] then ''./logs'' else bl_path b)"

definition log_file_opens :: "log_os \<Rightarrow> dir_os \<Rightarrow> string \<Rightarrow> bool" where
  "log_file_opens os d dir \<longleftrightarrow> (do_opendir d dir \<or> do_mkdir d dir) \<and> (\<exists>i < 5. lo_fopen os (dir @ ''/bounce_log.txt'') ''ab'' i)"

text \<open>
  Both loggers are in the registry, with its settings: one on the console and one that posts to the pool. The start-up message has been posted
  unless the level is too high.
\<close>

definition logs_ready :: "log_call \<Rightarrow> log_world \<Rightarrow> log_world \<Rightarrow> bool" where
  "logs_ready c w w' \<longleftrightarrow> (\<exists>lc lf lg tp.
     registry_get ''bounce_console'' w' = Some lc \<and> registry_get ''bounce_file_log'' w' = Some lf \<and>
     lw_loggers w' lc = Some (initialized w (logger_new ''bounce_console'' [lc - 1] lc)) \<and>
     lw_loggers w' lf = Some lg \<and> lg_name lg = ''bounce_file_log'' \<and> lg_async lg = Some (policy_block, tp) \<and> rg_tp w' = Some tp \<and>
     lw_posts w' = lw_posts w @ (if level_code (rg_level w) \<le> level_code level_info
       then [post_log lf (make_msg c no_source lg level_info ''Bounce library is servicing.'') policy_block] else []))"

lemma logSysInit_cases:
  assumes "world_ok (lc_env c) (bl_world b)" "call_ok c" "rg_automatic (bl_world b)"
    and "map_of (rg_loggers (bl_world b)) ''bounce_console'' = None" "map_of (rg_loggers (bl_world b)) ''bounce_file_log'' = None"
  shows "if log_file_opens (lc_os c) d (log_dir b)
    then \<exists>b'. logSysInit c d b = Inr b' \<and> bl_once b' = bl_once b \<and> logs_ready c (bl_world b) (bl_world b')
    else logSysInit c d b = Inl (Process_exit 1)"
proof -
  let ?w = "bl_world b" and ?p = "log_dir b" and ?lc = "lw_next (bl_world b) + 1"
  let ?lg = "initialized ?w (logger_new ''bounce_console'' [lw_next ?w] ?lc)"
  obtain v where v: "stdout_color_mt (lc_os c) ''bounce_console'' ?w = Inr (?lc, v)" "world_ok (lc_env c) v" "enters ''bounce_console'' ?lc ?lg ?w v"
    using stdout_color_mt_enters [OF assms(1,3,4)] by blast
  have lc: "lw_loggers v ?lc = Some ?lg" using v(3) by (simp add: enters_def)
  have crit: "\<exists>x. logger_critical c ?lc s [] v = Inr x" for s
    using logger_log_keeps [OF assms(2) v(2) lc, of "[]"] by (auto simp: keeps_def logger_critical_def store_ok_def)
  show ?thesis
  proof (cases "do_opendir d ?p \<or> do_mkdir d ?p")
    case False
    then show ?thesis
      using v(1) crit [of "''File log dir can't open and create.''"]
      by (auto simp: log_file_opens_def logSysInit_def logSysInit_try_def log_dir_def [symmetric] Let_def)
  next
    case dir: True
    show ?thesis
    proof (cases "\<exists>i < 5. lo_fopen (lc_os c) (?p @ ''/bounce_log.txt'') ''ab'' i")
      case False
      then show ?thesis
        using v(1) dir basic_logger_mt_async_no_file [OF False, of "''bounce_file_log''" v]
        by (auto simp: log_file_opens_def logSysInit_def logSysInit_try_def log_dir_def [symmetric] Let_def)
    next
      case True
      have "rg_automatic v" "map_of (rg_loggers v) ''bounce_file_log'' = None"
        using v(3) assms(3,5) by (simp_all add: enters_def map_of_map_put)
      from basic_logger_mt_async_enters [OF v(2) this True] obtain lf u tp
        where u: "basic_logger_mt_async (lc_os c) ''bounce_file_log'' (?p @ ''/bounce_log.txt'') v = Inr (lf, u)" "rg_tp u = Some tp"
          "lw_next v \<le> lf" "enters ''bounce_file_log'' lf (initialized v (async_logger_new ''bounce_file_log'' [lf - 1] tp policy_block lf)) v u"
        by blast
      let ?lf = "initialized v (async_logger_new ''bounce_file_log'' [lf - 1] tp policy_block lf)"
      have "?lc < lw_next v" using lc v(2) by (auto simp: world_ok_def objects_ok_def)
      then have ne: "lf \<noteq> ?lc" using u(3) by simp
      have lf: "lw_loggers u lf = Some ?lf" "lg_async ?lf = Some (policy_block, tp)" "lg_name ?lf = ''bounce_file_log''"
        using u(4) by (simp_all add: enters_def initialized_def async_logger_new_def logger_new_def)
      define x where "x = (if logger_should_log level_info ?lf
        then u\<lparr>lw_posts := lw_posts u @ [post_log lf (make_msg c no_source ?lf level_info ''Bounce library is servicing.'') policy_block]\<rparr> else u)"
      have x: "lw_loggers x = lw_loggers u" "rg_loggers x = rg_loggers u" "rg_tp x = rg_tp u" by (simp_all add: x_def)
      define b' where "b' = (if do_opendir d ?p then b\<lparr>bl_dirs := bl_dirs b + 1, bl_world := x\<rparr> else b\<lparr>bl_world := x\<rparr>)"
      have b': "bl_once b' = bl_once b" "bl_world b' = x" by (simp_all add: b'_def)
      have "logSysInit c d b = Inr b'"
        using v(1) dir u(1) logger_info_posts [OF lf(1,2) u(2), of c "''Bounce library is servicing.''"]
        by (auto simp: logSysInit_def logSysInit_try_def log_dir_def [symmetric] Let_def b'_def x_def)
      moreover have reg: "registry_get ''bounce_console'' x = Some ?lc" "registry_get ''bounce_file_log'' x = Some lf"
        using v(3) u(4) x(2) by (simp_all add: registry_get_def enters_def map_of_map_put)
      moreover have obj: "lw_loggers x ?lc = Some ?lg" "lw_loggers x lf = Some ?lf" "rg_tp x = Some tp"
        using lc u(2,4) lf(1) ne x by (simp_all add: enters_def)
      moreover have posts: "lw_posts x = lw_posts ?w @ (if level_code (rg_level ?w) \<le> level_code level_info
        then [post_log lf (make_msg c no_source ?lf level_info ''Bounce library is servicing.'') policy_block] else [])"
        using v(3) u(4) by (simp add: x_def enters_def logger_should_log_def initialized_def)
      moreover have "log_file_opens (lc_os c) d ?p" using dir True by (simp add: log_file_opens_def)
      moreover have "logs_ready c ?w x"
        unfolding logs_ready_def using reg obj posts lf(2,3)
        by (intro exI [of _ ?lc] exI [of _ lf] exI [of _ ?lf] exI [of _ tp]) simp
      ultimately show ?thesis using b' by simp
    qed
  qed
qed

text \<open>C35: The first call of the accessor sets the logging up, in the directory of the program or in the default one: when the directory can be opened or made and
  one of five attempts to open the file succeeds, both loggers are found under their names, the one on the console and the one that posts to
  the pool, the start-up message has been posted once unless the level is too high, and a later call only looks a name up. Otherwise the process
  exits with status one; there is no partly set-up state.\<close>

theorem Logger_get_sets_up:
  assumes "log_reachable env os (bl_world b)" "call_ok c" "lc_env c = env" "lc_os c = os" "\<not> bl_once b" "rg_automatic (bl_world b)"
    and "map_of (rg_loggers (bl_world b)) ''bounce_console'' = None" "map_of (rg_loggers (bl_world b)) ''bounce_file_log'' = None"
  shows "if log_file_opens os d (log_dir b)
    then \<exists>b'. Logger_get c d nm b = Inr (registry_get nm (bl_world b'), b') \<and> logs_ready c (bl_world b) (bl_world b') \<and>
      (\<forall>c' d' nm'. Logger_get c' d' nm' b' = Inr (registry_get nm' (bl_world b'), b'))
    else Logger_get c d nm b = Inl (Process_exit 1)"
proof -
  let ?b = "b\<lparr>bl_once := True\<rparr>"
  have ok: "world_ok (lc_env c) (bl_world ?b)" using log_reachable_ok [OF assms(1)] assms(3) by simp
  have dir: "log_dir ?b = log_dir b" by (simp add: log_dir_def)
  have once: "bl_once b' \<Longrightarrow> Logger_get c' d' nm' b' = Inr (registry_get nm' (bl_world b'), b')" for c' d' nm' b'
    by (simp add: Logger_get_def)
  have get: "Logger_get c d nm b = res_bind (logSysInit c d ?b) (\<lambda>b. Inr (registry_get nm (bl_world b), b))"
    using assms(5) by (simp add: Logger_get_def)
  note cases = logSysInit_cases [OF ok assms(2), of d]
  show ?thesis
  proof (cases "log_file_opens os d (log_dir b)")
    case True
    then obtain b' where b': "logSysInit c d ?b = Inr b'" "bl_once b'" "logs_ready c (bl_world b) (bl_world b')"
      using cases assms(4,6-8) dir by auto
    then have "Logger_get c d nm b = Inr (registry_get nm (bl_world b'), b')"
      "\<forall>c' d' nm'. Logger_get c' d' nm' b' = Inr (registry_get nm' (bl_world b'), b')"
      using get once by simp_all
    with b'(3) True show ?thesis by auto
  next
    case False
    then have "logSysInit c d ?b = Inl (Process_exit 1)" using cases assms(4,6-8) dir by simp
    then show ?thesis using get False by simp
  qed
qed

definition sample_log :: bounce_log where
  "sample_log = \<lparr>bl_once = False, bl_path = [], bl_dirs = 0, bl_world = registry_new sample_os\<rparr>"

definition sample_dirs :: dir_os where
  "sample_dirs = \<lparr>do_opendir = (\<lambda>p. False), do_mkdir = (\<lambda>p. p = ''./logs'')\<rparr>"

lemma sample_file_opens: "log_file_opens sample_os sample_dirs (log_dir sample_log)"
proof -
  have "(0 :: nat) < 5 \<and> lo_fopen sample_os (log_dir sample_log @ ''/bounce_log.txt'') ''ab'' 0" by (simp add: sample_os_def)
  then have "\<exists>i < 5. lo_fopen sample_os (log_dir sample_log @ ''/bounce_log.txt'') ''ab'' i" by blast
  moreover have "do_mkdir sample_dirs (log_dir sample_log)" by (simp add: sample_dirs_def log_dir_def sample_log_def)
  ultimately show ?thesis unfolding log_file_opens_def by blast
qed

theorem Logger_get_sets_up_witness:
  "\<exists>b' lf lg. Logger_get sample_call sample_dirs ''bounce_file_log'' sample_log = Inr (Some lf, b') \<and>
    lw_loggers (bl_world b') lf = Some lg \<and>
    lw_posts (bl_world b') = [post_log lf (make_msg sample_call no_source lg level_info ''Bounce library is servicing.'') policy_block]"
proof -
  let ?w = "bl_world sample_log"
  have r: "log_reachable sample_log_env sample_os ?w" "\<not> bl_once sample_log" "rg_automatic ?w"
    "map_of (rg_loggers ?w) ''bounce_console'' = None" "map_of (rg_loggers ?w) ''bounce_file_log'' = None" "lw_posts ?w = []"
    "rg_level ?w = level_info"
    using log_start [of sample_log_env sample_os]
    by (simp_all add: sample_log_def registry_new_simps)
       (simp add: registry_new_def make_shared_sink_def make_shared_logger_def put_logger_def put_sink_def Let_def)
  from Logger_get_sets_up [OF r(1) sample_call_ok sample_call_env r(2-5), of sample_dirs "''bounce_file_log''"] sample_file_opens r(6,7)
  obtain b' where b': "Logger_get sample_call sample_dirs ''bounce_file_log'' sample_log =
      Inr (registry_get ''bounce_file_log'' (bl_world b'), b')" "logs_ready sample_call ?w (bl_world b')" by auto
  then show ?thesis using r(6,7) unfolding logs_ready_def by auto
qed

theorem async_logger_writes_lines_witness:
  "\<exists>w l lg tp v'. lw_loggers w l = Some lg \<and> lg_async lg = Some (policy_block, tp) \<and>
    logger_log_fmt sample_call l no_source level_warn ''hello'' [] w =
      Inr (w\<lparr>lw_posts := lw_posts w @ [post_log l (make_msg sample_call no_source lg level_warn ''hello'') policy_block]\<rparr>) \<and>
    backend_run sample_call (Backend_log l (make_msg sample_call no_source lg level_warn ''hello'')) w = Inr v' \<and>
    line_written sample_log_env lg (make_msg sample_call no_source lg level_warn ''hello'') w v'"
proof -
  let ?w = "registry_new sample_os"
  have "(0 :: nat) < 5 \<and> lo_fopen sample_os ''log.txt'' ''ab'' 0" by (simp add: sample_os_def)
  then have f: "\<exists>i < 5. lo_fopen sample_os ''log.txt'' ''ab'' i" by blast
  have "map_of (rg_loggers ?w) ''net'' = None" by (simp add: registry_new_simps)
  from basic_logger_mt_async_enters [OF registry_new_ok registry_new_simps(2) this f]
  obtain l w tp where w: "basic_logger_mt_async sample_os ''net'' ''log.txt'' ?w = Inr (l, w)" "rg_tp w = Some tp"
    "enters ''net'' l (initialized ?w (async_logger_new ''net'' [l - 1] tp policy_block l)) ?w w" by blast
  let ?lg = "initialized ?w (async_logger_new ''net'' [l - 1] tp policy_block l)"
  have r: "log_reachable sample_log_env sample_os w"
    by (rule log_next [OF log_start sample_call_ok sample_call_env, of "Basic_logger_mt_async ''net'' ''log.txt''"])
       (simp_all add: w(1) world_of_def sample_call_env)
  have lg: "lw_loggers w l = Some ?lg" "lg_async ?lg = Some (policy_block, tp)" "distinct (lg_sinks ?lg)"
    "logger_should_log level_warn ?lg" "sl_line no_source < 2 ^ 32" "(\<lambda>_. ''net'') l = lg_name ?lg"
    using w(3) by (simp_all add: enters_def initialized_def async_logger_new_def logger_new_def logger_should_log_def registry_new_simps
      level_code_def no_source_def)
  have h: "format_to (le_fmt sample_log_env) [] ''hello'' [] = Inr ''hello''" by (rule format_to_chars) simp_all
  show ?thesis
    using async_logger_writes_lines [OF r sample_call_ok sample_call_env(1) lg(1,2) w(2) lg(4,5) h lg(6) r sample_call_ok sample_call_env
        sample_writes_all lg(1,3)] lg(1,2) by blast
qed

section \<open>Colour ranges\<close>

lemma compile_v: "compile_pattern ''%v'' = [v_formatter no_padding]"
  using compile_item [of "([], no_padding, CHR ''v'')" "[]"]
  by (simp add: item_ok_def item_text_def item_formatters_def literal_formatters_def padspec_text_def no_padding_def is_digit_char_def
      handle_flag_def compile_pattern_def)

lemma length_two_digits_ge: "2 \<le> length (two_digits n)"
proof (cases "n < 0")
  case True
  have "1 \<le> length (decimal (nat (- n)))" using length_decimal_pos [of "nat (- n)"] by linarith
  then show ?thesis using True by (simp add: two_digits_def signed_decimal_def)
qed (simp add: two_digits_def length_zero_padded)

lemma length_signed_decimal_ge: "1 \<le> length (signed_decimal n)"
  by (simp add: signed_decimal_def Suc_le_eq)

lemma length_full_head_ge: "24 \<le> length (full_head msg t)"
  using length_signed_decimal_ge [of "tm_year t + 1900"] length_two_digits_ge [of "tm_mon t + 1"] length_two_digits_ge [of "tm_mday t"]
    length_two_digits_ge [of "tm_hour t"] length_two_digits_ge [of "tm_min t"] length_two_digits_ge [of "tm_sec t"]
    length_zero_padded [of 3 "unsigned_of 32 (time_fraction 1000 (lm_time msg))"]
  unfolding full_head_def datetime_text_def clock_text_def by (simp only: length_append list.size)

lemma length_level_ge: "3 \<le> length (level_to_string_view l)"
  by (cases l) (simp_all add: level_to_string_view_def level_string_views_def level_code_def)

lemma full_line:
  "pattern_line env (pattern_formatter_default tt eol) (msg, []) =
     (let t = tm_at env tt (to_secs (lm_time msg)) in
      (msg\<lparr>lm_color_start := length (full_head msg t), lm_color_end := length (full_head msg t @ level_to_string_view (lm_level msg))\<rparr>,
       full_text msg t @ eol))"
proof -
  have "compile_pattern ''%+'' = [full_formatter no_padding empty_cache]"
    using pattern_inv_default [of env tt eol] by (simp add: pattern_inv_def pattern_formatter_default_def)
  then show ?thesis by (simp add: pattern_line_def pattern_formatter_default_def flag_effect_def Let_def)
qed

lemma v_line: "pattern_line env (pattern_formatter_new ''%v'' tt eol) (msg, []) = (msg, lm_payload msg @ eol)"
  by (simp add: pattern_line_def pattern_formatter_new_def compile_v flag_effect_def field_def padded_def padding_enabled_def
      no_padding_def Let_def)

text \<open>The colour range belongs to the message and stays when the next sink formats it with a pattern without colour markers. With two coloured
  consoles, the first with the default pattern and the second with the bare text, a text of at most 25 characters makes the second console write a
  range outside the buffer, in every call and for every level.\<close>

theorem stale_color_range:
  assumes "call_ok c" "lo_color (lc_os c)" "writes_all (lc_os c)"
    and "lw_loggers w l = Some lg" "lg_async lg = None" "lg_sinks lg = [k1, k2]" "k1 \<noteq> k2" "logger_should_log lvl lg"
    and "lw_sinks w k1 = Some (ansicolor_sink_new (lc_os c))"
    and "lw_sinks w k2 = Some (sink_set_pattern ''%v'' (ansicolor_sink_new (lc_os c)))"
    and "sl_line src < 2 ^ 32" "length s \<le> 25"
  shows "logger_log_text c l src lvl s w = Inl Out_of_bounds"
proof -
  let ?os = "lc_os c" and ?env = "lc_env c" and ?m = "make_msg c src lg lvl s"
  let ?s1 = "ansicolor_sink_new (lc_os c)" and ?s2 = "sink_set_pattern ''%v'' (ansicolor_sink_new (lc_os c))"
  have m: "msg_timed ?m" "lm_color_end ?m = 0" using make_msg_timed [OF assms(1,11)] by simp_all
  then have t: "msg_ok ?m" "to_secs (lm_time ?m) \<noteq> 0" by (simp_all add: msg_timed_def)
  have env: "log_env_ok ?env" using assms(1) by (simp add: call_ok_def)
  let ?t = "tm_at ?env time_local (to_secs (lm_time ?m))"
  define n where "n = ?m\<lparr>lm_color_start := length (full_head ?m ?t),
    lm_color_end := length (full_head ?m ?t @ level_to_string_view (lm_level ?m))\<rparr>"
  have line: "pattern_line ?env (sk_formatter ?s1) (?m, []) = (n, full_text ?m ?t @ default_eol)"
    using full_line [of ?env time_local default_eol ?m] by (simp add: ansicolor_sink_new_def sink_new_def n_def Let_def)
  have "lm_color_end n \<le> length (full_text ?m ?t @ default_eol)" by (simp add: n_def full_text_def)
  then obtain sk1 where one: "sink_log ?env ?os (?s1, ?m) = ok (sk1, n)"
    using sink_log_eq [OF ansicolor_sink_ok env assms(3) t line] by blast
  have n: "msg_ok n" "to_secs (lm_time n) \<noteq> 0" "lm_payload n = s" "lm_level n = lvl"
    using t by (simp_all add: n_def msg_ok_def make_msg_def log_msg_new_def)
  have range: "lm_color_start n < lm_color_end n" "27 \<le> lm_color_end n"
    using length_full_head_ge [of ?m ?t] length_level_ge [of "lm_level ?m"] unfolding n_def by (simp_all del: length_greater_0_conv)
  have pf: "sk_formatter ?s2 = pattern_formatter_new ''%v'' time_local default_eol" "sk_target ?s2 = Console_target True default_colors []"
    using assms(2) by (simp_all add: sink_set_pattern_def sink_set_formatter_def ansicolor_sink_new_def sink_new_def)
  obtain pf' where "pattern_formatter_format ?env (sk_formatter ?s2) (n, []) = Inr (pf', n, s @ default_eol)"
    using pattern_format_eq [OF pattern_inv_new env n(1,2), of "''%v''" time_local default_eol "[]"] v_line [of ?env time_local default_eol n] n(3)
    by (auto simp: pf(1))
  moreover have "ansicolor_print ?os True default_colors n (s @ default_eol) [] = Inl Out_of_bounds"
    using range assms(12) by (intro ansicolor_print_stale) (simp_all add: default_eol_def)
  ultimately have two: "sink_log ?env ?os (?s2, n) = Inl Out_of_bounds" using pf(2) by (simp add: sink_log_def catching_def)
  have lv: "sink_should_log v ?s1" "sink_should_log v ?s2" "lm_level ?m = lvl" for v
    by (simp_all add: sink_should_log_def ansicolor_sink_new_def sink_new_def sink_set_pattern_def sink_set_formatter_def level_code_def
        make_msg_def log_msg_new_def)
  have "sinks_log c [k1, k2] (w, ?m) = Inl Out_of_bounds"
    using one two lv assms(7,9,10) by (simp add: get_sink_def ok_def and_then_def put_sink_def)
  then show ?thesis
    using assms(5,6,8) by (simp add: logger_log_text_def get_logger_Some [OF assms(4)] logger_sink_it_def catch_and_handle_def)
qed

definition two_consoles :: log_world where
  "two_consoles =
     (let (k1, w) = make_shared_sink (ansicolor_sink_new sample_os) (registry_new sample_os);
          (k2, w) = make_shared_sink (sink_set_pattern ''%v'' (ansicolor_sink_new sample_os)) w
      in snd (make_shared_logger (logger_new ''both'' [k1, k2]) w))"

theorem stale_color_range_witness:
  "logger_log_text sample_call 4 no_source level_err ''disk full'' two_consoles = Inl Out_of_bounds"
  by (rule stale_color_range [where lg = "logger_new ''both'' [2, 3] 4" and ?k1.0 = 2 and ?k2.0 = 3])
     (simp_all add: sample_call_ok sample_call_env sample_writes_all two_consoles_def make_shared_sink_def make_shared_logger_def
       registry_new_simps put_sink_def put_logger_def logger_new_def logger_should_log_def default_level_def level_code_def no_source_def Let_def,
      simp_all add: sample_os_def)

end
