(* ===== verification/Log_Dist.thy ===== *)
theory Log_Dist
  imports Log_Logger
begin

text \<open>
  The sink that distributes messages over other sinks (\<^verbatim>\<open>sinks/dist_sink.h\<close> under \<^verbatim>\<open>src/deps/spdlog\<close>). It holds shared pointers, the
  numbers of sinks in the world of the loggers, and loops over them in the way a logger does; its own formatter is only passed on.

  Shown here: every sink in it gets the line of a message, and a formatter reaches all of them.
\<close>

section \<open>State and operations\<close>

record dist_sink =
  dt_level :: level_enum
  dt_formatter :: pattern_formatter
  dt_sinks :: "nat list"

definition dist_sink_new :: dist_sink where
  "dist_sink_new = \<lparr>dt_level = level_trace, dt_formatter = pattern_formatter_default time_local default_eol, dt_sinks = []\<rparr>"

definition dist_add_sink :: "nat \<Rightarrow> dist_sink \<Rightarrow> dist_sink" where
  "dist_add_sink k ds = ds\<lparr>dt_sinks := dt_sinks ds @ [k]\<rparr>"

definition dist_remove_sink :: "nat \<Rightarrow> dist_sink \<Rightarrow> dist_sink" where
  "dist_remove_sink k ds = ds\<lparr>dt_sinks := removeAll k (dt_sinks ds)\<rparr>"

definition dist_set_sinks :: "nat list \<Rightarrow> dist_sink \<Rightarrow> dist_sink" where
  "dist_set_sinks ks ds = ds\<lparr>dt_sinks := ks\<rparr>"

definition dist_sink_it :: "log_call \<Rightarrow> dist_sink \<Rightarrow> log_world \<times> log_msg \<Rightarrow> (log_world \<times> log_msg) outcome" where
  "dist_sink_it c ds s = sinks_log c (dt_sinks ds) s"

definition dist_flush :: "dist_sink \<Rightarrow> log_world \<Rightarrow> log_world res" where
  "dist_flush ds w = sinks_flush (dt_sinks ds) w"

definition dist_set_formatter :: "pattern_formatter \<Rightarrow> dist_sink \<times> log_world \<Rightarrow> (dist_sink \<times> log_world) res" where
  "dist_set_formatter f = (\<lambda>(ds, w).
     let ds = ds\<lparr>dt_formatter := f\<rparr>
     in res_bind (sinks_set_formatter (dt_formatter ds) (dt_sinks ds) w) (\<lambda>w. Inr (ds, w)))"

definition dist_set_pattern :: "string \<Rightarrow> dist_sink \<times> log_world \<Rightarrow> (dist_sink \<times> log_world) res" where
  "dist_set_pattern pattern = dist_set_formatter (pattern_formatter_new pattern time_local default_eol)"

section \<open>What the sinks get\<close>

text \<open>A message reaches every sink of sufficient level as the line of that sink's pattern. As for a logger, only the first sink may be a
  console.\<close>

lemma dist_sink_writes:
  assumes "log_env_ok (lc_env c)" "writes_all (lc_os c)" "msg_timed msg" "lm_color_end msg = 0" "distinct (dt_sinks ds)"
    and "world_ok (lc_env c) w" "sinks_ok w (dt_sinks ds)"
  shows "\<exists>g m'. dist_sink_it c ds (w, msg) = ok (w\<lparr>lw_sinks := g\<rparr>, m') \<and> got_line (lc_env c) (dt_sinks ds) msg (lw_sinks w) g"
proof -
  have "recolored msg msg" by (rule recolored_refl)
  then show ?thesis using sinks_log_writes [OF assms(1-3,5) _ assms(6,7), of msg] assms(4) by (auto simp: dist_sink_it_def)
qed

lemma sinks_set_formatter_all:
  assumes "\<forall>k \<in> set ks. lw_sinks w k \<noteq> None"
  shows "\<exists>w'. sinks_set_formatter f ks w = Inr w' \<and> (\<forall>k. map_option sk_formatter (lw_sinks w' k) =
    (if k \<in> set ks then Some (pattern_formatter_clone f) else map_option sk_formatter (lw_sinks w k)))"
  using assms
proof (induction ks arbitrary: w)
  case (Cons k ks)
  then obtain sk where sk: "lw_sinks w k = Some sk" by auto
  let ?w = "put_sink k (sink_set_formatter (pattern_formatter_clone f) sk) w"
  have "\<forall>k \<in> set ks. lw_sinks ?w k \<noteq> None" using Cons.prems by (simp add: put_sink_def)
  then obtain w' where w': "sinks_set_formatter f ks ?w = Inr w'" "\<forall>k. map_option sk_formatter (lw_sinks w' k) =
      (if k \<in> set ks then Some (pattern_formatter_clone f) else map_option sk_formatter (lw_sinks ?w k))"
    using Cons.IH by blast
  then show ?case using sk by (auto simp: get_sink_def put_sink_def sink_set_formatter_def)
qed simp

text \<open>A formatter is copied to every sink and to no other.\<close>

lemma dist_set_formatter_all:
  assumes "\<forall>k \<in> set (dt_sinks ds). lw_sinks w k \<noteq> None"
  shows "\<exists>w'. dist_set_formatter f (ds, w) = Inr (ds\<lparr>dt_formatter := f\<rparr>, w') \<and> (\<forall>k. map_option sk_formatter (lw_sinks w' k) =
    (if k \<in> set (dt_sinks ds) then Some (pattern_formatter_clone f) else map_option sk_formatter (lw_sinks w k)))"
proof -
  obtain w' where "sinks_set_formatter f (dt_sinks ds) w = Inr w'" "\<forall>k. map_option sk_formatter (lw_sinks w' k) =
      (if k \<in> set (dt_sinks ds) then Some (pattern_formatter_clone f) else map_option sk_formatter (lw_sinks w k))"
    using sinks_set_formatter_all [OF assms, of f] by blast
  then show ?thesis by (intro exI [of _ w']) (simp add: dist_set_formatter_def)
qed

text \<open>Removing takes every copy of a sink out, so that a message does not reach it any more.\<close>

lemma dist_remove_sink_silent:
  assumes "log_env_ok (lc_env c)" "writes_all (lc_os c)" "msg_timed msg" "lm_color_end msg = 0" "distinct (dt_sinks ds)"
    and "world_ok (lc_env c) w" "sinks_ok w (removeAll k (dt_sinks ds))" "lw_sinks w k = Some sk"
  shows "\<exists>g m' sk'. dist_sink_it c (dist_remove_sink k ds) (w, msg) = ok (w\<lparr>lw_sinks := g\<rparr>, m') \<and> g k = Some sk' \<and> sink_out sk' = sink_out sk"
  using dist_sink_writes [OF assms(1-4) _ assms(6), of "dist_remove_sink k ds"] assms(5,7,8)
  by (fastforce simp: dist_remove_sink_def got_line_def distinct_removeAll)

end
