(* ===== verification/Log_Rotate.thy ===== *)
theory Log_Rotate
  imports Log_Sink
begin

text \<open>
  The sink that rotates its files by size (\<^verbatim>\<open>sinks/rotating_file_sink.h\<close> under \<^verbatim>\<open>src/deps/spdlog\<close>). The files are part of
  the state: a map from names to contents, changed by this sink only. Every system call may fail: whether it does is a
  parameter of each call.

  Shown here: names of files are different; the sink never uses a closed stream, whatever fails; when nothing fails the files are a list that is shifted by
  one with each rotation, and hold the end of what was logged within the limits of size.
\<close>

section \<open>Files\<close>

type_synonym disk = "string \<rightharpoonup> string"

text \<open>Removing and renaming by the number of the try; asking for the size of an open file.\<close>

record disk_os =
  dk_log :: log_os
  dk_remove :: "string \<Rightarrow> nat \<Rightarrow> bool"
  dk_rename :: "string \<Rightarrow> string \<Rightarrow> nat \<Rightarrow> bool"
  dk_fstat :: bool

definition contents :: "disk \<Rightarrow> string \<Rightarrow> string" where
  "contents d f = (case d f of None \<Rightarrow> [] | Some s \<Rightarrow> s)"

record rotating_file_sink =
  rs_level :: level_enum
  rs_formatter :: pattern_formatter
  rs_base_filename :: string
  rs_max_size :: nat
  rs_max_files :: nat
  rs_current_size :: nat
  rs_file :: file_helper
  rs_disk :: disk

section \<open>Operations\<close>

text \<open>The name with an index before the extension.\<close>

definition calc_filename :: "fmt_env \<Rightarrow> string \<Rightarrow> nat \<Rightarrow> string res" where
  "calc_filename env fname index =
     (if index \<noteq> 0 then
        let (basename, ext) = split_by_extension fname
        in format_to env [] ''{}.{}{}'' [Plain (Arg_string basename), Plain (Arg_ulong_long index), Plain (Arg_string ext)]
      else format_to env [] ''{}'' [Plain (Arg_string fname)])"

text \<open>Opening a file creates it or, when asked to, empties it.\<close>

definition disk_open :: "log_os \<Rightarrow> string \<Rightarrow> bool \<Rightarrow> file_helper \<times> disk \<Rightarrow> (file_helper \<times> disk) outcome" where
  "disk_open os fname trunc = (\<lambda>(fh, d).
     res_bind (file_helper_open os fname trunc fh) (\<lambda>(fh, ex).
       Inr ((fh, if ex = None then d(fname \<mapsto> if trunc then [] else contents d fname) else d), ex)))"

definition rotating_reopen :: "disk_os \<Rightarrow> rotating_file_sink \<Rightarrow> rotating_file_sink outcome" where
  "rotating_reopen os rs =
     (if fh_filename (rs_file rs) = [] then throw ''Failed re opening file - was not opened before'' rs
      else res_bind (disk_open (dk_log os) (fh_filename (rs_file rs)) True (rs_file rs, rs_disk rs)) (\<lambda>((fh, d), ex).
        Inr (rs\<lparr>rs_file := fh, rs_disk := d\<rparr>, ex)))"

text \<open>What \<^verbatim>\<open>fwrite\<close> has taken is in the file.\<close>

definition disk_write :: "log_os \<Rightarrow> string \<Rightarrow> file_helper \<times> disk \<Rightarrow> (file_helper \<times> disk) outcome" where
  "disk_write os buf = (\<lambda>(fh, d).
     res_bind (file_helper_write os buf fh) (\<lambda>(fh', ex).
       Inr ((fh', d(fh_filename fh' \<mapsto> contents d (fh_filename fh') @ drop (length (fh_text fh)) (fh_text fh'))), ex)))"

definition rotating_write :: "disk_os \<Rightarrow> string \<Rightarrow> rotating_file_sink \<Rightarrow> rotating_file_sink outcome" where
  "rotating_write os buf rs =
     res_bind (disk_write (dk_log os) buf (rs_file rs, rs_disk rs)) (\<lambda>((fh, d), ex). Inr (rs\<lparr>rs_file := fh, rs_disk := d\<rparr>, ex))"

definition rename_file :: "disk_os \<Rightarrow> nat \<Rightarrow> string \<Rightarrow> string \<Rightarrow> disk \<Rightarrow> bool \<times> disk" where
  "rename_file os try src target d =
     (let d = (if dk_remove os target try then d(target := None) else d)
      in if dk_rename os src target try then (True, d(src := None, target := d src)) else (False, d))"

text \<open>The loop of \<^verbatim>\<open>rotate_\<close> from an index down to one.\<close>

fun rotate_loop :: "fmt_env \<Rightarrow> disk_os \<Rightarrow> nat \<Rightarrow> rotating_file_sink \<Rightarrow> rotating_file_sink outcome" where
  "rotate_loop env os 0 rs = ok rs"
| "rotate_loop env os (Suc i) rs =
     catching rs (calc_filename env (rs_base_filename rs) i) (\<lambda>src.
       if rs_disk rs src = None then rotate_loop env os i rs
       else catching rs (calc_filename env (rs_base_filename rs) (Suc i)) (\<lambda>target.
         case rename_file os 0 src target (rs_disk rs) of
           (True, d) \<Rightarrow> rotate_loop env os i (rs\<lparr>rs_disk := d\<rparr>)
         | (False, d) \<Rightarrow>
             (case rename_file os 1 src target d of
                (True, d) \<Rightarrow> rotate_loop env os i (rs\<lparr>rs_disk := d\<rparr>)
              | (False, d) \<Rightarrow>
                  and_then (rotating_reopen os (rs\<lparr>rs_disk := d\<rparr>)) (\<lambda>rs.
                    throw (lo_syserr (dk_log os) (''rotating_file_sink: failed renaming '' @ src @ '' to '' @ target))
                      (rs\<lparr>rs_current_size := 0\<rparr>)))))"

definition rotating_rotate :: "fmt_env \<Rightarrow> disk_os \<Rightarrow> rotating_file_sink \<Rightarrow> rotating_file_sink outcome" where
  "rotating_rotate env os rs =
     and_then (rotate_loop env os (rs_max_files rs) (rs\<lparr>rs_file := file_helper_close (rs_file rs)\<rparr>)) (rotating_reopen os)"

text \<open>The rest of \<^verbatim>\<open>sink_it_\<close>, for the formatted text.\<close>

definition rotating_put :: "fmt_env \<Rightarrow> disk_os \<Rightarrow> string \<Rightarrow> rotating_file_sink \<Rightarrow> rotating_file_sink outcome" where
  "rotating_put env os formatted rs =
     (let rs = rs\<lparr>rs_current_size := sz_add (rs_current_size rs) (length formatted)\<rparr>
      in and_then
        (if rs_current_size rs > rs_max_size rs
         then and_then (rotating_rotate env os rs) (\<lambda>rs. ok (rs\<lparr>rs_current_size := length formatted\<rparr>))
         else ok rs)
        (rotating_write os formatted))"

definition rotating_sink_it :: "log_env \<Rightarrow> disk_os \<Rightarrow> rotating_file_sink \<times> log_msg \<Rightarrow> (rotating_file_sink \<times> log_msg) outcome" where
  "rotating_sink_it env os = (\<lambda>(rs, msg).
     catching (rs, msg) (pattern_formatter_format env (rs_formatter rs) (msg, [])) (\<lambda>(pf, msg, formatted).
       res_bind (rotating_put (le_fmt env) os formatted (rs\<lparr>rs_formatter := pf\<rparr>)) (\<lambda>(rs, ex). Inr ((rs, msg), ex))))"

definition rotating_flush :: "rotating_file_sink \<Rightarrow> rotating_file_sink" where
  "rotating_flush rs = rs\<lparr>rs_file := file_helper_flush (rs_file rs)\<rparr>"

definition rotating_set_formatter :: "pattern_formatter \<Rightarrow> rotating_file_sink \<Rightarrow> rotating_file_sink" where
  "rotating_set_formatter pf rs = rs\<lparr>rs_formatter := pf\<rparr>"

definition file_helper_size :: "disk_os \<Rightarrow> file_helper \<Rightarrow> disk \<Rightarrow> nat res" where
  "file_helper_size os fh d =
     (if \<not> fh_fd fh then Inl (Spdlog_ex (''Cannot use size() on closed file '' @ fh_filename fh))
      else if dk_fstat os then Inr (length (contents d (fh_filename fh)))
      else Inl (Spdlog_ex (lo_syserr (dk_log os) ''Failed getting file size from fd'')))"

definition rotating_file_sink_new :: "fmt_env \<Rightarrow> disk_os \<Rightarrow> string \<Rightarrow> nat \<Rightarrow> nat \<Rightarrow> disk \<Rightarrow> rotating_file_sink res" where
  "rotating_file_sink_new env os base_filename size_limit max_files d =
     res_bind (calc_filename env base_filename 0) (\<lambda>fname.
     res_bind (disk_open (dk_log os) fname False (file_helper_new, d)) (\<lambda>((fh, d), ex).
       case ex of
         Some what \<Rightarrow> Inl (Spdlog_ex what)
       | None \<Rightarrow> res_bind (file_helper_size os fh d) (\<lambda>n.
           Inr \<lparr>rs_level = level_trace, rs_formatter = pattern_formatter_default time_local default_eol,
             rs_base_filename = base_filename, rs_max_size = size_limit, rs_max_files = max_files, rs_current_size = n,
             rs_file = fh, rs_disk = d\<rparr>)))"

section \<open>Names\<close>

definition nth_name :: "string \<Rightarrow> nat \<Rightarrow> string" where
  "nth_name f i = (if i = 0 then f else fst (split_by_extension f) @ ''.'' @ decimal i @ snd (split_by_extension f))"

lemma calc_filename_eq:
  assumes "i < 2 ^ 64"
  shows "calc_filename env f i = Inr (nth_name f i)"
proof -
  obtain b e where s: "split_by_extension f = (b, e)" by fastforce
  have "format_to env [] ''{}.{}{}'' [Plain (Arg_string b), Plain (Arg_ulong_long i), Plain (Arg_string e)] =
      Inr (b @ CHR ''.'' # decimal i @ e)"
    using format_to_tokens [of "[Plain (Arg_string b), Plain (Arg_ulong_long i), Plain (Arg_string e)]"
        "[Auto_field, Chr (CHR ''.''), Auto_field, Auto_field]" env "[]"] assms
    by (simp add: store_ok_def deserialize_def)
  moreover have "format_to env [] ''{}'' [Plain (Arg_string f)] = Inr f"
    using format_to_tokens [of "[Plain (Arg_string f)]" "[Auto_field]" env "[]"] by (simp add: store_ok_def deserialize_def)
  ultimately show ?thesis using s by (simp add: calc_filename_def nth_name_def)
qed

lemma nth_name_inj: "nth_name f i = nth_name f j \<longleftrightarrow> i = j"
proof -
  obtain b e where s: "split_by_extension f = (b, e)" by fastforce
  then have f: "f = b @ e" using split_by_extension_join(1) by simp
  have "decimal i = decimal j \<longleftrightarrow> i = j" using decimal_value_decimal by metis
  moreover have "b @ e \<noteq> b @ CHR ''.'' # decimal k @ e" for k
  proof
    assume "b @ e = b @ CHR ''.'' # decimal k @ e"
    then have "length e = Suc (length (decimal k) + length e)" by (metis same_append_eq length_Cons length_append)
    then show False by simp
  qed
  ultimately show ?thesis using s f by (auto simp: nth_name_def)
qed

section \<open>Streams\<close>

text \<open>What no operation changes.\<close>

definition same_setup :: "rotating_file_sink \<Rightarrow> rotating_file_sink \<Rightarrow> bool" where
  "same_setup rs rs' \<longleftrightarrow> rs_level rs' = rs_level rs \<and> rs_formatter rs' = rs_formatter rs \<and> rs_base_filename rs' = rs_base_filename rs \<and>
     rs_max_size rs' = rs_max_size rs \<and> rs_max_files rs' = rs_max_files rs \<and> fh_filename (rs_file rs') = fh_filename (rs_file rs)"

lemma same_setup_refl [simp]: "same_setup rs rs"
  by (simp add: same_setup_def)

lemma same_setup_trans: "same_setup a b \<Longrightarrow> same_setup b c \<Longrightarrow> same_setup a c"
  by (simp add: same_setup_def)

lemma same_setup_disk [simp]: "same_setup (rs\<lparr>rs_disk := d\<rparr>) rs' = same_setup rs rs'" "same_setup rs' (rs\<lparr>rs_disk := d\<rparr>) = same_setup rs' rs"
  "same_setup rs' (rs\<lparr>rs_current_size := n\<rparr>) = same_setup rs' rs" "same_setup (rs\<lparr>rs_current_size := n\<rparr>) rs' = same_setup rs rs'"
  by (simp_all add: same_setup_def)

text \<open>A stream that is closed after an exception leaves the size as it was.\<close>

definition stream_kept :: "rotating_file_sink \<Rightarrow> rotating_file_sink outcome \<Rightarrow> bool" where
  "stream_kept rs r \<longleftrightarrow> (\<exists>rs' ex. r = Inr (rs', ex) \<and> same_setup rs rs' \<and>
     (fh_fd (rs_file rs') \<or> ex \<noteq> None \<and> rs_current_size rs' = rs_current_size rs) \<and> rs_current_size rs' \<le> rs_current_size rs)"

lemma rotating_reopen_kept: "stream_kept rs (rotating_reopen os rs)" if "\<not> fh_fd (rs_file rs)"
  using that
  by (auto simp: stream_kept_def rotating_reopen_def disk_open_def file_helper_open_def file_helper_close_def file_open_loop_eq
      throw_def ok_def same_setup_def Let_def)

text \<open>The loop keeps the stream closed unless it fails.\<close>

definition loop_kept :: "rotating_file_sink \<Rightarrow> rotating_file_sink outcome \<Rightarrow> bool" where
  "loop_kept rs r \<longleftrightarrow> (\<exists>rs' ex. r = Inr (rs', ex) \<and> same_setup rs rs' \<and> rs_current_size rs' \<le> rs_current_size rs \<and>
     (ex = None \<longrightarrow> \<not> fh_fd (rs_file rs')) \<and> (ex = None \<or> \<not> fh_fd (rs_file rs') \<longrightarrow> rs_current_size rs' = rs_current_size rs))"

lemma loop_kept_disk [simp]: "loop_kept (rs\<lparr>rs_disk := d\<rparr>) r = loop_kept rs r"
  by (simp add: loop_kept_def)

lemma rotate_loop_kept:
  assumes "n < 2 ^ 64" "\<not> fh_fd (rs_file rs)"
  shows "loop_kept rs (rotate_loop env os n rs)"
  using assms
proof (induction n arbitrary: rs)
  case (Suc n)
  have again: "loop_kept rs (rotate_loop env os n (rs\<lparr>rs_disk := d\<rparr>))" for d
    using Suc.IH [of "rs\<lparr>rs_disk := d\<rparr>"] Suc.prems by simp
  have fails: "loop_kept rs (and_then (rotating_reopen os (rs\<lparr>rs_disk := d\<rparr>)) (\<lambda>rs. throw w (rs\<lparr>rs_current_size := 0\<rparr>)))" for d w
    using rotating_reopen_kept [of "rs\<lparr>rs_disk := d\<rparr>" os] Suc.prems
    by (auto simp: stream_kept_def loop_kept_def and_then_def throw_def split: option.splits)
  have "n < 2 ^ 64" using Suc.prems by simp
  then show ?case
    using Suc.prems again [of "rs_disk rs"] again fails
    by (simp add: catching_def calc_filename_eq split: prod.splits bool.splits)
qed (simp add: ok_def loop_kept_def)

lemma rotate_kept:
  assumes "rs_max_files rs < 2 ^ 64"
  shows "stream_kept rs (rotating_rotate env os rs)"
proof -
  let ?rs = "rs\<lparr>rs_file := file_helper_close (rs_file rs)\<rparr>"
  have s: "same_setup rs ?rs" "rs_current_size ?rs = rs_current_size rs" by (simp_all add: same_setup_def file_helper_close_def)
  have "\<not> fh_fd (rs_file ?rs)" by (simp add: file_helper_close_def)
  from rotate_loop_kept [OF assms this, of env os]
  obtain rs' ex where r: "rotate_loop env os (rs_max_files rs) ?rs = Inr (rs', ex)" "same_setup ?rs rs'" "rs_current_size rs' \<le> rs_current_size rs"
    "ex = None \<longrightarrow> \<not> fh_fd (rs_file rs')" "ex = None \<or> \<not> fh_fd (rs_file rs') \<longrightarrow> rs_current_size rs' = rs_current_size rs"
    unfolding loop_kept_def s(2) by blast
  have st: "same_setup rs rs'" using same_setup_trans [OF s(1) r(2)] .
  show ?thesis
  proof (cases ex)
    case None
    then have "stream_kept rs' (rotating_reopen os rs')" using rotating_reopen_kept r(4) by simp
    then show ?thesis using None r st by (auto simp: rotating_rotate_def and_then_def stream_kept_def intro: same_setup_trans)
  next
    case (Some w)
    then show ?thesis using r st by (auto simp: rotating_rotate_def and_then_def stream_kept_def throw_def)
  qed
qed

text \<open>The stream is open, or the next message rotates.\<close>

definition stream_ok :: "rotating_file_sink \<Rightarrow> bool" where
  "stream_ok rs \<longleftrightarrow> rs_max_files rs < 2 ^ 64 \<and> (fh_fd (rs_file rs) \<or> rs_max_size rs < rs_current_size rs)"

lemma rotating_write_kept:
  "fh_fd (rs_file rs) \<Longrightarrow> \<exists>rs' ex. rotating_write os s rs = Inr (rs', ex) \<and> fh_fd (rs_file rs') \<and> same_setup rs rs' \<and>
    rs_current_size rs' = rs_current_size rs"
  by (auto simp: rotating_write_def disk_write_def file_helper_write_def throw_def ok_def same_setup_def Let_def)

lemma rotating_put_safe:
  assumes "stream_ok rs" "rs_current_size rs + length s < 2 ^ 64"
  shows "\<exists>rs' ex. rotating_put env os s rs = Inr (rs', ex) \<and> stream_ok rs' \<and> same_setup rs rs' \<and>
    rs_current_size rs' \<le> rs_current_size rs + length s"
proof -
  let ?n = "rs_current_size rs + length s"
  let ?rs = "rs\<lparr>rs_current_size := ?n\<rparr>"
  have a: "sz_add (rs_current_size rs) (length s) = ?n" using assms(2) by simp
  have k: "rs_max_files rs < 2 ^ 64" using assms(1) by (simp add: stream_ok_def)
  show ?thesis
  proof (cases "?n \<le> rs_max_size rs")
    case True
    then have "fh_fd (rs_file ?rs)" using assms(1) by (auto simp: stream_ok_def)
    from rotating_write_kept [OF this] show ?thesis
      using True a k by (fastforce simp: rotating_put_def and_then_def ok_def stream_ok_def same_setup_def)
  next
    case False
    obtain rs' ex where r: "rotating_rotate env os ?rs = Inr (rs', ex)" "same_setup rs rs'"
      "fh_fd (rs_file rs') \<or> ex \<noteq> None \<and> rs_current_size rs' = ?n" "rs_current_size rs' \<le> ?n"
      using rotate_kept [of ?rs env os] k by (auto simp: stream_kept_def)
    have k': "rs_max_files rs' < 2 ^ 64" "rs_max_size rs' = rs_max_size rs" using r(2) k by (simp_all add: same_setup_def)
    show ?thesis
    proof (cases ex)
      case None
      then have "fh_fd (rs_file (rs'\<lparr>rs_current_size := length s\<rparr>))" using r(3) by simp
      from rotating_write_kept [OF this] show ?thesis
        using None False a r k' by (fastforce simp: rotating_put_def and_then_def ok_def stream_ok_def same_setup_def)
    next
      case (Some w)
      then show ?thesis using False a r k' by (auto simp: rotating_put_def and_then_def throw_def stream_ok_def)
    qed
  qed
qed

section \<open>Files as a list\<close>

text \<open>A system in which nothing fails.\<close>

definition disk_works :: "disk_os \<Rightarrow> bool" where
  "disk_works os \<longleftrightarrow> writes_all (dk_log os) \<and> (\<forall>f m. lo_fopen (dk_log os) f m 0) \<and> (\<forall>f n. dk_remove os f n) \<and>
     (\<forall>f g n. dk_rename os f g n) \<and> dk_fstat os"

text \<open>Every file up to an index has the contents of the one before.\<close>

definition move_up :: "string \<Rightarrow> nat \<Rightarrow> disk \<Rightarrow> disk" where
  "move_up f i d = d(nth_name f i := None, nth_name f (Suc i) := d (nth_name f i))"

fun shift :: "string \<Rightarrow> nat \<Rightarrow> disk \<Rightarrow> disk" where
  "shift f 0 d = d"
| "shift f (Suc i) d = shift f i (move_up f i d)"

definition no_gaps :: "string \<Rightarrow> nat \<Rightarrow> disk \<Rightarrow> bool" where
  "no_gaps f n d \<longleftrightarrow> (\<forall>i < n. d (nth_name f i) = None \<longrightarrow> d (nth_name f (Suc i)) = None)"

lemma shift_eq:
  "shift f n d (nth_name f j) = (if n < j then d (nth_name f j) else if j = 0 then (if n = 0 then d (nth_name f 0) else None) else d (nth_name f (j - 1)))"
  by (induction n arbitrary: d) (auto simp: move_up_def nth_name_inj)

lemma shift_other: "\<forall>i \<le> n. x \<noteq> nth_name f i \<Longrightarrow> shift f n d x = d x"
  by (induction n arbitrary: d) (auto simp: move_up_def)

lemma no_gaps_step: "no_gaps f (Suc i) d \<Longrightarrow> no_gaps f i (move_up f i d)"
  by (auto simp: no_gaps_def move_up_def nth_name_inj)

lemma rotate_loop_shift:
  assumes "disk_works os" "n < 2 ^ 64" "no_gaps (rs_base_filename rs) n (rs_disk rs)"
  shows "rotate_loop env os n rs = ok (rs\<lparr>rs_disk := shift (rs_base_filename rs) n (rs_disk rs)\<rparr>)"
  using assms(2,3)
proof (induction n arbitrary: rs)
  case (Suc n)
  let ?f = "rs_base_filename rs" and ?d = "rs_disk rs"
  let ?d' = "move_up ?f n ?d"
  have n: "n < 2 ^ 64" using Suc.prems by simp
  have IH: "rotate_loop env os n (rs\<lparr>rs_disk := ?d'\<rparr>) = ok (rs\<lparr>rs_disk := shift ?f n ?d'\<rparr>)"
    using Suc.IH [of "rs\<lparr>rs_disk := ?d'\<rparr>"] n no_gaps_step [OF Suc.prems(2)] by simp
  show ?case
  proof (cases "?d (nth_name ?f n)")
    case None
    then have "?d' = ?d" using Suc.prems(2) by (auto simp: no_gaps_def move_up_def fun_eq_iff)
    then show ?thesis using None IH Suc.prems(1) n by (simp add: catching_def calc_filename_eq)
  next
    case (Some s)
    have "(?d(nth_name ?f (Suc n) := None))(nth_name ?f n := None, nth_name ?f (Suc n) := ?d (nth_name ?f n)) = ?d'"
      by (auto simp: move_up_def fun_eq_iff)
    moreover have "nth_name ?f n \<noteq> nth_name ?f (Suc n)" by (simp add: nth_name_inj)
    ultimately have "rename_file os 0 (nth_name ?f n) (nth_name ?f (Suc n)) ?d = (True, ?d')"
      using assms(1) by (simp add: rename_file_def disk_works_def)
    then show ?thesis using Some IH Suc.prems(1) n by (simp add: catching_def calc_filename_eq)
  qed
qed (simp add: ok_def)

text \<open>The files of a sink, newest first.\<close>

definition rotated :: "rotating_file_sink \<Rightarrow> string option list" where
  "rotated rs = map (\<lambda>i. rs_disk rs (nth_name (rs_base_filename rs) i)) [0..<Suc (rs_max_files rs)]"

definition disk_ok :: "rotating_file_sink \<Rightarrow> bool" where
  "disk_ok rs \<longleftrightarrow> rs_max_files rs < 2 ^ 64 \<and> rs_base_filename rs \<noteq> [] \<and> fh_fd (rs_file rs) \<and>
     fh_filename (rs_file rs) = rs_base_filename rs \<and> rs_disk rs (rs_base_filename rs) \<noteq> None \<and>
     rs_current_size rs = length (contents (rs_disk rs) (rs_base_filename rs)) \<and>
     no_gaps (rs_base_filename rs) (rs_max_files rs) (rs_disk rs)"

text \<open>What logging a line does to the list.\<close>

definition log_rotated :: "nat \<Rightarrow> string \<Rightarrow> string option list \<Rightarrow> string option list" where
  "log_rotated limit l fs =
     (if limit < length (the (hd fs)) + length l then Some l # butlast fs else Some (the (hd fs) @ l) # tl fs)"

lemma nth_name_0 [simp]: "nth_name f 0 = f"
  by (simp add: nth_name_def)

lemma rotated_Cons: "rotated rs = rs_disk rs (rs_base_filename rs) # map (\<lambda>i. rs_disk rs (nth_name (rs_base_filename rs) (Suc i))) [0..<rs_max_files rs]"
  unfolding rotated_def by (simp add: upt_rec [of 0] map_Suc_upt [symmetric] comp_def del: upt_Suc)

lemma rotated_butlast: "butlast (rotated rs) = map (\<lambda>i. rs_disk rs (nth_name (rs_base_filename rs) i)) [0..<rs_max_files rs]"
  by (simp add: rotated_def)

lemma reopen_works:
  assumes "disk_works os" "fh_filename (rs_file rs) = f" "f \<noteq> []"
  shows "\<exists>fh. rotating_reopen os rs = ok (rs\<lparr>rs_file := fh, rs_disk := (rs_disk rs)(f \<mapsto> [])\<rparr>) \<and> fh_fd fh \<and> fh_filename fh = f"
proof -
  have "\<exists>i < 5. lo_fopen (dk_log os) f ''wb'' i" using assms(1) by (auto simp: disk_works_def intro!: exI [of _ 0])
  then show ?thesis
    using assms(2,3)
    by (auto simp: rotating_reopen_def disk_open_def file_helper_open_def file_open_loop_eq open_tries_def ok_def file_helper_close_def Let_def)
qed

lemma write_works:
  assumes "disk_works os" "fh_fd (rs_file rs)" "fh_filename (rs_file rs) = f"
  shows "\<exists>fh. rotating_write os s rs = ok (rs\<lparr>rs_file := fh, rs_disk := (rs_disk rs)(f \<mapsto> contents (rs_disk rs) f @ s)\<rparr>) \<and>
    fh_fd fh \<and> fh_filename fh = f"
  using assms by (auto simp: rotating_write_def disk_write_def file_helper_write_def disk_works_def writes_all_def ok_def Let_def)

text \<open>Rotating and then starting a new file.\<close>

lemma rotate_works:
  assumes "disk_works os" "rs_max_files rs < 2 ^ 64" "rs_base_filename rs \<noteq> []" "fh_filename (rs_file rs) = rs_base_filename rs"
    "no_gaps (rs_base_filename rs) (rs_max_files rs) (rs_disk rs)"
  shows "\<exists>fh. rotating_rotate env os rs = ok (rs\<lparr>rs_file := fh,
      rs_disk := (shift (rs_base_filename rs) (rs_max_files rs) (rs_disk rs))(rs_base_filename rs \<mapsto> [])\<rparr>) \<and>
    fh_fd fh \<and> fh_filename fh = rs_base_filename rs"
proof -
  let ?d = "shift (rs_base_filename rs) (rs_max_files rs) (rs_disk rs)"
  let ?rs = "rs\<lparr>rs_file := file_helper_close (rs_file rs), rs_disk := ?d\<rparr>"
  have "rotate_loop env os (rs_max_files rs) (rs\<lparr>rs_file := file_helper_close (rs_file rs)\<rparr>) = ok ?rs"
    using rotate_loop_shift [OF assms(1), of "rs_max_files rs" "rs\<lparr>rs_file := file_helper_close (rs_file rs)\<rparr>" env] assms(2,5)
    by simp
  then have "rotating_rotate env os rs = rotating_reopen os ?rs" by (simp add: rotating_rotate_def and_then_def ok_def)
  moreover have "fh_filename (rs_file ?rs) = rs_base_filename rs" "rs_base_filename rs \<noteq> []"
    using assms(3,4) by (auto simp: file_helper_close_def)
  ultimately show ?thesis using reopen_works [OF assms(1), of ?rs "rs_base_filename rs"] by auto
qed

lemma rotated_update:
  assumes "rs_base_filename rs' = rs_base_filename rs" "rs_max_files rs' = rs_max_files rs" "rs_disk rs' = d(rs_base_filename rs \<mapsto> s)"
  shows "rotated rs' = Some s # map (\<lambda>i. d (nth_name (rs_base_filename rs) (Suc i))) [0..<rs_max_files rs]"
  using assms nth_name_inj [of "rs_base_filename rs" _ 0] by (simp add: rotated_Cons)

lemma no_gaps_update: "no_gaps f n d \<Longrightarrow> no_gaps f n (d(f \<mapsto> s))"
  using nth_name_inj [of f _ 0] by (auto simp: no_gaps_def)

lemma no_gaps_shift:
  assumes "no_gaps f n d" "d f \<noteq> None"
  shows "no_gaps f n ((shift f n d)(f \<mapsto> s))"
  unfolding no_gaps_def
proof (intro allI impI)
  fix i
  let ?d = "(shift f n d)(f \<mapsto> s)"
  assume i: "i < n" "?d (nth_name f i) = None"
  then obtain k where k: "i = Suc k" by (cases i) auto
  have ne: "nth_name f (Suc j) \<noteq> f" for j using nth_name_inj [of f "Suc j" 0] by simp
  have "d (nth_name f k) = None" using i k ne by (simp add: shift_eq)
  then have "d (nth_name f i) = None" using assms(1) i(1) k by (simp add: no_gaps_def)
  then show "?d (nth_name f (Suc i)) = None" using i(1) ne by (simp add: shift_eq)
qed

lemma rotating_put_refines:
  assumes "disk_works os" "disk_ok rs" "rs_current_size rs + length s < 2 ^ 64"
  shows "\<exists>rs'. rotating_put env os s rs = ok rs' \<and> disk_ok rs' \<and> same_setup rs rs' \<and>
    rotated rs' = log_rotated (rs_max_size rs) s (rotated rs) \<and>
    (\<forall>x. (\<forall>i \<le> rs_max_files rs. x \<noteq> nth_name (rs_base_filename rs) i) \<longrightarrow> rs_disk rs' x = rs_disk rs x)"
proof -
  let ?f = "rs_base_filename rs" and ?m = "rs_max_files rs" and ?d = "rs_disk rs"
  let ?n = "rs_current_size rs + length s"
  obtain u where u: "?d ?f = Some u" using assms(2) by (auto simp: disk_ok_def)
  then have n: "sz_add (rs_current_size rs) (length s) = ?n" "rs_current_size rs = length u"
    using assms(2,3) by (auto simp: disk_ok_def contents_def)
  have hd: "the (hd (rotated rs)) = u" using u by (simp add: rotated_Cons)
  have other: "x \<noteq> ?f" if "\<forall>i \<le> ?m. x \<noteq> nth_name ?f i" for x using that [rule_format, of 0] by simp
  show ?thesis
  proof (cases "rs_max_size rs < ?n")
    case False
    obtain fh where w: "rotating_write os s (rs\<lparr>rs_current_size := ?n\<rparr>) =
        ok (rs\<lparr>rs_current_size := ?n, rs_file := fh, rs_disk := ?d(?f \<mapsto> u @ s)\<rparr>)" "fh_fd fh" "fh_filename fh = ?f"
      using write_works [OF assms(1), of "rs\<lparr>rs_current_size := ?n\<rparr>" ?f s] assms(2) u by (auto simp: disk_ok_def contents_def)
    let ?rs = "rs\<lparr>rs_current_size := ?n, rs_file := fh, rs_disk := ?d(?f \<mapsto> u @ s)\<rparr>"
    have "rotating_put env os s rs = ok ?rs" using False w(1) n(1) by (simp add: rotating_put_def and_then_def ok_def)
    moreover have "disk_ok ?rs" using assms(2) w n no_gaps_update [of ?f ?m ?d "u @ s"] by (simp add: disk_ok_def contents_def)
    moreover have "rotated ?rs = log_rotated (rs_max_size rs) s (rotated rs)"
      using False n(2) u hd rotated_update [of ?rs rs ?d "u @ s"] by (simp add: log_rotated_def rotated_Cons)
    moreover have "same_setup rs ?rs" using w assms(2) by (simp add: same_setup_def disk_ok_def)
    ultimately show ?thesis using other by (intro exI [of _ ?rs]) simp
  next
    case True
    let ?e = "shift ?f ?m ?d" and ?rs1 = "rs\<lparr>rs_current_size := ?n\<rparr>"
    obtain fh where r: "rotating_rotate env os ?rs1 = ok (rs\<lparr>rs_current_size := ?n, rs_file := fh, rs_disk := ?e(?f \<mapsto> [])\<rparr>)" "fh_fd fh" "fh_filename fh = ?f"
      using rotate_works [OF assms(1), of ?rs1 env] assms(2) by (auto simp: disk_ok_def)
    let ?rs2 = "rs\<lparr>rs_file := fh, rs_disk := ?e(?f \<mapsto> []), rs_current_size := length s\<rparr>"
    obtain fh' where w: "rotating_write os s ?rs2 = ok (rs\<lparr>rs_current_size := length s, rs_file := fh', rs_disk := ?e(?f \<mapsto> s)\<rparr>)"
      "fh_fd fh'" "fh_filename fh' = ?f"
      using write_works [OF assms(1), of ?rs2 ?f s] r by (auto simp: contents_def)
    let ?rs = "rs\<lparr>rs_current_size := length s, rs_file := fh', rs_disk := ?e(?f \<mapsto> s)\<rparr>"
    have "rotating_put env os s rs = ok ?rs" using True r(1) w(1) n(1) by (simp add: rotating_put_def and_then_def ok_def)
    moreover have "disk_ok ?rs" using assms(2) w u no_gaps_shift [of ?f ?m ?d s] by (simp add: disk_ok_def contents_def)
    moreover have "rotated ?rs = log_rotated (rs_max_size rs) s (rotated rs)"
      using True n(2) hd rotated_update [of ?rs rs ?e s] by (simp add: log_rotated_def rotated_butlast shift_eq)
    moreover have "same_setup rs ?rs" using w assms(2) by (simp add: same_setup_def disk_ok_def)
    ultimately show ?thesis using other by (intro exI [of _ ?rs]) (simp add: shift_other)
  qed
qed

section \<open>Sequences of messages\<close>

text \<open>A logger catches what a sink throws and goes on with the next message; each message has its own outcomes of system calls.\<close>

fun rotating_run :: "log_env \<Rightarrow> (disk_os \<times> log_msg) list \<Rightarrow> rotating_file_sink \<Rightarrow> rotating_file_sink res" where
  "rotating_run env [] rs = Inr rs"
| "rotating_run env ((os, msg) # xs) rs =
     res_bind (rotating_sink_it env os (rs, msg)) (\<lambda>((rs, _), _). rotating_run env xs rs)"

definition log_lines :: "log_env \<Rightarrow> pattern_formatter \<Rightarrow> (disk_os \<times> log_msg) list \<Rightarrow> string list" where
  "log_lines env pf xs = map (\<lambda>(os, msg). snd (pattern_line env pf (msg, []))) xs"

definition messages_ok :: "(disk_os \<times> log_msg) list \<Rightarrow> bool" where
  "messages_ok xs \<longleftrightarrow> (\<forall>(os, msg) \<in> set xs. msg_ok msg \<and> to_secs (lm_time msg) \<noteq> 0)"

lemma messages_ok_Cons [simp]: "messages_ok ((os, msg) # xs) \<longleftrightarrow> msg_ok msg \<and> to_secs (lm_time msg) \<noteq> 0 \<and> messages_ok xs"
  by (simp add: messages_ok_def)

lemma log_lines_simps [simp]: "log_lines env pf [] = []"
  "log_lines env pf ((os, msg) # xs) = snd (pattern_line env pf (msg, [])) # log_lines env pf xs"
  by (simp_all add: log_lines_def)

text \<open>A message reaches the files as the line of its pattern, and the lines of later messages stay what they are.\<close>

lemma rotating_sink_it_line:
  assumes "log_env_ok env" "pattern_inv env (rs_formatter rs)" "msg_ok msg" "to_secs (lm_time msg) \<noteq> 0"
  obtains pf msg' where "rotating_sink_it env os (rs, msg) =
      res_bind (rotating_put (le_fmt env) os (snd (pattern_line env (rs_formatter rs) (msg, []))) (rs\<lparr>rs_formatter := pf\<rparr>)) (\<lambda>(rs, ex).
        Inr ((rs, msg'), ex))"
    "pattern_inv env pf" "\<And>xs. log_lines env pf xs = log_lines env (rs_formatter rs) xs"
proof -
  obtain pf where pf: "pattern_formatter_format env (rs_formatter rs) (msg, []) = Inr (pf, pattern_line env (rs_formatter rs) (msg, []))"
    "pattern_inv env pf" "pf_pattern pf = pf_pattern (rs_formatter rs)" "pf_eol pf = pf_eol (rs_formatter rs)"
    "pf_time_type pf = pf_time_type (rs_formatter rs)"
    using pattern_format_eq [OF assms(2,1,3,4)] by blast
  obtain m s where "pattern_line env (rs_formatter rs) (msg, []) = (m, s)" by fastforce
  with pf that [of pf m] show thesis
    by (simp add: rotating_sink_it_def catching_def log_lines_def pattern_line_cong [OF pf(3-5)])
qed

lemma rotating_run_safe:
  assumes "log_env_ok env" "pattern_inv env (rs_formatter rs)" "stream_ok rs" "messages_ok xs"
    "rs_current_size rs + sum_list (map length (log_lines env (rs_formatter rs) xs)) < 2 ^ 64"
  shows "\<exists>rs'. rotating_run env xs rs = Inr rs' \<and> stream_ok rs' \<and> rs_max_size rs' = rs_max_size rs"
  using assms(2-)
proof (induction xs arbitrary: rs)
  case (Cons x xs)
  obtain os msg where x: "x = (os, msg)" by fastforce
  let ?s = "snd (pattern_line env (rs_formatter rs) (msg, []))"
  obtain pf msg' where r: "rotating_sink_it env os (rs, msg) =
      res_bind (rotating_put (le_fmt env) os ?s (rs\<lparr>rs_formatter := pf\<rparr>)) (\<lambda>(rs, ex). Inr ((rs, msg'), ex))"
    "pattern_inv env pf" "\<And>xs. log_lines env pf xs = log_lines env (rs_formatter rs) xs"
    using rotating_sink_it_line [OF assms(1) Cons.prems(1), of msg os] Cons.prems(3) x by auto
  have "stream_ok (rs\<lparr>rs_formatter := pf\<rparr>)" using Cons.prems(2) by (simp add: stream_ok_def)
  then obtain rs1 ex where p: "rotating_put (le_fmt env) os ?s (rs\<lparr>rs_formatter := pf\<rparr>) = Inr (rs1, ex)" "stream_ok rs1"
    "same_setup (rs\<lparr>rs_formatter := pf\<rparr>) rs1" "rs_current_size rs1 \<le> rs_current_size rs + length ?s"
    using rotating_put_safe [of "rs\<lparr>rs_formatter := pf\<rparr>" ?s "le_fmt env" os] Cons.prems(4) x by auto
  have "rs_formatter rs1 = pf" "rs_max_size rs1 = rs_max_size rs" using p(3) by (simp_all add: same_setup_def)
  then show ?case using Cons.IH [of rs1] Cons.prems(3,4) x r p by auto
qed simp

lemma rotating_new:
  assumes "rotating_file_sink_new (le_fmt env) os base limit n d = Inr rs" "n < 2 ^ 64"
  shows "stream_ok rs" "pattern_inv env (rs_formatter rs)" "rs_max_size rs = limit" "rs_max_files rs = n" "rs_base_filename rs = base"
    "fh_fd (rs_file rs)" "fh_filename (rs_file rs) = base" "rs_disk rs base = Some (contents d base)"
    "rs_current_size rs = length (contents d base)" "x \<noteq> base \<Longrightarrow> rs_disk rs x = d x"
proof -
  have c: "calc_filename (le_fmt env) base 0 = Inr base" using calc_filename_eq [of 0 "le_fmt env" base] by simp
  show "stream_ok rs" "pattern_inv env (rs_formatter rs)" "rs_max_size rs = limit" "rs_max_files rs = n" "rs_base_filename rs = base"
    "fh_fd (rs_file rs)" "fh_filename (rs_file rs) = base" "rs_disk rs base = Some (contents d base)"
    "rs_current_size rs = length (contents d base)" "x \<noteq> base \<Longrightarrow> rs_disk rs x = d x"
    using assms pattern_inv_default [of env time_local default_eol]
    by (auto simp: rotating_file_sink_new_def c disk_open_def file_helper_open_def file_open_loop_eq ok_def throw_def file_helper_size_def
        stream_ok_def contents_def file_helper_new_def file_helper_close_def Let_def split: if_splits)
qed

text \<open>The text of a list of files, oldest first.\<close>

definition history :: "string option list \<Rightarrow> string" where
  "history fs = concat (map (\<lambda>f. case f of None \<Rightarrow> [] | Some s \<Rightarrow> s) (rev fs))"

lemma history_log:
  assumes "fs \<noteq> []" "hd fs \<noteq> None"
  shows "\<exists>old. old @ history (log_rotated m l fs) = history fs @ l"
proof (cases "m < length (the (hd fs)) + length l")
  case True
  have "history fs = (case last fs of None \<Rightarrow> [] | Some s \<Rightarrow> s) @ history (butlast fs)"
    using assms(1) by (cases fs rule: rev_cases) (simp_all add: history_def)
  moreover have "history (Some l # butlast fs) = history (butlast fs) @ l" by (simp add: history_def)
  ultimately show ?thesis using True by (auto simp: log_rotated_def)
next
  case False
  then show ?thesis using assms by (cases fs) (auto simp: log_rotated_def history_def)
qed

definition all_within :: "nat \<Rightarrow> string option list \<Rightarrow> bool" where
  "all_within n fs \<longleftrightarrow> (\<forall>s. Some s \<in> set fs \<longrightarrow> length s \<le> n)"

lemma all_within_log: "all_within n fs \<Longrightarrow> m \<le> n \<Longrightarrow> length l \<le> n \<Longrightarrow> fs \<noteq> [] \<Longrightarrow> all_within n (log_rotated m l fs)"
  by (cases fs) (auto simp: all_within_def log_rotated_def dest: in_set_butlastD)

lemma log_rotated_hd: "log_rotated m l fs \<noteq> []" "hd (log_rotated m l fs) \<noteq> None"
  by (simp_all add: log_rotated_def)

lemma fold_log_history:
  assumes "fs \<noteq> []" "hd fs \<noteq> None"
  shows "\<exists>old. old @ history (fold (log_rotated m) ls fs) = history fs @ concat ls"
  using assms
proof (induction ls arbitrary: fs)
  case (Cons l ls)
  obtain a where "a @ history (log_rotated m l fs) = history fs @ l" using history_log [OF Cons.prems] by blast
  moreover obtain b where "b @ history (fold (log_rotated m) (l # ls) fs) = history (log_rotated m l fs) @ concat ls"
    using Cons.IH [of "log_rotated m l fs"] log_rotated_hd [of m l fs] by auto
  ultimately have "(a @ b) @ history (fold (log_rotated m) (l # ls) fs) = history fs @ concat (l # ls)" by (metis append.assoc concat.simps(2))
  then show ?case by blast
qed simp

lemma fold_log_within:
  "all_within n fs \<Longrightarrow> m \<le> n \<Longrightarrow> \<forall>l \<in> set ls. length l \<le> n \<Longrightarrow> fs \<noteq> [] \<Longrightarrow> all_within n (fold (log_rotated m) ls fs)"
  by (induction ls arbitrary: fs) (simp_all add: all_within_log log_rotated_hd)

lemma rotating_run_refines:
  assumes "log_env_ok env" "pattern_inv env (rs_formatter rs)" "disk_ok rs" "messages_ok xs" "\<forall>(os, msg) \<in> set xs. disk_works os"
    "\<forall>l \<in> set (log_lines env (rs_formatter rs) xs). length l < 2 ^ 63" "rs_max_size rs < 2 ^ 63" "rs_current_size rs < 2 ^ 63"
  shows "\<exists>rs'. rotating_run env xs rs = Inr rs' \<and>
    rotated rs' = fold (log_rotated (rs_max_size rs)) (log_lines env (rs_formatter rs) xs) (rotated rs) \<and>
    (\<forall>x. (\<forall>i \<le> rs_max_files rs. x \<noteq> nth_name (rs_base_filename rs) i) \<longrightarrow> rs_disk rs' x = rs_disk rs x)"
  using assms(2-)
proof (induction xs arbitrary: rs)
  case (Cons x xs)
  obtain os msg where x: "x = (os, msg)" by fastforce
  let ?s = "snd (pattern_line env (rs_formatter rs) (msg, []))"
  obtain pf msg' where r: "rotating_sink_it env os (rs, msg) =
      res_bind (rotating_put (le_fmt env) os ?s (rs\<lparr>rs_formatter := pf\<rparr>)) (\<lambda>(rs, ex). Inr ((rs, msg'), ex))"
    "pattern_inv env pf" "\<And>xs. log_lines env pf xs = log_lines env (rs_formatter rs) xs"
    using rotating_sink_it_line [OF assms(1) Cons.prems(1), of msg os] Cons.prems(3) x by auto
  let ?rs = "rs\<lparr>rs_formatter := pf\<rparr>"
  have k: "disk_ok ?rs" "rotated ?rs = rotated rs" using Cons.prems(2) by (simp_all add: disk_ok_def rotated_def)
  have len: "length ?s < 2 ^ 63" using Cons.prems(5) x by simp
  obtain rs1 where p: "rotating_put (le_fmt env) os ?s ?rs = ok rs1" "disk_ok rs1" "same_setup ?rs rs1"
    "rotated rs1 = log_rotated (rs_max_size rs) ?s (rotated rs)"
    "\<forall>x. (\<forall>i \<le> rs_max_files rs. x \<noteq> nth_name (rs_base_filename rs) i) \<longrightarrow> rs_disk rs1 x = rs_disk rs x"
    using rotating_put_refines [OF _ k(1), of os ?s "le_fmt env"] Cons.prems(4,7) k(2) x len by auto
  have q: "rs_formatter rs1 = pf" "rs_max_size rs1 = rs_max_size rs" "rs_max_files rs1 = rs_max_files rs"
    "rs_base_filename rs1 = rs_base_filename rs" using p(3) by (simp_all add: same_setup_def)
  have "rotated rs1 = Some (contents (rs_disk rs1) (rs_base_filename rs1)) # tl (rotated rs1)"
    using p(2) by (auto simp: rotated_Cons disk_ok_def contents_def)
  then have "rs_current_size rs1 = length (the (hd (rotated rs1)))" using p(2) by (metis disk_ok_def list.sel(1) option.sel)
  then have "rs_current_size rs1 < 2 ^ 63" using p(4) len Cons.prems(6) by (auto simp: log_rotated_def split: if_splits)
  then show ?case using Cons.IH [of rs1] Cons.prems(3-6) x r p q by (auto simp: ok_def)
qed simp

section \<open>Properties\<close>

text \<open>C39: A rotating sink never uses a closed stream. Whatever system calls fail, with any messages and any pattern, logging returns or throws the
  exception of the library: after an exception that leaves the file closed, the size still asks for a rotation, so that the next message tries
  to open the file again before it writes. The text logged is shorter than 2 to the 64 altogether.\<close>

theorem rotating_sink_safe:
  assumes "log_env_ok env" "rotating_file_sink_new (le_fmt env) os base limit n d = Inr rs" "n < 2 ^ 64" "messages_ok xs"
    and "pattern_inv env pf" "rs_current_size rs + sum_list (map length (log_lines env pf xs)) < 2 ^ 64"
  shows "\<exists>rs'. rotating_run env xs (rotating_set_formatter pf rs) = Inr rs' \<and> (fh_fd (rs_file rs') \<or> limit < rs_current_size rs')"
proof -
  have "stream_ok (rotating_set_formatter pf rs)"
    using rotating_new(1) [OF assms(2,3)] by (simp add: stream_ok_def rotating_set_formatter_def)
  then show ?thesis
    using rotating_run_safe [OF assms(1), of "rotating_set_formatter pf rs" xs] assms(4-) rotating_new(3) [OF assms(2,3)]
    by (auto simp: stream_ok_def rotating_set_formatter_def)
qed

definition sample_disk_os :: disk_os where
  "sample_disk_os = \<lparr>dk_log = \<lparr>lo_fopen = (\<lambda>f m n. True), lo_fwrite = (\<lambda>out s. length s), lo_syserr = (\<lambda>s. s), lo_color = False\<rparr>,
     dk_remove = (\<lambda>f n. True), dk_rename = (\<lambda>f g n. True), dk_fstat = True\<rparr>"

definition sample_rotating :: rotating_file_sink where
  "sample_rotating = \<lparr>rs_level = level_trace, rs_formatter = pattern_formatter_default time_local default_eol, rs_base_filename = ''a.log'',
     rs_max_size = 10, rs_max_files = 2, rs_current_size = 0,
     rs_file = \<lparr>fh_fd = True, fh_filename = ''a.log'', fh_mode = ''ab'', fh_text = [], fh_flushed = 0\<rparr>, rs_disk = [''a.log'' \<mapsto> []]\<rparr>"

lemma sample_rotating_new:
  "rotating_file_sink_new (le_fmt sample_log_env) sample_disk_os ''a.log'' 10 2 (\<lambda>_. None) = Inr sample_rotating"
proof -
  have "\<exists>i < 5 :: nat. True" by (rule exI [of _ 0]) simp
  then show ?thesis
    using calc_filename_eq [of 0 "le_fmt sample_log_env" "''a.log''"]
    by (simp add: rotating_file_sink_new_def disk_open_def file_helper_open_def open_tries_def file_open_loop_eq sample_disk_os_def ok_def
        contents_def file_helper_size_def file_helper_new_def file_helper_close_def sample_rotating_def Let_def)
qed

definition sample_pattern :: pattern_formatter where
  "sample_pattern = pattern_formatter_new ''%v'' time_local default_eol"

lemma sample_pattern_inv: "pattern_inv env sample_pattern"
  by (simp add: sample_pattern_def pattern_inv_new)

lemma sample_lines: "log_lines sample_log_env sample_pattern (replicate n (os, sample_msg)) = replicate n (''hello'' @ default_eol)"
proof -
  have "compile_pattern ''%v'' = [v_formatter no_padding]"
    by (simp add: compile_pattern_def handle_padspec_def is_digit_char_def handle_flag_def no_padding_def)
  then have "snd (pattern_line sample_log_env sample_pattern (sample_msg, [])) = ''hello'' @ default_eol"
    by (simp add: sample_pattern_def pattern_formatter_new_def pattern_line_def flag_effect_def sample_msg_def log_msg_new_def field_def
        padded_def no_padding_def Let_def)
  then show ?thesis by (simp add: log_lines_def)
qed

lemma sample_messages_ok: "messages_ok (replicate n (os, sample_msg))"
  using sample_log_ok by (simp add: messages_ok_def)

theorem rotating_sink_safe_witness:
  "\<exists>rs'. rotating_run sample_log_env (replicate 3 (sample_disk_os\<lparr>dk_rename := (\<lambda>f g n. False)\<rparr>, sample_msg))
     (rotating_set_formatter sample_pattern sample_rotating) = Inr rs' \<and> (fh_fd (rs_file rs') \<or> 10 < rs_current_size rs')"
  by (rule rotating_sink_safe [OF sample_log_ok(1) sample_rotating_new _ sample_messages_ok sample_pattern_inv])
     (simp_all add: sample_lines sample_rotating_def default_eol_def sum_list_replicate)

text \<open>C38: When nothing fails, the files of a rotating sink are a list, newest first, that changes with each line in one way: the line is appended
  to the first file or, where that would exceed the limit, becomes a new first file and the last one is dropped. So the files hold the end of
  what was logged, with no line missing in between or split, no file is longer than the limit or than one line, and
  no other file is touched. Sizes are below 2 to the 63.\<close>

theorem rotating_keeps_recent:
  assumes "log_env_ok env" "rotating_file_sink_new (le_fmt env) os base limit n d = Inr rs" "n < 2 ^ 64" "base \<noteq> []"
    and "no_gaps base n (d(base \<mapsto> contents d base))" "messages_ok xs" "\<forall>(os, msg) \<in> set xs. disk_works os" "pattern_inv env pf"
    and "limit < 2 ^ 63" "rs_current_size rs < 2 ^ 63" "\<forall>l \<in> set (log_lines env pf xs). length l < 2 ^ 63"
  shows "\<exists>rs' old. rotating_run env xs (rotating_set_formatter pf rs) = Inr rs' \<and>
    rotated rs' = fold (log_rotated limit) (log_lines env pf xs) (rotated rs) \<and>
    old @ history (rotated rs') = history (rotated rs) @ concat (log_lines env pf xs) \<and>
    (\<forall>b \<ge> limit. (\<forall>l \<in> set (log_lines env pf xs). length l \<le> b) \<and> all_within b (rotated rs) \<longrightarrow> all_within b (rotated rs')) \<and>
    (\<forall>x. (\<forall>i \<le> n. x \<noteq> nth_name base i) \<longrightarrow> rs_disk rs' x = d x)"
proof -
  note new = rotating_new [OF assms(2,3)]
  let ?rs = "rotating_set_formatter pf rs" and ?ls = "log_lines env pf xs"
  have "rs_disk rs = d(base \<mapsto> contents d base)" using new(8,10) by (auto simp: fun_eq_iff)
  then have "disk_ok rs" using new assms(3-5) by (simp add: disk_ok_def contents_def)
  then have k: "disk_ok ?rs" "rotated ?rs = rotated rs" by (simp_all add: disk_ok_def rotated_def rotating_set_formatter_def)
  obtain rs' where r: "rotating_run env xs ?rs = Inr rs'" "rotated rs' = fold (log_rotated limit) ?ls (rotated rs)"
    "\<forall>x. (\<forall>i \<le> n. x \<noteq> nth_name base i) \<longrightarrow> rs_disk rs' x = rs_disk rs x"
    using rotating_run_refines [OF assms(1) _ k(1) assms(6,7)] assms(8-) k(2) new(3-5) by (auto simp: rotating_set_formatter_def)
  have f: "rotated rs \<noteq> []" "hd (rotated rs) \<noteq> None" using new(5,8) by (simp_all add: rotated_Cons)
  obtain old where "old @ history (rotated rs') = history (rotated rs) @ concat ?ls" using fold_log_history [OF f] r(2) by auto
  moreover have "x \<noteq> base" if "\<forall>i \<le> n. x \<noteq> nth_name base i" for x using that [rule_format, of 0] by simp
  moreover have "all_within b (rotated rs')" if "limit \<le> b" "\<forall>l \<in> set ?ls. length l \<le> b" "all_within b (rotated rs)" for b
    using fold_log_within [OF that(3,1,2) f(1)] r(2) by simp
  ultimately show ?thesis using r new(10) by (intro exI [of _ rs'] exI [of _ old]) simp
qed

theorem rotating_keeps_recent_witness:
  "\<exists>rs'. rotating_run sample_log_env (replicate 2 (sample_disk_os, sample_msg)) (rotating_set_formatter sample_pattern sample_rotating) = Inr rs' \<and>
    rotated rs' = [Some (''hello'' @ default_eol), Some (''hello'' @ default_eol), None]"
proof -
  have w: "disk_works sample_disk_os" by (simp add: disk_works_def writes_all_def sample_disk_os_def)
  have g: "no_gaps ''a.log'' 2 (Map.empty(''a.log'' \<mapsto> contents Map.empty ''a.log''))"
    using nth_name_inj [of "''a.log''" _ 0] by (auto simp: no_gaps_def)
  have "rotated sample_rotating = [Some [], None, None]"
    using nth_name_inj [of "''a.log''" _ 0] by (simp add: rotated_Cons sample_rotating_def numeral_2_eq_2)
  moreover have "\<exists>rs' old. rotating_run sample_log_env (replicate 2 (sample_disk_os, sample_msg)) (rotating_set_formatter sample_pattern sample_rotating) = Inr rs' \<and>
    rotated rs' = fold (log_rotated 10) (log_lines sample_log_env sample_pattern (replicate 2 (sample_disk_os, sample_msg))) (rotated sample_rotating)"
    using rotating_keeps_recent [OF sample_log_ok(1) sample_rotating_new _ _ g sample_messages_ok _ sample_pattern_inv, of 2 sample_disk_os] w
    by (simp add: sample_lines default_eol_def sample_rotating_def) blast
  moreover have "fold (log_rotated 10) (replicate 2 (''hello'' @ default_eol)) [Some [], None, None] =
      [Some (''hello'' @ default_eol), Some (''hello'' @ default_eol), None]"
    by (simp add: log_rotated_def numeral_2_eq_2 default_eol_def)
  ultimately show ?thesis unfolding sample_lines by metis
qed

end
