(* ===== verification/Log_Daily.thy ===== *)
theory Log_Daily
  imports Log_Rotate
begin

text \<open>
  The sink with a file for each day (\<^verbatim>\<open>sinks/daily_file_sink.h\<close> under \<^verbatim>\<open>src/deps/spdlog\<close>). Times are nanoseconds; the
  clock, \<^verbatim>\<open>localtime\<close> and \<^verbatim>\<open>mktime\<close> are parameters, as is every outcome of a system call.

  Shown here: the name of the file of a day; when the next rotation is; that messages in the order of their times never meet a closed stream, and
  the messages that do.
\<close>

section \<open>State and operations\<close>

text \<open>What a call sees: the operating system, \<^verbatim>\<open>mktime\<close> and the clock, which is read twice by the constructor.\<close>

record daily_env =
  dy_log :: log_env
  dy_os :: disk_os
  dy_mktime :: "tm \<Rightarrow> int"
  dy_now :: int
  dy_now2 :: int

record daily_file_sink =
  ds_level :: level_enum
  ds_formatter :: pattern_formatter
  ds_base_filename :: string
  ds_rotation_h :: int
  ds_rotation_m :: int
  ds_rotation_tp :: int
  ds_truncate :: bool
  ds_file :: file_helper
  ds_disk :: disk

definition daily_calc_filename :: "fmt_env \<Rightarrow> string \<Rightarrow> tm \<Rightarrow> string res" where
  "daily_calc_filename env fname now_tm =
     (let (basename, ext) = split_by_extension fname
      in format_to env [] ''{}_{:04d}-{:02d}-{:02d}{}''
        [Plain (Arg_string basename), Plain (Arg_int (tm_year now_tm + 1900)), Plain (Arg_int (tm_mon now_tm + 1)),
         Plain (Arg_int (tm_mday now_tm)), Plain (Arg_string ext)])"

definition daily_now_tm :: "log_env \<Rightarrow> int \<Rightarrow> tm" where
  "daily_now_tm env tp = le_localtime env (to_secs tp)"

definition next_rotation_tp :: "daily_env \<Rightarrow> int \<Rightarrow> int \<Rightarrow> int \<Rightarrow> int" where
  "next_rotation_tp e now h m =
     (let date = (daily_now_tm (dy_log e) now)\<lparr>tm_hour := h, tm_min := m, tm_sec := 0\<rparr>;
          rotation_time = dy_mktime e date * 1000000000
      in if rotation_time > now then rotation_time else rotation_time + 24 * 3600 * 1000000000)"

definition daily_open :: "daily_env \<Rightarrow> string \<Rightarrow> daily_file_sink \<Rightarrow> daily_file_sink outcome" where
  "daily_open e fname ds =
     res_bind (disk_open (dk_log (dy_os e)) fname (ds_truncate ds) (ds_file ds, ds_disk ds)) (\<lambda>((fh, d), ex).
       Inr (ds\<lparr>ds_file := fh, ds_disk := d\<rparr>, ex))"

definition daily_write :: "daily_env \<Rightarrow> string \<Rightarrow> daily_file_sink \<Rightarrow> daily_file_sink outcome" where
  "daily_write e buf ds =
     res_bind (disk_write (dk_log (dy_os e)) buf (ds_file ds, ds_disk ds)) (\<lambda>((fh, d), ex).
       Inr (ds\<lparr>ds_file := fh, ds_disk := d\<rparr>, ex))"

definition daily_rotate :: "daily_env \<Rightarrow> int \<Rightarrow> daily_file_sink \<Rightarrow> daily_file_sink outcome" where
  "daily_rotate e time ds =
     (if time \<ge> ds_rotation_tp ds then
        catching ds (daily_calc_filename (le_fmt (dy_log e)) (ds_base_filename ds) (daily_now_tm (dy_log e) time)) (\<lambda>fname.
          and_then (daily_open e fname ds) (\<lambda>ds.
            ok (ds\<lparr>ds_rotation_tp := next_rotation_tp e (dy_now e) (ds_rotation_h ds) (ds_rotation_m ds)\<rparr>)))
      else ok ds)"

definition daily_sink_it :: "daily_env \<Rightarrow> log_msg \<Rightarrow> daily_file_sink \<Rightarrow> daily_file_sink outcome" where
  "daily_sink_it e msg ds =
     and_then (daily_rotate e (lm_time msg) ds) (\<lambda>ds.
       catching ds (pattern_formatter_format (dy_log e) (ds_formatter ds) (msg, [])) (\<lambda>(pf, msg, formatted).
         daily_write e formatted (ds\<lparr>ds_formatter := pf\<rparr>)))"

definition daily_flush :: "daily_file_sink \<Rightarrow> daily_file_sink" where
  "daily_flush ds = ds\<lparr>ds_file := file_helper_flush (ds_file ds)\<rparr>"

definition daily_file_sink_new :: "daily_env \<Rightarrow> string \<Rightarrow> int \<Rightarrow> int \<Rightarrow> bool \<Rightarrow> disk \<Rightarrow> daily_file_sink res" where
  "daily_file_sink_new e base rotation_hour rotation_minute trunc d =
     (if rotation_hour < 0 \<or> rotation_hour > 23 \<or> rotation_minute < 0 \<or> rotation_minute > 59
      then Inl (Spdlog_ex ''daily_file_sink: Invalid rotation time in ctor'')
      else res_bind (daily_calc_filename (le_fmt (dy_log e)) base (daily_now_tm (dy_log e) (dy_now e))) (\<lambda>fname.
        let ds = \<lparr>ds_level = level_trace, ds_formatter = pattern_formatter_default time_local default_eol, ds_base_filename = base,
            ds_rotation_h = rotation_hour, ds_rotation_m = rotation_minute, ds_rotation_tp = 0, ds_truncate = trunc,
            ds_file = file_helper_new, ds_disk = d\<rparr>
        in res_bind (daily_open e fname ds) (\<lambda>(ds, ex).
          case ex of
            Some what \<Rightarrow> Inl (Spdlog_ex what)
          | None \<Rightarrow> Inr (ds\<lparr>ds_rotation_tp := next_rotation_tp e (dy_now2 e) rotation_hour rotation_minute\<rparr>))))"

section \<open>The name of a day\<close>

text \<open>One replacement field at a time.\<close>

lemma parse_char_open:
  assumes "c \<noteq> CHR ''{''" "c \<noteq> CHR ''}''"
  shows "parse_format_string env fa (c # CHR ''{'' # r) h = parse_format_string env fa (CHR ''{'' # r) (on_text [c] h)"
  using assms
  by (subst (1 2) parse_format_string.simps) (simp add: Let_def write_literal_Chr write_literal_Nil)

lemma parse_auto_field:
  assumes "store_ok as" "k < length as" "deserialize (as ! k) = Arg_string s" "fh_next h = int k"
  shows "parse_format_string env (make_format_args as) (CHR ''{'' # CHR ''}'' # r) h =
    parse_format_string env (make_format_args as) r (on_text s (h\<lparr>fh_next := int k + 1, fh_arg := Arg_string s\<rparr>))"
proof -
  have "arg_formatter env None (Arg_string s) = Inr s" using arg_formatter_default [of "Arg_string s" env] by simp
  then show ?thesis
    using assms
    by (subst parse_format_string.simps)
       (simp add: Let_def write_literal_Nil on_arg_id_def next_arg_id_def do_get_arg_make [OF assms(1)] on_replacement_field_def)
qed

lemma parse_zero_field:
  assumes "store_ok as" "k < length as" "deserialize (as ! k) = Arg_int (int n)" "n < 2 ^ 31" "fh_next h = int k"
    and "c = CHR ''2'' \<and> w = 2 \<or> c = CHR ''4'' \<and> w = 4"
  shows "parse_format_string env (make_format_args as) (CHR ''{'' # CHR '':'' # CHR ''0'' # c # CHR ''d'' # CHR ''}'' # r) h =
    parse_format_string env (make_format_args as) r (on_text (zero_padded w n) (h\<lparr>fh_arg := Arg_int (int n), fh_next := int k + 1\<rparr>))"
proof -
  let ?sp = "default_specs\<lparr>fs_align := ALIGN_NUMERIC, fs_fill := CHR ''0'', fs_width := w, fs_type := CHR ''d''\<rparr>"
  have specs: "parse_format_specs (make_format_args as) int_type (CHR ''0'' # c # CHR ''d'' # CHR ''}'' # r) (default_specs, m) =
      Inr (CHR ''}'' # r, ?sp, m)" for m
    using assms(6)
    by (elim disjE conjE; hypsubst)
       (simp_all add: parse_format_specs_def parse_align_def parse_sign_def parse_hash_zero_def parse_width_def
         parse_precision_def parse_type_def on_zero_def on_width_def on_type_def require_numeric_argument_def is_arithmetic_def
         arg_type_code_def align_of_def is_digit_char_def parse_nonnegative_int_def max_int_def Let_def)
  have tx: "format_integer env (Some ?sp) 32 (int n) = Inr (zero_padded w n)"
    unfolding format_integer_def
    using assms(4)
    by (simp add: write_int_correct int_width_def int_fits_def default_specs_def int_type_chars_def digits_text_def
        handle_int_type_spec_def int_text_def sign_text_def base_prefix_def fs_flag_def zero_padded_def Let_def)
  show ?thesis
    using assms(2,3,5)
    by (subst parse_format_string.simps)
       (simp add: Let_def write_literal_Nil parse_arg_id_def on_arg_id_def next_arg_id_def
         do_get_arg_make [OF assms(1)] on_format_specs_def specs tx on_text_def)
qed

definition day_name :: "string \<Rightarrow> tm \<Rightarrow> string" where
  "day_name f t = fst (split_by_extension f) @ ''_'' @ zero_padded 4 (nat (tm_year t + 1900)) @ ''-'' @ zero_padded 2 (nat (tm_mon t + 1)) @
     ''-'' @ zero_padded 2 (nat (tm_mday t)) @ snd (split_by_extension f)"

lemma daily_calc_filename_eq:
  assumes "tm_ok t" "0 \<le> tm_year t + 1900"
  shows "daily_calc_filename env f t = Inr (day_name f t)"
proof -
  obtain b e where s: "split_by_extension f = (b, e)" by fastforce
  define y m d where "y = nat (tm_year t + 1900)" and "m = nat (tm_mon t + 1)" and "d = nat (tm_mday t)"
  let ?as = "[Plain (Arg_string b), Plain (Arg_int (int y)), Plain (Arg_int (int m)), Plain (Arg_int (int d)), Plain (Arg_string e)]"
  have i: "int y = tm_year t + 1900" "int m = tm_mon t + 1" "int d = tm_mday t" "y < 2 ^ 31" "m < 2 ^ 31" "d < 2 ^ 31"
    using assms by (auto simp: y_def m_def d_def tm_ok_def nat_less_iff)
  have ok: "store_ok ?as" using i(4-6) by (simp add: store_ok_def deserialize_def)
  have "format_to env [] ''{}_{:04d}-{:02d}-{:02d}{}'' ?as =
      Inr (b @ ''_'' @ zero_padded 4 y @ ''-'' @ zero_padded 2 m @ ''-'' @ zero_padded 2 d @ e)"
    unfolding format_to_def vformat_to_def
    using i(4-6)
    by (simp add: parse_auto_field [OF ok, of 0] parse_char_open parse_zero_field [OF ok, of "Suc 0" y _ _ 4]
        parse_zero_field [OF ok, of 2 m _ _ 2] parse_zero_field [OF ok, of 3 d _ _ 2] parse_auto_field [OF ok, of 4] deserialize_def on_text_append
        parse_format_string.simps [of _ _ "[]"])
  then show ?thesis using s i(1-3) by (simp add: daily_calc_filename_def day_name_def y_def m_def d_def)
qed

section \<open>The next rotation\<close>

text \<open>A day without a change of the clock: \<^verbatim>\<open>mktime\<close> on the date of a time with another time of the day.\<close>

definition second_of_day :: "tm \<Rightarrow> int" where
  "second_of_day t = tm_hour t * 3600 + tm_min t * 60 + tm_sec t"

definition days_contract :: "daily_env \<Rightarrow> int \<Rightarrow> bool" where
  "days_contract e now \<longleftrightarrow> (let t = daily_now_tm (dy_log e) now in
     second_of_day t \<in> {0..<86400} \<and>
     (\<forall>h \<in> {0..23}. \<forall>m \<in> {0..59}.
       dy_mktime e (t\<lparr>tm_hour := h, tm_min := m, tm_sec := 0\<rparr>) = to_secs now - second_of_day t + h * 3600 + m * 60))"

lemma next_rotation_day:
  assumes "days_contract e now" "0 \<le> now" "h \<in> {0..23}" "m \<in> {0..59}"
  shows "now < next_rotation_tp e now h m" "next_rotation_tp e now h m \<le> now + 24 * 3600 * 1000000000"
proof -
  define s where "s = to_secs now"
  define t where "t = daily_now_tm (dy_log e) now"
  have s: "s * 1000000000 \<le> now" "now < (s + 1) * 1000000000"
    using assms(2) by (auto simp: s_def to_secs_def signed_divide_int_def sgn_if)
  have t: "0 \<le> second_of_day t" "second_of_day t < 86400"
    "dy_mktime e (t\<lparr>tm_hour := h, tm_min := m, tm_sec := 0\<rparr>) = s - second_of_day t + h * 3600 + m * 60"
    using assms(1,3,4) by (simp_all add: days_contract_def t_def s_def Let_def)
  show "now < next_rotation_tp e now h m" "next_rotation_tp e now h m \<le> now + 24 * 3600 * 1000000000"
    using s t assms(3,4) by (auto simp: next_rotation_tp_def t_def [symmetric] Let_def)
qed

section \<open>Streams\<close>

text \<open>What opening and writing keep.\<close>

definition same_day :: "daily_file_sink \<Rightarrow> daily_file_sink \<Rightarrow> bool" where
  "same_day ds ds' \<longleftrightarrow> ds_formatter ds' = ds_formatter ds \<and> ds_rotation_tp ds' = ds_rotation_tp ds \<and> ds_base_filename ds' = ds_base_filename ds \<and>
     ds_rotation_h ds' = ds_rotation_h ds \<and> ds_rotation_m ds' = ds_rotation_m ds \<and> ds_truncate ds' = ds_truncate ds"

lemma daily_open_eq:
  "\<exists>ds' ex. daily_open e f ds = Inr (ds', ex) \<and> (fh_fd (ds_file ds') \<longleftrightarrow> ex = None) \<and> same_day ds ds'"
  by (auto simp: daily_open_def disk_open_def file_helper_open_def file_open_loop_eq ok_def throw_def file_helper_close_def same_day_def Let_def)

lemma daily_write_open:
  "fh_fd (ds_file ds) \<Longrightarrow> \<exists>ds' ex. daily_write e s ds = Inr (ds', ex) \<and> fh_fd (ds_file ds') \<and> same_day ds ds'"
  by (auto simp: daily_write_def disk_write_def file_helper_write_def ok_def throw_def same_day_def Let_def)

definition daily_env_ok :: "daily_env \<Rightarrow> bool" where
  "daily_env_ok e \<longleftrightarrow> log_env_ok (dy_log e) \<and> (\<forall>s. 0 \<le> tm_year (le_localtime (dy_log e) s) + 1900)"

lemma daily_name: "daily_env_ok e \<Longrightarrow> daily_calc_filename env f (daily_now_tm (dy_log e) t) = Inr (day_name f (daily_now_tm (dy_log e) t))"
  by (rule daily_calc_filename_eq) (simp_all add: daily_env_ok_def log_env_ok_def daily_now_tm_def)

text \<open>The stream is open, or the next message not before a time opens it.\<close>

definition daily_ok :: "log_env \<Rightarrow> int \<Rightarrow> daily_file_sink \<Rightarrow> bool" where
  "daily_ok env t ds \<longleftrightarrow> pattern_inv env (ds_formatter ds) \<and> (fh_fd (ds_file ds) \<or> ds_rotation_tp ds \<le> t)"

lemma daily_rotate_safe:
  assumes "daily_env_ok e" "daily_ok (dy_log e) t ds" "t \<le> time"
  shows "\<exists>ds' ex. daily_rotate e time ds = Inr (ds', ex) \<and> daily_ok (dy_log e) time ds' \<and> (ex = None \<longrightarrow> fh_fd (ds_file ds'))"
proof (cases "ds_rotation_tp ds \<le> time")
  case True
  let ?f = "day_name (ds_base_filename ds) (daily_now_tm (dy_log e) time)"
  obtain ds1 ex where o: "daily_open e ?f ds = Inr (ds1, ex)" "fh_fd (ds_file ds1) \<longleftrightarrow> ex = None" "same_day ds ds1"
    using daily_open_eq [of e ?f ds] by blast
  then show ?thesis
    using True assms by (cases ex) (auto simp: daily_rotate_def catching_def daily_name and_then_def ok_def throw_def daily_ok_def same_day_def)
next
  case False
  then have "fh_fd (ds_file ds)" using assms(2,3) by (auto simp: daily_ok_def)
  then show ?thesis using False assms(2) by (auto simp: daily_rotate_def ok_def daily_ok_def)
qed

lemma daily_sink_it_safe:
  assumes "daily_env_ok e" "daily_ok (dy_log e) t ds" "t \<le> lm_time msg" "msg_ok msg" "to_secs (lm_time msg) \<noteq> 0"
  shows "\<exists>ds' ex. daily_sink_it e msg ds = Inr (ds', ex) \<and> daily_ok (dy_log e) (lm_time msg) ds'"
proof -
  obtain ds1 ex where r: "daily_rotate e (lm_time msg) ds = Inr (ds1, ex)" "daily_ok (dy_log e) (lm_time msg) ds1"
    "ex = None \<longrightarrow> fh_fd (ds_file ds1)"
    using daily_rotate_safe [OF assms(1-3)] by blast
  show ?thesis
  proof (cases ex)
    case None
    have env: "log_env_ok (dy_log e)" using assms(1) by (simp add: daily_env_ok_def)
    have "pattern_inv (dy_log e) (ds_formatter ds1)" using r(2) by (simp add: daily_ok_def)
    then obtain pf where pf: "pattern_formatter_format (dy_log e) (ds_formatter ds1) (msg, []) = Inr (pf, pattern_line (dy_log e) (ds_formatter ds1) (msg, []))"
      "pattern_inv (dy_log e) pf"
      using pattern_format_eq [OF _ env assms(4,5)] by blast
    have "fh_fd (ds_file (ds1\<lparr>ds_formatter := pf\<rparr>))" using r(3) None by simp
    from daily_write_open [OF this] show ?thesis
      using r(1) None pf
      by (cases "pattern_line (dy_log e) (ds_formatter ds1) (msg, [])")
         (fastforce simp: daily_sink_it_def and_then_def catching_def daily_ok_def same_day_def)
  next
    case (Some w)
    then show ?thesis using r by (auto simp: daily_sink_it_def and_then_def throw_def)
  qed
qed

fun daily_run :: "(daily_env \<times> log_msg) list \<Rightarrow> daily_file_sink \<Rightarrow> daily_file_sink res" where
  "daily_run [] ds = Inr ds"
| "daily_run ((e, msg) # xs) ds = res_bind (daily_sink_it e msg ds) (\<lambda>(ds, ex). daily_run xs ds)"

lemma daily_run_safe:
  assumes "\<forall>(e, msg) \<in> set xs. daily_env_ok e \<and> dy_log e = env \<and> msg_ok msg \<and> to_secs (lm_time msg) \<noteq> 0 \<and> t \<le> lm_time msg"
    "sorted (map (lm_time \<circ> snd) xs)" "daily_ok env t ds"
  shows "\<exists>ds'. daily_run xs ds = Inr ds'"
  using assms
proof (induction xs arbitrary: t ds)
  case (Cons x xs)
  obtain e msg where x: "x = (e, msg)" by fastforce
  obtain ds1 ex where "daily_sink_it e msg ds = Inr (ds1, ex)" "daily_ok env (lm_time msg) ds1"
    using daily_sink_it_safe [of e t ds msg] Cons.prems x by auto
  moreover have "\<forall>(e, m) \<in> set xs. daily_env_ok e \<and> dy_log e = env \<and> msg_ok m \<and> to_secs (lm_time m) \<noteq> 0 \<and> lm_time msg \<le> lm_time m"
    using Cons.prems(1,2) x by fastforce
  moreover have "sorted (map (lm_time \<circ> snd) xs)" using Cons.prems(2) by (simp add: comp_def)
  ultimately have "\<exists>ds'. daily_run xs ds1 = Inr ds'" using Cons.IH [of "lm_time msg" ds1] by blast
  with \<open>daily_sink_it e msg ds = Inr (ds1, ex)\<close> show ?case using x by simp
qed simp

lemma daily_new_ok:
  assumes "daily_file_sink_new e base h m tr d = Inr ds"
  shows "daily_ok (dy_log e) t ds" "fh_fd (ds_file ds)" "h \<in> {0..23}" "m \<in> {0..59}" "ds_rotation_tp ds = next_rotation_tp e (dy_now2 e) h m"
proof -
  obtain f where f: "daily_calc_filename (le_fmt (dy_log e)) base (daily_now_tm (dy_log e) (dy_now e)) = Inr f" and b: "h \<in> {0..23}" "m \<in> {0..59}"
    using assms by (auto simp: daily_file_sink_new_def res_simps split: if_splits)
  let ?ds = "\<lparr>ds_level = level_trace, ds_formatter = pattern_formatter_default time_local default_eol, ds_base_filename = base,
      ds_rotation_h = h, ds_rotation_m = m, ds_rotation_tp = 0, ds_truncate = tr, ds_file = file_helper_new, ds_disk = d\<rparr>"
  obtain ds1 ex where o: "daily_open e f ?ds = Inr (ds1, ex)" "fh_fd (ds_file ds1) \<longleftrightarrow> ex = None" "same_day ?ds ds1"
    using daily_open_eq [of e f ?ds] by blast
  have "ds = ds1\<lparr>ds_rotation_tp := next_rotation_tp e (dy_now2 e) h m\<rparr>" "ex = None"
    using assms f b o by (cases ex; auto simp: daily_file_sink_new_def)+
  then show "daily_ok (dy_log e) t ds" "fh_fd (ds_file ds)" "h \<in> {0..23}" "m \<in> {0..59}" "ds_rotation_tp ds = next_rotation_tp e (dy_now2 e) h m"
    using o b pattern_inv_default by (auto simp: daily_ok_def same_day_def)
qed

lemma daily_rotate_works:
  assumes "daily_env_ok e" "disk_works (dy_os e)" "fh_fd (ds_file ds)"
  shows "\<exists>ds'. daily_rotate e time ds = ok ds' \<and> fh_fd (ds_file ds') \<and>
    fh_filename (ds_file ds') = (if ds_rotation_tp ds \<le> time then day_name (ds_base_filename ds) (daily_now_tm (dy_log e) time) else fh_filename (ds_file ds)) \<and>
    ds_formatter ds' = ds_formatter ds \<and>
    ds_disk ds' = (if ds_rotation_tp ds \<le> time then (ds_disk ds)(fh_filename (ds_file ds') \<mapsto>
      if ds_truncate ds then [] else contents (ds_disk ds) (fh_filename (ds_file ds'))) else ds_disk ds) \<and>
    ds_rotation_tp ds' = (if ds_rotation_tp ds \<le> time then next_rotation_tp e (dy_now e) (ds_rotation_h ds) (ds_rotation_m ds) else ds_rotation_tp ds)"
proof (cases "ds_rotation_tp ds \<le> time")
  case True
  have "\<exists>i < open_tries. lo_fopen (dk_log (dy_os e)) f m i" for f m
    using assms(2) by (auto simp: disk_works_def open_tries_def intro!: exI [of _ 0])
  then show ?thesis
    using True
    by (simp add: daily_rotate_def catching_def daily_name [OF assms(1)] daily_open_def disk_open_def file_helper_open_def file_open_loop_eq
        file_helper_close_def and_then_def ok_def Let_def)
next
  case False
  then show ?thesis using assms(3) by (simp add: daily_rotate_def ok_def)
qed

section \<open>Properties\<close>

text \<open>C40: A message not before the rotation time goes to the file of its own day, whose name is the stem, an underscore, the date and the
  extension; it is opened for appending or, if the sink truncates, emptied; an earlier message goes to the file that is open. The line is
  at the end of that file, all other files are untouched, and after a rotation the next one is later than now and at most a day away. System calls
  do not fail, and the clock is not changed on that day.\<close>

theorem daily_sink_files:
  assumes "daily_env_ok e" "days_contract e (dy_now e)" "disk_works (dy_os e)" "0 \<le> dy_now e" "msg_ok msg" "to_secs (lm_time msg) \<noteq> 0"
    and "pattern_inv (dy_log e) (ds_formatter ds)" "fh_fd (ds_file ds)" "ds_rotation_h ds \<in> {0..23}" "ds_rotation_m ds \<in> {0..59}"
    and rot: "rot = (ds_rotation_tp ds \<le> lm_time msg)"
    and tgt: "f = (if rot then day_name (ds_base_filename ds) (daily_now_tm (dy_log e) (lm_time msg)) else fh_filename (ds_file ds))"
  shows "\<exists>ds'. daily_sink_it e msg ds = ok ds' \<and> fh_fd (ds_file ds') \<and> fh_filename (ds_file ds') = f \<and>
    ds_disk ds' = (ds_disk ds)(f \<mapsto> (if rot \<and> ds_truncate ds then [] else contents (ds_disk ds) f) @
      snd (pattern_line (dy_log e) (ds_formatter ds) (msg, []))) \<and>
    (if rot then dy_now e < ds_rotation_tp ds' \<and> ds_rotation_tp ds' \<le> dy_now e + 24 * 3600 * 1000000000
     else ds_rotation_tp ds' = ds_rotation_tp ds)"
proof -
  obtain ds1 where r: "daily_rotate e (lm_time msg) ds = ok ds1" "fh_fd (ds_file ds1)" "fh_filename (ds_file ds1) = f"
    "ds_formatter ds1 = ds_formatter ds" "ds_disk ds1 = (if rot then (ds_disk ds)(f \<mapsto> if ds_truncate ds then [] else contents (ds_disk ds) f) else ds_disk ds)"
    "ds_rotation_tp ds1 = (if rot then next_rotation_tp e (dy_now e) (ds_rotation_h ds) (ds_rotation_m ds) else ds_rotation_tp ds)"
    using daily_rotate_works [OF assms(1,3,8), of "lm_time msg"] rot tgt by metis
  have env: "log_env_ok (dy_log e)" using assms(1) by (simp add: daily_env_ok_def)
  obtain pf where pf: "pattern_formatter_format (dy_log e) (ds_formatter ds) (msg, []) = Inr (pf, pattern_line (dy_log e) (ds_formatter ds) (msg, []))"
    using pattern_format_eq [OF assms(7) env assms(5,6)] by blast
  obtain m s where l: "pattern_line (dy_log e) (ds_formatter ds) (msg, []) = (m, s)" by fastforce
  have w: "\<exists>ds'. daily_write e s (ds1\<lparr>ds_formatter := pf\<rparr>) = ok ds' \<and> fh_fd (ds_file ds') \<and> fh_filename (ds_file ds') = f \<and>
      ds_disk ds' = (ds_disk ds1)(f \<mapsto> contents (ds_disk ds1) f @ s) \<and> ds_rotation_tp ds' = ds_rotation_tp ds1"
    using r(2,3) assms(3) by (auto simp: daily_write_def disk_write_def file_helper_write_def disk_works_def writes_all_def ok_def Let_def)
  have "daily_sink_it e msg ds = daily_write e s (ds1\<lparr>ds_formatter := pf\<rparr>)"
    using r(1,4) pf l by (simp add: daily_sink_it_def and_then_def ok_def catching_def)
  with w show ?thesis
    using r(5,6) l next_rotation_day [OF assms(2,4,9,10)] by (auto simp: contents_def)
qed

definition sample_daily_env :: daily_env where
  "sample_daily_env = \<lparr>dy_log = sample_log_env, dy_os = sample_disk_os, dy_mktime = (\<lambda>t. 1577923200 + tm_hour t * 3600 + tm_min t * 60),
     dy_now = 1577934245678000000, dy_now2 = 1577934245678000000\<rparr>"

definition sample_daily :: daily_file_sink where
  "sample_daily = \<lparr>ds_level = level_trace, ds_formatter = sample_pattern, ds_base_filename = ''a.log'', ds_rotation_h = 0, ds_rotation_m = 0,
     ds_rotation_tp = 1577923200000000000, ds_truncate = False,
     ds_file = \<lparr>fh_fd = True, fh_filename = ''old'', fh_mode = ''ab'', fh_text = [], fh_flushed = 0\<rparr>, ds_disk = [''old'' \<mapsto> ''x'']\<rparr>"

lemma sample_daily_ok: "daily_env_ok sample_daily_env" "days_contract sample_daily_env (dy_now sample_daily_env)" "disk_works (dy_os sample_daily_env)"
  using sample_log_ok(1)
  by (simp_all add: daily_env_ok_def days_contract_def sample_daily_env_def sample_log_env_def sample_tm_def daily_now_tm_def second_of_day_def
      disk_works_def writes_all_def sample_disk_os_def to_secs_def Let_def)

theorem daily_sink_files_witness:
  "\<exists>ds'. daily_sink_it sample_daily_env sample_msg sample_daily = ok ds' \<and> fh_filename (ds_file ds') = day_name ''a.log'' sample_tm"
proof -
  let ?e = sample_daily_env and ?ds = sample_daily
  have "pattern_inv (dy_log ?e) (ds_formatter ?ds)" "0 \<le> dy_now ?e" "fh_fd (ds_file ?ds)" "ds_rotation_h ?ds \<in> {0..23}" "ds_rotation_m ?ds \<in> {0..59}"
    "True = (ds_rotation_tp ?ds \<le> lm_time sample_msg)" "to_secs (lm_time sample_msg) \<noteq> 0"
    "day_name (ds_base_filename ?ds) (daily_now_tm (dy_log ?e) (lm_time sample_msg)) = day_name ''a.log'' sample_tm"
    using sample_pattern_inv sample_log_ok(3)
    by (simp_all add: sample_daily_env_def sample_daily_def sample_msg_def log_msg_new_def daily_now_tm_def sample_log_env_def)
  then show ?thesis using daily_sink_files [OF sample_daily_ok, of sample_msg ?ds True] sample_log_ok(2) by auto
qed

text \<open>Messages in the order of their times never meet a closed stream, whatever fails: an exception that leaves the file closed leaves the rotation
  time as it was, so that every later message tries again.\<close>

theorem daily_sink_safe:
  assumes "daily_file_sink_new e base h m tr d = Inr ds" "sorted (map (lm_time \<circ> snd) xs)"
    and "\<forall>(e', msg) \<in> set xs. daily_env_ok e' \<and> dy_log e' = dy_log e \<and> msg_ok msg \<and> to_secs (lm_time msg) \<noteq> 0"
  shows "\<exists>ds'. daily_run xs ds = Inr ds'"
proof -
  define t where "t = Min (insert 0 ((lm_time \<circ> snd) ` set xs))"
  have "t \<le> lm_time msg" if "(e', msg) \<in> set xs" for e' msg unfolding t_def using that by (intro Min_le) force+
  then show ?thesis using daily_run_safe [OF _ assms(2) daily_new_ok(1) [OF assms(1)], of t] assms(3) by fastforce
qed

text \<open>Otherwise they do: when the file of the next day cannot be opened, a message that was created earlier, by another thread, is written to a null
  stream.\<close>

theorem daily_closed_stream:
  assumes "daily_env_ok e" "daily_env_ok e'" "dy_log e' = dy_log e" "\<forall>f m n. \<not> lo_fopen (dk_log (dy_os e)) f m n"
    and "pattern_inv (dy_log e) (ds_formatter ds)" "ds_rotation_tp ds \<le> lm_time msg" "lm_time msg' < ds_rotation_tp ds"
    and "msg_ok msg'" "to_secs (lm_time msg') \<noteq> 0"
  shows "\<exists>ds' what. daily_sink_it e msg ds = throw what ds' \<and> daily_sink_it e' msg' ds' = Inl Null_deref"
proof -
  let ?f = "day_name (ds_base_filename ds) (daily_now_tm (dy_log e) (lm_time msg))"
  obtain ds1 ex where o: "daily_open e ?f ds = Inr (ds1, ex)" "fh_fd (ds_file ds1) \<longleftrightarrow> ex = None" "same_day ds ds1"
    using daily_open_eq [of e ?f ds] by blast
  have "ex \<noteq> None"
    using o(1) assms(4) by (auto simp: daily_open_def disk_open_def file_helper_open_def file_open_loop_eq throw_def Let_def)
  then obtain w where w: "ex = Some w" by auto
  have first: "daily_sink_it e msg ds = throw w ds1"
    using o(1) w assms(6) by (simp add: daily_sink_it_def daily_rotate_def catching_def daily_name [OF assms(1)] and_then_def throw_def)
  have env: "log_env_ok (dy_log e')" using assms(2) by (simp add: daily_env_ok_def)
  obtain pf where "pattern_formatter_format (dy_log e') (ds_formatter ds1) (msg', []) = Inr (pf, pattern_line (dy_log e') (ds_formatter ds1) (msg', []))"
    using pattern_format_eq [OF _ env assms(8,9)] assms(3,5) o(3) by (auto simp: same_day_def)
  then have "daily_sink_it e' msg' ds1 = Inl Null_deref"
    using o w assms(7)
    by (cases "pattern_line (dy_log e') (ds_formatter ds1) (msg', [])")
       (simp add: daily_sink_it_def daily_rotate_def and_then_def ok_def catching_def daily_write_def disk_write_def file_helper_write_def same_day_def)
  with first show ?thesis by blast
qed

end
