(* ===== verification/Periodic_Worker.thy ===== *)
theory Periodic_Worker
  imports Bounce_Prelude
begin

text \<open>
  The periodic worker of the logging library (\<^verbatim>\<open>details/periodic_worker.h\<close> under \<^verbatim>\<open>src/deps/spdlog\<close>), a thread that calls a
  function again and again until it is destroyed, as a transition system of the thread and the destructor. A critical section is one
  step, but the function is called with the mutex held, so that the call is a state of its own.

  Shown here: the function is not called any more once the destructor has taken the mutex; the notification is not lost, and from then on
  finitely many steps lead to the return of the destructor.
\<close>

section \<open>State\<close>

text \<open>
  No thread; a thread that is about to lock the mutex and to test the predicate, that waits, whose wait has timed out, that is in
  the call with the mutex, and that has returned.
\<close>

datatype pw_thread = T_none | T_lock | T_wait | T_timed | T_call | T_exit

text \<open>The destructor before its lock, before the notification, in the join, and after its return.\<close>

datatype pw_dtor = D_none | D_lock | D_notify | D_join | D_done

record periodic_worker =
  pw_active :: bool
  pw_worker :: pw_thread
  pw_end :: pw_dtor
  pw_calls :: nat

section \<open>Operations\<close>

definition periodic_worker_new :: "int \<Rightarrow> periodic_worker" where
  "periodic_worker_new interval =
     (let active = interval > 0
      in \<lparr>pw_active = active, pw_worker = (if active then T_lock else T_none), pw_end = D_none, pw_calls = 0\<rparr>)"

text \<open>The predicate of \<^verbatim>\<open>wait_for\<close> at its start and after a wake-up, and after the time is over.\<close>

definition pw_test :: "periodic_worker \<Rightarrow> periodic_worker" where
  "pw_test s = s\<lparr>pw_worker := if \<not> pw_active s then T_exit else T_wait\<rparr>"

definition pw_timeout :: "periodic_worker \<Rightarrow> periodic_worker" where
  "pw_timeout s = s\<lparr>pw_worker := if \<not> pw_active s then T_exit else T_call\<rparr>"

definition pw_destroy :: "periodic_worker \<Rightarrow> periodic_worker" where
  "pw_destroy s = s\<lparr>pw_end := if pw_worker s \<noteq> T_none then D_lock else D_done\<rparr>"

inductive pw_step :: "periodic_worker \<Rightarrow> periodic_worker \<Rightarrow> bool" where
  test: "pw_worker s = T_lock \<Longrightarrow> pw_step s (pw_test s)"
| wake: "pw_worker s = T_wait \<Longrightarrow> pw_step s (s\<lparr>pw_worker := T_lock\<rparr>)"
| time: "pw_worker s = T_wait \<Longrightarrow> pw_step s (s\<lparr>pw_worker := T_timed\<rparr>)"
| timed: "pw_worker s = T_timed \<Longrightarrow> pw_step s (pw_timeout s)"
| call: "pw_worker s = T_call \<Longrightarrow> pw_step s (s\<lparr>pw_worker := T_lock, pw_calls := pw_calls s + 1\<rparr>)"
| destroy: "pw_end s = D_none \<Longrightarrow> pw_step s (pw_destroy s)"
| stop: "pw_end s = D_lock \<Longrightarrow> pw_worker s \<noteq> T_call \<Longrightarrow> pw_step s (s\<lparr>pw_active := False, pw_end := D_notify\<rparr>)"
| notify: "pw_end s = D_notify \<Longrightarrow>
    pw_step s (s\<lparr>pw_worker := if pw_worker s = T_wait then T_lock else pw_worker s, pw_end := D_join\<rparr>)"
| join: "pw_end s = D_join \<Longrightarrow> pw_worker s = T_exit \<Longrightarrow> pw_step s (s\<lparr>pw_end := D_done\<rparr>)"

section \<open>Invariant\<close>

definition pw_inv :: "periodic_worker \<Rightarrow> bool" where
  "pw_inv s \<longleftrightarrow>
     (pw_worker s = T_none \<longrightarrow> pw_end s \<in> {D_none, D_done}) \<and>
     (pw_worker s \<noteq> T_none \<longrightarrow> (pw_active s \<longleftrightarrow> pw_end s \<in> {D_none, D_lock})) \<and>
     (pw_worker s = T_call \<longrightarrow> pw_active s) \<and> (pw_worker s = T_exit \<longrightarrow> \<not> pw_active s) \<and>
     (pw_end s = D_join \<longrightarrow> pw_worker s \<noteq> T_wait) \<and>
     (pw_end s = D_done \<longrightarrow> pw_worker s \<in> {T_none, T_exit})"

lemmas pw_defs = pw_inv_def pw_test_def pw_timeout_def pw_destroy_def periodic_worker_new_def

lemma pw_inv_step: "pw_step s t \<Longrightarrow> pw_inv s \<Longrightarrow> pw_inv t"
proof (induction rule: pw_step.induct)
  case (test s)
  then show ?case by (cases "pw_end s") (simp_all add: pw_defs)
next
  case (timed s)
  then show ?case by (cases "pw_end s") (simp_all add: pw_defs)
next
  case (destroy s)
  then show ?case by (cases "pw_worker s") (simp_all add: pw_defs)
next
  case (notify s)
  then show ?case by (cases "pw_worker s") (simp_all add: pw_defs)
qed (simp_all add: pw_inv_def)

interpretation pw: invariant_system "\<lambda>s. s = periodic_worker_new interval" pw_step pw_inv for interval
proof unfold_locales
  fix s t
  show "s = periodic_worker_new interval \<Longrightarrow> pw_inv s" by (simp add: pw_defs Let_def)
  show "pw_inv s \<Longrightarrow> pw_step s t \<Longrightarrow> pw_inv t" by (rule pw_inv_step)
qed

text \<open>What the thread and the destructor have left to do.\<close>

fun thread_left :: "pw_thread \<Rightarrow> nat" where
  "thread_left T_wait = 2"
| "thread_left T_none = 0"
| "thread_left T_exit = 0"
| "thread_left _ = 1"

fun dtor_left :: "pw_dtor \<Rightarrow> nat" where
  "dtor_left D_none = 4"
| "dtor_left D_lock = 3"
| "dtor_left D_notify = 2"
| "dtor_left D_join = 1"
| "dtor_left D_done = 0"

definition pw_left :: "periodic_worker \<Rightarrow> nat" where
  "pw_left s = thread_left (pw_worker s) + dtor_left (pw_end s)"

lemma pw_stopped_step:
  assumes "pw_step s t" "pw_inv s" "pw_end s \<in> {D_notify, D_join}"
  shows "pw_calls t = pw_calls s" "pw_left t < pw_left s" "pw_end t \<in> {D_notify, D_join, D_done}"
proof -
  have "pw_calls t = pw_calls s \<and> pw_left t < pw_left s \<and> pw_end t \<in> {D_notify, D_join, D_done}"
    using assms
  proof (induction rule: pw_step.induct)
    case (notify s)
    then show ?case by (cases "pw_worker s") (simp_all add: pw_left_def)
  qed (auto simp: pw_left_def pw_inv_def pw_test_def pw_timeout_def)
  then show "pw_calls t = pw_calls s" "pw_left t < pw_left s" "pw_end t \<in> {D_notify, D_join, D_done}" by simp_all
qed

section \<open>Properties\<close>

text \<open>The destructor of a periodic worker returns, and the function is not called after it. Once the destructor has taken the mutex, the
  function is not called any more, every step makes progress and there is always one, until the destructor has returned and the
  thread has ended; a thread that waits is always woken. Before that, the destructor waits at most for the call that is running.\<close>

theorem periodic_worker_ends:
  assumes "reachable (\<lambda>s. s = periodic_worker_new interval) pw_step s"
  shows "(pw_end s \<in> {D_notify, D_join} \<longrightarrow>
      (\<exists>t. pw_step s t) \<and> (\<forall>t. pw_step s t \<longrightarrow> pw_calls t = pw_calls s \<and> pw_left t < pw_left s \<and> pw_end t \<in> {D_notify, D_join, D_done})) \<and>
    (pw_end s = D_done \<longrightarrow> pw_worker s \<in> {T_none, T_exit} \<and> (\<nexists>t. pw_step s t)) \<and>
    (pw_end s = D_lock \<longrightarrow> (\<exists>t. pw_step s t \<and> (pw_end t = D_notify \<or> pw_worker s = T_call \<and> pw_worker t = T_lock)))"
proof -
  have inv: "pw_inv s" using pw.reachable_inv [OF assms] .
  have "\<exists>t. pw_step s t" if "pw_end s \<in> {D_notify, D_join}"
  proof (cases "pw_end s = D_notify")
    case True
    then show ?thesis using notify by blast
  next
    case False
    then have j: "pw_end s = D_join" using that by simp
    then have "pw_worker s \<in> {T_lock, T_timed, T_exit}" using inv by (cases "pw_worker s") (simp_all add: pw_inv_def)
    then show ?thesis using j test [of s] timed [of s] join [of s] by auto
  qed
  moreover have "pw_worker s \<in> {T_none, T_exit} \<and> (\<nexists>t. pw_step s t)" if "pw_end s = D_done"
    using inv that by (auto simp: pw_inv_def elim!: pw_step.cases)
  moreover have "\<exists>t. pw_step s t \<and> (pw_end t = D_notify \<or> pw_worker s = T_call \<and> pw_worker t = T_lock)" if "pw_end s = D_lock"
    using that stop [of s] call [of s] by (cases "pw_worker s = T_call") force+
  ultimately show ?thesis using pw_stopped_step [OF _ inv] by blast
qed

theorem periodic_worker_ends_witness:
  "\<exists>s t. pw_worker s = T_wait \<and> pw_end s = D_notify \<and> pw_step s t \<and> pw_calls t = pw_calls s \<and> pw_left t < pw_left s"
proof -
  let ?s = "\<lparr>pw_active = False, pw_worker = T_wait, pw_end = D_notify, pw_calls = 0\<rparr>"
  let ?R = "reachable (\<lambda>s. s = periodic_worker_new 5) pw_step"
  have "?R (periodic_worker_new 5)" by (rule reachable_init) simp
  then have "?R (pw_test (periodic_worker_new 5))" by (rule reachable_step) (rule test, simp add: pw_defs)
  then have "?R (pw_destroy (pw_test (periodic_worker_new 5)))" by (rule reachable_step) (rule destroy, simp add: pw_defs)
  then have "?R ?s"
    by (rule reachable_step) (use stop [of "pw_destroy (pw_test (periodic_worker_new 5))"] in \<open>simp add: pw_defs\<close>)
  from periodic_worker_ends [OF this] obtain t where "pw_step ?s t" "pw_calls t = pw_calls ?s" "pw_left t < pw_left ?s" by force
  then show ?thesis by (intro exI [of _ ?s] exI [of _ t]) simp
qed

end
