(* ===== verification/Any_Value.thy ===== *)
theory Any_Value
  imports Bounce_Prelude
begin

text \<open>
  The container \<^verbatim>\<open>linb::any\<close> (\<^verbatim>\<open>src/deps/any/any.hpp\<close>), in which event loops and connections keep the context of
  the program. An any has a table of functions for the type of its value, or none, and a union that holds either the value itself
  or a pointer to the heap. Variables are locations of a store, so that two references may be to the same variable; the locations
  \<open>Local\<close> are those of the temporaries inside the functions. Types and values are parameters, with the choice of the storage
  for a type and the copy constructors, which may throw. Moving a value gives the same value in its new place.

  Shown here: any sequence of operations behaves as on variables with optional typed values, nothing leaks, is freed twice or
  read after its destruction, and an exception leaves everything as it was; what casts return; and that swapping
  a variable with itself destroys a value that is stored in place before it is read.
\<close>

section \<open>Store\<close>

datatype loc = Var nat | Local nat

text \<open>The union: without an object, with one in place, or with a pointer.\<close>

datatype 'v storage = Raw | Stack 'v | Dynamic "nat option"

record ('t, 'v) any_world =
  aw_storage :: "loc \<Rightarrow> 'v storage"
  aw_vtable :: "loc \<Rightarrow> 't option"
  aw_heap :: "nat \<Rightarrow> ('t \<times> 'v) option"
  aw_next :: nat

text \<open>Which types are allocated on the heap, and the copy constructors, \<open>None\<close> for an exception.\<close>

record ('t, 'v) any_env =
  requires_allocation :: "'t \<Rightarrow> bool"
  copy_ctor :: "'t \<Rightarrow> 'v \<Rightarrow> 'v option"

definition set_storage :: "loc \<Rightarrow> 'v storage \<Rightarrow> ('t, 'v) any_world \<Rightarrow> ('t, 'v) any_world" where
  "set_storage l st w = w\<lparr>aw_storage := (aw_storage w)(l := st)\<rparr>"

definition set_vtable :: "loc \<Rightarrow> 't option \<Rightarrow> ('t, 'v) any_world \<Rightarrow> ('t, 'v) any_world" where
  "set_vtable l vt w = w\<lparr>aw_vtable := (aw_vtable w)(l := vt)\<rparr>"

definition heap_new :: "'t \<Rightarrow> 'v \<Rightarrow> ('t, 'v) any_world \<Rightarrow> nat \<times> ('t, 'v) any_world" where
  "heap_new t v w = (aw_next w, w\<lparr>aw_heap := (aw_heap w)(aw_next w \<mapsto> (t, v)), aw_next := aw_next w + 1\<rparr>)"

definition heap_read :: "'t \<Rightarrow> nat option \<Rightarrow> ('t, 'v) any_world \<Rightarrow> 'v res" where
  "heap_read t ptr w =
     (case ptr of
        None \<Rightarrow> Inl Null_deref
      | Some p \<Rightarrow> (case aw_heap w p of
          Some (t', v) \<Rightarrow> if t' = t then Inr v else Inl Null_deref
        | None \<Rightarrow> Inl Null_deref))"

text \<open>\<^verbatim>\<open>delete\<close> of a null pointer does nothing.\<close>

definition heap_delete :: "'t \<Rightarrow> nat option \<Rightarrow> ('t, 'v) any_world \<Rightarrow> ('t, 'v) any_world res" where
  "heap_delete t ptr w =
     (case ptr of
        None \<Rightarrow> Inr w
      | Some p \<Rightarrow> res_bind (heap_read t ptr w) (\<lambda>_. Inr (w\<lparr>aw_heap := (aw_heap w)(p := None)\<rparr>)))"

section \<open>Tables\<close>

text \<open>The functions of the two kinds of tables, on locations. A result of copying says whether the copy constructor threw.\<close>

definition dynamic_ptr :: "loc \<Rightarrow> ('t, 'v) any_world \<Rightarrow> nat option res" where
  "dynamic_ptr l w = (case aw_storage w l of Dynamic ptr \<Rightarrow> Inr ptr | _ \<Rightarrow> Inl Null_deref)"

definition stack_value :: "loc \<Rightarrow> ('t, 'v) any_world \<Rightarrow> 'v res" where
  "stack_value l w = (case aw_storage w l of Stack v \<Rightarrow> Inr v | _ \<Rightarrow> Inl Null_deref)"

definition dynamic_destroy :: "'t \<Rightarrow> loc \<Rightarrow> ('t, 'v) any_world \<Rightarrow> ('t, 'v) any_world res" where
  "dynamic_destroy t l w = res_bind (dynamic_ptr l w) (\<lambda>ptr. heap_delete t ptr w)"

definition dynamic_copy ::
  "('t, 'v) any_env \<Rightarrow> 't \<Rightarrow> loc \<Rightarrow> loc \<Rightarrow> ('t, 'v) any_world \<Rightarrow> (('t, 'v) any_world \<times> bool) res" where
  "dynamic_copy env t src dest w =
     res_bind (dynamic_ptr src w) (\<lambda>ptr.
     res_bind (heap_read t ptr w) (\<lambda>v.
       case copy_ctor env t v of
         None \<Rightarrow> Inr (w, True)
       | Some v \<Rightarrow> (let (p, w) = heap_new t v w in Inr (set_storage dest (Dynamic (Some p)) w, False))))"

definition dynamic_move :: "'t \<Rightarrow> loc \<Rightarrow> loc \<Rightarrow> ('t, 'v) any_world \<Rightarrow> ('t, 'v) any_world res" where
  "dynamic_move t src dest w =
     res_bind (dynamic_ptr src w) (\<lambda>ptr. Inr (set_storage src (Dynamic None) (set_storage dest (Dynamic ptr) w)))"

definition dynamic_swap :: "'t \<Rightarrow> loc \<Rightarrow> loc \<Rightarrow> ('t, 'v) any_world \<Rightarrow> ('t, 'v) any_world res" where
  "dynamic_swap t lhs rhs w =
     res_bind (dynamic_ptr lhs w) (\<lambda>p. res_bind (dynamic_ptr rhs w) (\<lambda>q.
       Inr (set_storage rhs (Dynamic p) (set_storage lhs (Dynamic q) w))))"

definition stack_destroy :: "'t \<Rightarrow> loc \<Rightarrow> ('t, 'v) any_world \<Rightarrow> ('t, 'v) any_world res" where
  "stack_destroy t l w = res_bind (stack_value l w) (\<lambda>_. Inr (set_storage l Raw w))"

definition stack_copy ::
  "('t, 'v) any_env \<Rightarrow> 't \<Rightarrow> loc \<Rightarrow> loc \<Rightarrow> ('t, 'v) any_world \<Rightarrow> (('t, 'v) any_world \<times> bool) res" where
  "stack_copy env t src dest w =
     res_bind (stack_value src w) (\<lambda>v.
       case copy_ctor env t v of
         None \<Rightarrow> Inr (w, True)
       | Some v \<Rightarrow> Inr (set_storage dest (Stack v) w, False))"

definition stack_move :: "'t \<Rightarrow> loc \<Rightarrow> loc \<Rightarrow> ('t, 'v) any_world \<Rightarrow> ('t, 'v) any_world res" where
  "stack_move t src dest w =
     res_bind (stack_value src w) (\<lambda>v. stack_destroy t src (set_storage dest (Stack v) w))"

text \<open>\<^verbatim>\<open>tmp_storage\<close> is the second local variable.\<close>

definition stack_swap :: "'t \<Rightarrow> loc \<Rightarrow> loc \<Rightarrow> ('t, 'v) any_world \<Rightarrow> ('t, 'v) any_world res" where
  "stack_swap t lhs rhs w =
     res_bind (stack_move t rhs (Local 1) w) (\<lambda>w.
     res_bind (stack_move t lhs rhs w) (\<lambda>w.
     stack_move t (Local 1) lhs w))"

definition vtable_destroy :: "('t, 'v) any_env \<Rightarrow> 't \<Rightarrow> loc \<Rightarrow> ('t, 'v) any_world \<Rightarrow> ('t, 'v) any_world res" where
  "vtable_destroy env t = (if requires_allocation env t then dynamic_destroy t else stack_destroy t)"

definition vtable_copy ::
  "('t, 'v) any_env \<Rightarrow> 't \<Rightarrow> loc \<Rightarrow> loc \<Rightarrow> ('t, 'v) any_world \<Rightarrow> (('t, 'v) any_world \<times> bool) res" where
  "vtable_copy env t = (if requires_allocation env t then dynamic_copy env t else stack_copy env t)"

definition vtable_move :: "('t, 'v) any_env \<Rightarrow> 't \<Rightarrow> loc \<Rightarrow> loc \<Rightarrow> ('t, 'v) any_world \<Rightarrow> ('t, 'v) any_world res" where
  "vtable_move env t = (if requires_allocation env t then dynamic_move t else stack_move t)"

definition vtable_swap :: "('t, 'v) any_env \<Rightarrow> 't \<Rightarrow> loc \<Rightarrow> loc \<Rightarrow> ('t, 'v) any_world \<Rightarrow> ('t, 'v) any_world res" where
  "vtable_swap env t = (if requires_allocation env t then dynamic_swap t else stack_swap t)"

section \<open>The class\<close>

definition any_empty :: "loc \<Rightarrow> ('t, 'v) any_world \<Rightarrow> bool" where
  "any_empty l w \<longleftrightarrow> aw_vtable w l = None"

text \<open>\<open>None\<close> is \<^verbatim>\<open>typeid(void)\<close>.\<close>

definition any_type :: "loc \<Rightarrow> ('t, 'v) any_world \<Rightarrow> 't option" where
  "any_type l w = aw_vtable w l"

definition any_ctor :: "loc \<Rightarrow> ('t, 'v) any_world \<Rightarrow> ('t, 'v) any_world" where
  "any_ctor l w = set_vtable l None w"

text \<open>When the copy constructor of the value throws, the any does not come into being.\<close>

definition any_copy_ctor ::
  "('t, 'v) any_env \<Rightarrow> loc \<Rightarrow> loc \<Rightarrow> ('t, 'v) any_world \<Rightarrow> (('t, 'v) any_world \<times> bool) res" where
  "any_copy_ctor env l rhs w =
     (let w = set_vtable l (aw_vtable w rhs) w in
      case aw_vtable w rhs of
        None \<Rightarrow> Inr (w, False)
      | Some t \<Rightarrow> res_bind (vtable_copy env t rhs l w) (\<lambda>(w, threw).
          Inr (if threw then (set_vtable l None w, True) else (w, False))))"

definition any_move_ctor :: "('t, 'v) any_env \<Rightarrow> loc \<Rightarrow> loc \<Rightarrow> ('t, 'v) any_world \<Rightarrow> ('t, 'v) any_world res" where
  "any_move_ctor env l rhs w =
     (let w = set_vtable l (aw_vtable w rhs) w in
      case aw_vtable w rhs of
        None \<Rightarrow> Inr w
      | Some t \<Rightarrow> res_bind (vtable_move env t rhs l w) (\<lambda>w. Inr (set_vtable rhs None w)))"

text \<open>The constructor from a value copies or moves it; here it throws when the value is \<open>None\<close>.\<close>

definition any_value_ctor ::
  "('t, 'v) any_env \<Rightarrow> loc \<Rightarrow> 't \<Rightarrow> 'v option \<Rightarrow> ('t, 'v) any_world \<Rightarrow> ('t, 'v) any_world \<times> bool" where
  "any_value_ctor env l t val w =
     (let w = set_vtable l (Some t) w in
      case val of
        None \<Rightarrow> (set_vtable l None w, True)
      | Some v \<Rightarrow>
          (if requires_allocation env t
           then (let (p, w) = heap_new t v w in (set_storage l (Dynamic (Some p)) w, False))
           else (set_storage l (Stack v) w, False)))"

definition any_clear :: "('t, 'v) any_env \<Rightarrow> loc \<Rightarrow> ('t, 'v) any_world \<Rightarrow> ('t, 'v) any_world res" where
  "any_clear env l w =
     (case aw_vtable w l of
        None \<Rightarrow> Inr w
      | Some t \<Rightarrow> res_bind (vtable_destroy env t l w) (\<lambda>w. Inr (set_vtable l None w)))"

definition any_dtor :: "('t, 'v) any_env \<Rightarrow> loc \<Rightarrow> ('t, 'v) any_world \<Rightarrow> ('t, 'v) any_world res" where
  "any_dtor env l w = any_clear env l w"

text \<open>\<^verbatim>\<open>if(vtable != nullptr) vtable->move(src, dest)\<close>.\<close>

definition move_if :: "('t, 'v) any_env \<Rightarrow> 't option \<Rightarrow> loc \<Rightarrow> loc \<Rightarrow> ('t, 'v) any_world \<Rightarrow> ('t, 'v) any_world res" where
  "move_if env vt src dest w = (case vt of None \<Rightarrow> Inr w | Some t \<Rightarrow> vtable_move env t src dest w)"

text \<open>\<^verbatim>\<open>tmp\<close> is the first local variable.\<close>

definition any_swap :: "('t, 'v) any_env \<Rightarrow> loc \<Rightarrow> loc \<Rightarrow> ('t, 'v) any_world \<Rightarrow> ('t, 'v) any_world res" where
  "any_swap env this rhs w =
     (if aw_vtable w this \<noteq> aw_vtable w rhs then
        let tmp = Local 0 in
        res_bind (any_move_ctor env tmp rhs w) (\<lambda>w.
        let w = set_vtable rhs (aw_vtable w this) w in
        res_bind (move_if env (aw_vtable w this) this rhs w) (\<lambda>w.
        let vt = aw_vtable w tmp; w = set_vtable this vt w in
        res_bind (move_if env vt tmp this w) (\<lambda>w.
        any_dtor env tmp (if vt \<noteq> None then set_vtable tmp None w else w))))
      else
        (case aw_vtable w this of None \<Rightarrow> Inr w | Some t \<Rightarrow> vtable_swap env t this rhs w))"

text \<open>Assignments go through a temporary, the third local variable, which is destroyed at the end.\<close>

definition any_assign ::
  "('t, 'v) any_env \<Rightarrow> loc \<Rightarrow> loc \<Rightarrow> ('t, 'v) any_world \<Rightarrow> (('t, 'v) any_world \<times> bool) res" where
  "any_assign env this rhs w =
     res_bind (any_copy_ctor env (Local 2) rhs w) (\<lambda>(w, threw).
       if threw then Inr (w, True)
       else res_bind (any_swap env (Local 2) this w) (\<lambda>w. res_bind (any_dtor env (Local 2) w) (\<lambda>w. Inr (w, False))))"

definition any_move_assign :: "('t, 'v) any_env \<Rightarrow> loc \<Rightarrow> loc \<Rightarrow> ('t, 'v) any_world \<Rightarrow> ('t, 'v) any_world res" where
  "any_move_assign env this rhs w =
     res_bind (any_move_ctor env (Local 2) rhs w) (\<lambda>w.
     res_bind (any_swap env (Local 2) this w) (any_dtor env (Local 2)))"

definition any_value_assign ::
  "('t, 'v) any_env \<Rightarrow> loc \<Rightarrow> 't \<Rightarrow> 'v option \<Rightarrow> ('t, 'v) any_world \<Rightarrow> (('t, 'v) any_world \<times> bool) res" where
  "any_value_assign env this t val w =
     (let (w, threw) = any_value_ctor env (Local 2) t val w in
      if threw then Inr (w, True)
      else res_bind (any_swap env (Local 2) this w) (\<lambda>w. res_bind (any_dtor env (Local 2) w) (\<lambda>w. Inr (w, False))))"

definition any_is_typed :: "'t \<Rightarrow> loc \<Rightarrow> ('t, 'v) any_world \<Rightarrow> bool" where
  "any_is_typed t l w \<longleftrightarrow> any_type l w = Some t"

text \<open>\<^verbatim>\<open>cast<T>\<close> is a pointer to the value, here the value behind it.\<close>

definition any_cast_unchecked :: "('t, 'v) any_env \<Rightarrow> 't \<Rightarrow> loc \<Rightarrow> ('t, 'v) any_world \<Rightarrow> 'v res" where
  "any_cast_unchecked env t l w =
     (if requires_allocation env t then res_bind (dynamic_ptr l w) (\<lambda>ptr. heap_read t ptr w) else stack_value l w)"

text \<open>The cast of a pointer, null for a null operand and for another type.\<close>

definition any_cast_ptr :: "('t, 'v) any_env \<Rightarrow> 't \<Rightarrow> loc option \<Rightarrow> ('t, 'v) any_world \<Rightarrow> 'v option res" where
  "any_cast_ptr env t operand w =
     (case operand of
        None \<Rightarrow> Inr None
      | Some l \<Rightarrow> if \<not> any_is_typed t l w then Inr None
          else res_bind (any_cast_unchecked env t l w) (\<lambda>v. Inr (Some v)))"

definition any_cast :: "('t, 'v) any_env \<Rightarrow> 't \<Rightarrow> loc \<Rightarrow> ('t, 'v) any_world \<Rightarrow> 'v res" where
  "any_cast env t l w =
     res_bind (any_cast_ptr env t (Some l) w) (\<lambda>p. case p of None \<Rightarrow> Inl Bad_any_cast | Some v \<Rightarrow> Inr v)"

section \<open>Contents and invariant\<close>

text \<open>The typed value of an any.\<close>

definition contents :: "('t, 'v) any_env \<Rightarrow> ('t, 'v) any_world \<Rightarrow> loc \<Rightarrow> ('t \<times> 'v) option" where
  "contents env w l =
     (case aw_vtable w l of
        None \<Rightarrow> None
      | Some t \<Rightarrow>
          if requires_allocation env t
          then (case aw_storage w l of Dynamic (Some p) \<Rightarrow> aw_heap w p | _ \<Rightarrow> None)
          else (case aw_storage w l of Stack v \<Rightarrow> Some (t, v) | _ \<Rightarrow> None))"

definition slot_ok :: "('t, 'v) any_env \<Rightarrow> ('t, 'v) any_world \<Rightarrow> loc \<Rightarrow> bool" where
  "slot_ok env w l \<longleftrightarrow>
     (case aw_vtable w l of
        None \<Rightarrow> True
      | Some t \<Rightarrow>
          if requires_allocation env t
          then (\<exists>p v. aw_storage w l = Dynamic (Some p) \<and> aw_heap w p = Some (t, v))
          else (\<exists>v. aw_storage w l = Stack v))"

text \<open>The cell that an any owns.\<close>

definition owns :: "('t, 'v) any_env \<Rightarrow> ('t, 'v) any_world \<Rightarrow> loc \<Rightarrow> nat \<Rightarrow> bool" where
  "owns env w l p \<longleftrightarrow>
     (\<exists>t. aw_vtable w l = Some t \<and> requires_allocation env t \<and> aw_storage w l = Dynamic (Some p))"

text \<open>Every any has its value, no two share a cell of the heap, and every cell in use has an owner.\<close>

definition any_inv :: "('t, 'v) any_env \<Rightarrow> ('t, 'v) any_world \<Rightarrow> bool" where
  "any_inv env w \<longleftrightarrow>
     (\<forall>l. slot_ok env w l) \<and>
     (\<forall>l l' p. owns env w l p \<longrightarrow> owns env w l' p \<longrightarrow> l = l') \<and>
     (\<forall>p. aw_heap w p \<noteq> None \<longrightarrow> (\<exists>l. owns env w l p)) \<and>
     (\<forall>p \<ge> aw_next w. aw_heap w p = None)"

named_theorems any_defs \<open>the primitives on worlds\<close>

declare set_storage_def [any_defs] set_vtable_def [any_defs] heap_new_def [any_defs] heap_read_def [any_defs]
  heap_delete_def [any_defs] dynamic_ptr_def [any_defs] stack_value_def [any_defs] dynamic_destroy_def [any_defs]
  dynamic_copy_def [any_defs] dynamic_move_def [any_defs] dynamic_swap_def [any_defs] stack_destroy_def [any_defs]
  stack_copy_def [any_defs] stack_move_def [any_defs] stack_swap_def [any_defs] vtable_destroy_def [any_defs]
  vtable_copy_def [any_defs] vtable_move_def [any_defs] vtable_swap_def [any_defs]

lemma contents_vtable: "slot_ok env w l \<Longrightarrow> aw_vtable w l = map_option fst (contents env w l)"
  by (auto simp: slot_ok_def contents_def split: option.splits if_splits)

text \<open>Moving the value of \<open>r\<close> to \<open>l\<close>.\<close>

definition transfer :: "('t, 'v) any_env \<Rightarrow> loc \<Rightarrow> loc \<Rightarrow> ('t, 'v) any_world \<Rightarrow> ('t, 'v) any_world" where
  "transfer env l r w =
     (case aw_vtable w r of
        None \<Rightarrow> set_vtable l None w
      | Some t \<Rightarrow> w\<lparr>aw_vtable := (aw_vtable w)(l := Some t, r := None),
          aw_storage := (aw_storage w)(l := aw_storage w r, r := if requires_allocation env t then Dynamic None else Raw)\<rparr>)"

lemma any_move_ctor_eq:
  assumes "slot_ok env w r" "l \<noteq> r"
  shows "any_move_ctor env l r w = Inr (transfer env l r w)"
proof (cases "aw_vtable w r")
  case None
  then show ?thesis using assms by (simp add: any_move_ctor_def transfer_def any_defs)
next
  case (Some t)
  then show ?thesis
    using assms by (cases "requires_allocation env t")
      (auto simp: any_move_ctor_def transfer_def slot_ok_def any_defs fun_upd_twist)
qed

lemma transfer_owns:
  assumes "l \<noteq> r" "aw_vtable w l = None"
  shows "owns env (transfer env l r w) x p \<longleftrightarrow> (if x = l then owns env w r p else x \<noteq> r \<and> owns env w x p)"
  using assms by (auto simp: owns_def transfer_def set_vtable_def split: option.splits)

lemma transfer_heap: "aw_heap (transfer env l r w) = aw_heap w" "aw_next (transfer env l r w) = aw_next w"
  by (auto simp: transfer_def set_vtable_def split: option.splits)

lemma transfer_contents:
  assumes "l \<noteq> r" "aw_vtable w l = None"
  shows "contents env (transfer env l r w) = (contents env w)(l := contents env w r, r := None)"
  using assms by (auto simp: contents_def transfer_def set_vtable_def fun_eq_iff split: option.splits storage.splits)

lemma transfer_slot:
  assumes "\<forall>l. slot_ok env w l" "l \<noteq> r"
  shows "slot_ok env (transfer env l r w) x"
  using spec [OF assms(1), of x] spec [OF assms(1), of r] assms(2)
  by (auto simp: slot_ok_def transfer_def set_vtable_def split: option.splits)

lemma transfer_inv:
  assumes "any_inv env w" "l \<noteq> r" "aw_vtable w l = None"
  shows "any_inv env (transfer env l r w)"
proof -
  have inv: "\<forall>l. slot_ok env w l" "\<And>l l' p. owns env w l p \<Longrightarrow> owns env w l' p \<Longrightarrow> l = l'"
    "\<And>p. aw_heap w p \<noteq> None \<Longrightarrow> \<exists>l. owns env w l p" "\<forall>p \<ge> aw_next w. aw_heap w p = None"
    using assms(1) unfolding any_inv_def by blast+
  have l: "\<not> owns env w l p" for p using assms(3) by (simp add: owns_def)
  have "\<exists>x. owns env (transfer env l r w) x p" if p: "aw_heap w p \<noteq> None" for p
  proof -
    obtain x where x: "owns env w x p" using inv(3) [OF p] by blast
    show ?thesis
    proof (cases "x = r")
      case True
      then show ?thesis using x transfer_owns [OF assms(2,3), of env l p] by auto
    next
      case False
      then show ?thesis using x l transfer_owns [OF assms(2,3), of env x p] by (cases "x = l") auto
    qed
  qed
  moreover have "x = y" if "owns env (transfer env l r w) x p" "owns env (transfer env l r w) y p" for x y p
    using that inv(2) transfer_owns [OF assms(2,3), of env] by (metis (full_types))
  ultimately show ?thesis
    using transfer_slot [OF inv(1) assms(2)] inv(4) unfolding any_inv_def transfer_heap by blast
qed

lemma transfer_vtable:
  "l \<noteq> r \<Longrightarrow> aw_vtable (transfer env l r w) = (aw_vtable w)(l := aw_vtable w r, r := None)"
  by (auto simp: transfer_def set_vtable_def split: option.splits)

text \<open>Swapping anys of different types is three moves.\<close>

lemma any_swap_different:
  assumes "\<forall>l. slot_ok env w l" "i \<noteq> j" "i \<noteq> Local 0" "j \<noteq> Local 0" "aw_vtable w i \<noteq> aw_vtable w j"
  shows "any_swap env i j w = Inr (transfer env i (Local 0) (transfer env j i (transfer env (Local 0) j w)))"
proof -
  have s: "slot_ok env w i" "slot_ok env w j" using assms(1) by auto
  show ?thesis
    using assms(2-5) s
    by (cases "aw_vtable w i"; cases "aw_vtable w j")
       (auto simp: any_swap_def any_move_ctor_eq [OF s(2)] transfer_def slot_ok_def move_if_def any_dtor_def any_clear_def
         any_defs Let_def fun_upd_twist split: if_splits)
qed

text \<open>Two anys of one type exchange their unions; the temporary one is left without an object.\<close>

definition exchange :: "('t, 'v) any_env \<Rightarrow> 't \<Rightarrow> loc \<Rightarrow> loc \<Rightarrow> ('t, 'v) any_world \<Rightarrow> ('t, 'v) any_world" where
  "exchange env t i j w = w\<lparr>aw_storage :=
     (if requires_allocation env t then aw_storage w else (aw_storage w)(Local 1 := Raw))
       (i := aw_storage w j, j := aw_storage w i)\<rparr>"

lemma vtable_swap_eq:
  assumes "slot_ok env w i" "slot_ok env w j" "aw_vtable w i = Some t" "aw_vtable w j = Some t"
    "i \<noteq> j" "i \<noteq> Local 1" "j \<noteq> Local 1"
  shows "vtable_swap env t i j w = Inr (exchange env t i j w)"
  using assms
  by (cases "requires_allocation env t") (auto simp: slot_ok_def exchange_def any_defs fun_upd_twist)

lemma exchange_heap: "aw_heap (exchange env t i j w) = aw_heap w" "aw_next (exchange env t i j w) = aw_next w"
  by (simp_all add: exchange_def)

lemma exchange_owns:
  assumes "i \<noteq> j" "i \<noteq> Local 1" "j \<noteq> Local 1" "aw_vtable w i = Some t" "aw_vtable w j = Some t" "aw_vtable w (Local 1) = None"
  shows "owns env (exchange env t i j w) x p \<longleftrightarrow> owns env w (if x = i then j else if x = j then i else x) p"
  using assms by (auto simp: owns_def exchange_def)

lemma exchange_contents:
  assumes "i \<noteq> j" "i \<noteq> Local 1" "j \<noteq> Local 1" "aw_vtable w i = Some t" "aw_vtable w j = Some t" "aw_vtable w (Local 1) = None"
  shows "contents env (exchange env t i j w) = (contents env w)(i := contents env w j, j := contents env w i)"
  using assms by (auto simp: contents_def exchange_def fun_eq_iff split: option.splits storage.splits)

lemma exchange_inv:
  assumes "any_inv env w" "i \<noteq> j" "i \<noteq> Local 1" "j \<noteq> Local 1" "aw_vtable w i = Some t" "aw_vtable w j = Some t"
    "aw_vtable w (Local 1) = None"
  shows "any_inv env (exchange env t i j w)"
proof -
  have inv: "\<And>l. slot_ok env w l" "\<And>l l' p. owns env w l p \<Longrightarrow> owns env w l' p \<Longrightarrow> l = l'"
    "\<And>p. aw_heap w p \<noteq> None \<Longrightarrow> \<exists>l. owns env w l p" "\<forall>p \<ge> aw_next w. aw_heap w p = None"
    using assms(1) unfolding any_inv_def by blast+
  note own = exchange_owns [OF assms(2-7), of env]
  have "slot_ok env (exchange env t i j w) x" for x
    using inv(1) [of x] inv(1) [of i] inv(1) [of j] assms(2-7)
    by (auto simp: slot_ok_def exchange_def split: option.splits)
  moreover have "x = y" if "owns env (exchange env t i j w) x p" "owns env (exchange env t i j w) y p" for x y p
    using that inv(2) unfolding own by (metis (full_types))
  moreover have "\<exists>x. owns env (exchange env t i j w) x p" if "aw_heap w p \<noteq> None" for p
    using inv(3) [OF that] unfolding own by (metis (full_types))
  ultimately show ?thesis using inv(4) unfolding any_inv_def exchange_heap by blast
qed

text \<open>Whatever the types.\<close>

lemma any_swap_ok:
  assumes "any_inv env w" "i \<noteq> j" "i \<notin> {Local 0, Local 1}" "j \<notin> {Local 0, Local 1}"
    "aw_vtable w (Local 0) = None" "aw_vtable w (Local 1) = None"
  shows "\<exists>u. any_swap env i j w = Inr u \<and> any_inv env u \<and>
    contents env u = (contents env w)(i := contents env w j, j := contents env w i)"
proof (cases "aw_vtable w i = aw_vtable w j")
  case False
  let ?a = "transfer env (Local 0) j w"
  let ?b = "transfer env j i ?a"
  have slots: "\<forall>l. slot_ok env w l" using assms(1) by (simp add: any_inv_def)
  have ne: "Local 0 \<noteq> j" "j \<noteq> i" "i \<noteq> Local 0" using assms(2-4) by auto
  have a: "any_inv env ?a" "aw_vtable ?a j = None" using transfer_inv [OF assms(1) ne(1) assms(5)] ne by (auto simp: transfer_vtable)
  have b: "any_inv env ?b" "aw_vtable ?b i = None" using transfer_inv [OF a(1) ne(2) a(2)] ne by (auto simp: transfer_vtable)
  have none: "contents env w (Local 0) = None" using assms(5) by (simp add: contents_def)
  have "contents env (transfer env i (Local 0) ?b) = (contents env w)(i := contents env w j, j := contents env w i)"
    using ne none
    by (auto simp: transfer_contents [OF ne(3) b(2)] transfer_contents [OF ne(2) a(2)] transfer_contents [OF ne(1) assms(5)] fun_eq_iff)
  then show ?thesis
    using any_swap_different [OF slots assms(2) _ _ False] assms(3,4) transfer_inv [OF b(1) ne(3) b(2)] by auto
next
  case True
  have slots: "slot_ok env w l" for l using assms(1) by (simp add: any_inv_def)
  show ?thesis
  proof (cases "aw_vtable w i")
    case None
    then show ?thesis using True assms(1) by (auto simp: any_swap_def contents_def fun_eq_iff)
  next
    case (Some t)
    then show ?thesis
      using True assms vtable_swap_eq [OF slots slots, of i t j] exchange_inv [OF assms(1,2), of t] exchange_contents [OF assms(2), of w t env]
      by (auto simp: any_swap_def)
  qed
qed

text \<open>Clearing.\<close>

lemma any_clear_ok:
  assumes "any_inv env w"
  shows "\<exists>u. any_clear env l w = Inr u \<and> any_inv env u \<and> contents env u = (contents env w)(l := None)"
proof (cases "aw_vtable w l")
  case None
  then show ?thesis using assms by (auto simp: any_clear_def contents_def fun_eq_iff)
next
  case (Some t)
  have inv: "\<And>l. slot_ok env w l" "\<And>l l' p. owns env w l p \<Longrightarrow> owns env w l' p \<Longrightarrow> l = l'"
    "\<And>p. aw_heap w p \<noteq> None \<Longrightarrow> \<exists>l. owns env w l p" "\<And>p. aw_next w \<le> p \<Longrightarrow> aw_heap w p = None"
    using assms unfolding any_inv_def by blast+
  show ?thesis
  proof (cases "requires_allocation env t")
    case True
    obtain p v where p: "aw_storage w l = Dynamic (Some p)" "aw_heap w p = Some (t, v)"
      using inv(1) [of l] Some True by (auto simp: slot_ok_def)
    define u where "u = w\<lparr>aw_heap := (aw_heap w)(p := None), aw_vtable := (aw_vtable w)(l := None)\<rparr>"
    have u: "any_clear env l w = Inr u" using Some True p by (simp add: any_clear_def any_defs u_def)
    have lp: "owns env w l p" using Some True p by (simp add: owns_def)
    have other: "owns env w x q \<longrightarrow> q \<noteq> p" if "x \<noteq> l" for x q using that inv(2) lp by blast
    have own: "owns env u x q \<longleftrightarrow> x \<noteq> l \<and> owns env w x q" for x q by (auto simp: owns_def u_def)
    have "slot_ok env u x" for x
      using inv(1) [of x] other [of x] by (fastforce simp: slot_ok_def u_def owns_def split: option.splits)
    moreover have "\<exists>x. owns env u x q" if "aw_heap u q \<noteq> None" for q
    proof -
      have "q \<noteq> p" "aw_heap w q \<noteq> None" using that by (auto simp: u_def split: if_splits)
      then obtain x where "owns env w x q" using inv(3) by blast
      moreover have "x \<noteq> l" using calculation \<open>q \<noteq> p\<close> p(1) by (auto simp: owns_def)
      ultimately show ?thesis unfolding own by blast
    qed
    moreover have "aw_heap u q = None" if "aw_next u \<le> q" for q using that inv(4) by (simp add: u_def)
    ultimately have "any_inv env u" using inv(2) unfolding any_inv_def own by blast
    moreover have "contents env u x = ((contents env w)(l := None)) x" for x
      using other [of x] by (auto simp: contents_def u_def owns_def split: option.splits storage.splits)
    ultimately show ?thesis using u by blast
  next
    case False
    obtain v where v: "aw_storage w l = Stack v" using inv(1) [of l] Some False by (auto simp: slot_ok_def)
    define u where "u = w\<lparr>aw_storage := (aw_storage w)(l := Raw), aw_vtable := (aw_vtable w)(l := None)\<rparr>"
    have u: "any_clear env l w = Inr u" using Some False v by (simp add: any_clear_def any_defs u_def)
    have own: "owns env u x q \<longleftrightarrow> owns env w x q" for x q using Some False by (auto simp: owns_def u_def)
    have "slot_ok env u x" for x using inv(1) [of x] by (auto simp: slot_ok_def u_def split: option.splits)
    moreover have h: "aw_heap u = aw_heap w" "aw_next u = aw_next w" by (simp_all add: u_def)
    ultimately have "any_inv env u" using inv(2-4) unfolding any_inv_def own h by blast
    moreover have "contents env u x = ((contents env w)(l := None)) x" for x
      by (auto simp: contents_def u_def split: option.splits storage.splits)
    ultimately show ?thesis using u by blast
  qed
qed

text \<open>A new value in an empty any.\<close>

definition put_value :: "('t, 'v) any_env \<Rightarrow> loc \<Rightarrow> 't \<Rightarrow> 'v \<Rightarrow> ('t, 'v) any_world \<Rightarrow> ('t, 'v) any_world" where
  "put_value env l t v w = fst (any_value_ctor env l t (Some v) w)"

lemma put_value_contents:
  assumes "any_inv env w" "aw_vtable w l = None"
  shows "contents env (put_value env l t v w) = (contents env w)(l := Some (t, v))"
proof -
  have "contents env (put_value env l t v w) x = ((contents env w)(l := Some (t, v))) x" for x
  proof (cases "x = l")
    case False
    have "slot_ok env w x" "\<And>p. aw_next w \<le> p \<Longrightarrow> aw_heap w p = None" using assms(1) by (auto simp: any_inv_def)
    then show ?thesis using False
      by (fastforce simp: contents_def slot_ok_def put_value_def any_value_ctor_def any_defs Let_def split: option.splits storage.splits)
  qed (simp add: contents_def put_value_def any_value_ctor_def any_defs Let_def)
  then show ?thesis by blast
qed

lemma put_value_inv:
  assumes "any_inv env w" "aw_vtable w l = None"
  shows "any_inv env (put_value env l t v w)"
proof -
  have inv: "\<And>l. slot_ok env w l" "\<And>l l' p. owns env w l p \<Longrightarrow> owns env w l' p \<Longrightarrow> l = l'"
    "\<And>p. aw_heap w p \<noteq> None \<Longrightarrow> \<exists>l. owns env w l p" "\<And>p. aw_next w \<le> p \<Longrightarrow> aw_heap w p = None"
    using assms unfolding any_inv_def by blast+
  define u where "u = put_value env l t v w"
  have nl: "\<not> owns env w l q" for q using assms(2) by (simp add: owns_def)
  have old: "q \<noteq> aw_next w" if "owns env w x q" for x q
    using that inv(1) [of x] inv(4) [of q] by (auto simp: owns_def slot_ok_def)
  have own: "owns env u x q \<longleftrightarrow> (if x = l then requires_allocation env t \<and> q = aw_next w else owns env w x q)" for x q
    by (auto simp: owns_def u_def put_value_def any_value_ctor_def any_defs Let_def)
  have heap: "aw_heap u = (if requires_allocation env t then (aw_heap w)(aw_next w \<mapsto> (t, v)) else aw_heap w)"
    "aw_next u = (if requires_allocation env t then Suc (aw_next w) else aw_next w)"
    by (auto simp: u_def put_value_def any_value_ctor_def any_defs Let_def)
  have "slot_ok env u x" for x
    using inv(1) [of x] inv(4) [of "aw_next w"]
    by (fastforce simp: slot_ok_def u_def put_value_def any_value_ctor_def any_defs Let_def split: option.splits)
  moreover have "x = y" if "owns env u x q" "owns env u y q" for x y q
    using that inv(2) old unfolding own by (metis (full_types))
  moreover have "\<exists>x. owns env u x q" if "aw_heap u q \<noteq> None" for q
  proof (cases "requires_allocation env t \<and> q = aw_next w")
    case True
    then show ?thesis unfolding own by auto
  next
    case False
    then have "aw_heap w q \<noteq> None" using that by (auto simp: heap split: if_splits)
    then obtain x where "owns env w x q" using inv(3) by blast
    then show ?thesis using nl unfolding own by (intro exI [of _ x]) auto
  qed
  moreover have "aw_heap u q = None" if "aw_next u \<le> q" for q using that inv(4) by (auto simp: heap split: if_splits)
  ultimately show ?thesis unfolding any_inv_def u_def [symmetric] by blast
qed

text \<open>Copies, through the same lemma.\<close>

lemma any_copy_ctor_eq:
  assumes "any_inv env w" "aw_vtable w l = None" "l \<noteq> r"
  shows "any_copy_ctor env l r w =
    (case contents env w r of
       None \<Rightarrow> Inr (w, False)
     | Some (t, v) \<Rightarrow> (case copy_ctor env t v of None \<Rightarrow> Inr (w, True) | Some v \<Rightarrow> Inr (put_value env l t v w, False)))"
proof -
  have same: "w\<lparr>aw_vtable := (aw_vtable w)(l := None)\<rparr> = w" using assms(2) by (simp flip: assms(2))
  have "slot_ok env w r" using assms(1) by (simp add: any_inv_def)
  then show ?thesis
  proof (cases "aw_vtable w r")
    case None
    then show ?thesis using same by (simp add: any_copy_ctor_def contents_def set_vtable_def)
  next
    case (Some t)
    show ?thesis
    proof (cases "requires_allocation env t")
      case True
      obtain p v where "aw_storage w r = Dynamic (Some p)" "aw_heap w p = Some (t, v)"
        using \<open>slot_ok env w r\<close> Some True by (auto simp: slot_ok_def)
      then show ?thesis using Some True assms(2,3) same
        by (auto simp: any_copy_ctor_def contents_def put_value_def any_value_ctor_def any_defs Let_def split: option.splits)
    next
      case False
      obtain v where "aw_storage w r = Stack v"
        using \<open>slot_ok env w r\<close> Some False by (auto simp: slot_ok_def)
      then show ?thesis using Some False assms(2,3) same
        by (auto simp: any_copy_ctor_def contents_def put_value_def any_value_ctor_def any_defs Let_def split: option.splits)
    qed
  qed
qed

section \<open>Programs\<close>

text \<open>Between two operations no temporary is alive.\<close>

definition any_world_ok :: "('t, 'v) any_env \<Rightarrow> ('t, 'v) any_world \<Rightarrow> bool" where
  "any_world_ok env w \<longleftrightarrow> any_inv env w \<and> (\<forall>n. aw_vtable w (Local n) = None)"

lemma contents_None: "any_inv env w \<Longrightarrow> contents env w l = None \<longleftrightarrow> aw_vtable w l = None"
  using contents_vtable [of env w l] by (simp add: any_inv_def)

text \<open>An assignment from the temporary: swapped in, then the old value is destroyed.\<close>

lemma swap_and_destroy:
  assumes "any_inv env w" "\<forall>n. n \<noteq> 2 \<longrightarrow> aw_vtable w (Local n) = None"
  shows "\<exists>u. res_bind (any_swap env (Local 2) (Var i) w) (any_dtor env (Local 2)) = Inr u \<and> any_world_ok env u \<and>
    contents env u = (contents env w)(Var i := contents env w (Local 2), Local 2 := None)"
proof -
  obtain x where x: "any_swap env (Local 2) (Var i) w = Inr x" "any_inv env x"
    "contents env x = (contents env w)(Local 2 := contents env w (Var i), Var i := contents env w (Local 2))"
    using any_swap_ok [OF assms(1), of "Local 2" "Var i"] assms(2) by auto
  obtain u where u: "any_clear env (Local 2) x = Inr u" "any_inv env u" "contents env u = (contents env x)(Local 2 := None)"
    using any_clear_ok [OF x(2)] by blast
  have cu: "contents env u = (contents env w)(Var i := contents env w (Local 2), Local 2 := None)"
    using u(3) x(3) by (auto simp: fun_eq_iff)
  have "aw_vtable u (Local n) = None" for n
    using cu assms(2) contents_None [OF u(2), of "Local n"] contents_None [OF assms(1), of "Local n"] by (cases "n = 2") auto
  then show ?thesis using x(1) u cu by (auto simp: any_dtor_def any_world_ok_def)
qed

text \<open>The operations of a program on its variables.\<close>

datatype ('t, 'v) any_op =
    Set_value nat 't "'v option"
  | Copy_assign nat nat
  | Move_assign nat nat
  | Swap nat nat
  | Clear nat

fun any_do :: "('t, 'v) any_env \<Rightarrow> ('t, 'v) any_op \<Rightarrow> ('t, 'v) any_world \<Rightarrow> ('t, 'v) any_world res" where
  "any_do env (Set_value i t val) w = res_bind (any_value_assign env (Var i) t val w) (\<lambda>(w, threw). Inr w)"
| "any_do env (Copy_assign i j) w = res_bind (any_assign env (Var i) (Var j) w) (\<lambda>(w, threw). Inr w)"
| "any_do env (Move_assign i j) w = any_move_assign env (Var i) (Var j) w"
| "any_do env (Swap i j) w = any_swap env (Var i) (Var j) w"
| "any_do env (Clear i) w = any_clear env (Var i) w"

text \<open>The same on variables with optional typed values: an operation whose copy constructor throws has no effect.\<close>

fun opt_do ::
  "('t \<Rightarrow> 'v \<Rightarrow> 'v option) \<Rightarrow> ('t, 'v) any_op \<Rightarrow> (nat \<Rightarrow> ('t \<times> 'v) option) \<Rightarrow> nat \<Rightarrow> ('t \<times> 'v) option" where
  "opt_do copy (Set_value i t val) m = (case val of None \<Rightarrow> m | Some v \<Rightarrow> m(i := Some (t, v)))"
| "opt_do copy (Copy_assign i j) m =
     (case m j of
        None \<Rightarrow> m(i := None)
      | Some (t, v) \<Rightarrow> (case copy t v of None \<Rightarrow> m | Some v \<Rightarrow> m(i := Some (t, v))))"
| "opt_do copy (Move_assign i j) m = m(j := None, i := m j)"
| "opt_do copy (Swap i j) m = m(i := m j, j := m i)"
| "opt_do copy (Clear i) m = m(i := None)"

definition any_abs :: "('t, 'v) any_env \<Rightarrow> ('t, 'v) any_world \<Rightarrow> nat \<Rightarrow> ('t \<times> 'v) option" where
  "any_abs env w i = contents env w (Var i)"

fun op_distinct :: "('t, 'v) any_op \<Rightarrow> bool" where
  "op_distinct (Swap i j) = (i \<noteq> j)"
| "op_distinct _ = True"

lemma any_world_ok_put:
  assumes "any_world_ok env w"
  shows "any_inv env (put_value env (Local 2) t v w)"
    "\<forall>n. n \<noteq> 2 \<longrightarrow> aw_vtable (put_value env (Local 2) t v w) (Local n) = None"
  using assms put_value_inv [of env w "Local 2" t v]
  by (auto simp: any_world_ok_def put_value_def any_value_ctor_def any_defs Let_def)

lemma put_and_swap:
  assumes "any_world_ok env w"
  shows "\<exists>u. res_bind (any_swap env (Local 2) (Var i) (put_value env (Local 2) t v w)) (any_dtor env (Local 2)) = Inr u \<and>
    any_world_ok env u \<and> any_abs env u = (any_abs env w)(i := Some (t, v))"
proof -
  have "contents env (put_value env (Local 2) t v w) = (contents env w)(Local 2 := Some (t, v))"
    using assms by (intro put_value_contents) (auto simp: any_world_ok_def)
  then show ?thesis
    using swap_and_destroy [OF any_world_ok_put [OF assms], of i t v] by (auto simp: any_abs_def fun_eq_iff)
qed

lemma any_do_ok:
  assumes ok: "any_world_ok env w" and "op_distinct a"
  shows "\<exists>u. any_do env a w = Inr u \<and> any_world_ok env u \<and> any_abs env u = opt_do (copy_ctor env) a (any_abs env w)"
proof -
  have inv: "any_inv env w" and loc: "aw_vtable w (Local n) = None" for n using ok by (auto simp: any_world_ok_def)
  have slots: "slot_ok env w l" for l using inv by (simp add: any_inv_def)
  have keep: "any_world_ok env u" if "any_inv env u" "\<And>n. contents env u (Local n) = contents env w (Local n)" for u
    unfolding any_world_ok_def using that contents_None [OF that(1)] contents_None [OF inv] loc by metis
  have same: "w\<lparr>aw_vtable := (aw_vtable w)(Local 2 := None)\<rparr> = w" using loc [of 2] by (simp flip: loc [of 2])
  show ?thesis
  proof (cases a)
    case (Set_value i t val)
    show ?thesis
    proof (cases val)
      case None
      then show ?thesis using ok same by (simp add: Set_value any_value_assign_def any_value_ctor_def set_vtable_def)
    next
      case (Some v)
      have "any_value_ctor env (Local 2) t val w = (put_value env (Local 2) t v w, False)"
        by (simp add: Some put_value_def any_value_ctor_def any_defs Let_def)
      then show ?thesis using put_and_swap [OF ok, of i t v] Set_value Some
        by (auto simp: any_value_assign_def res_bind_assoc [symmetric] res_simps)
    qed
  next
    case (Copy_assign i j)
    show ?thesis
    proof (cases "contents env w (Var j)")
      case None
      then show ?thesis
        using swap_and_destroy [OF inv, of i] loc contents_None [OF inv, of "Local 2"] Copy_assign
        by (auto simp: any_assign_def any_copy_ctor_eq [OF inv loc] any_abs_def fun_eq_iff res_simps)
    next
      case (Some tv)
      obtain t v where tv: "tv = (t, v)" by (cases tv)
      show ?thesis
      proof (cases "copy_ctor env t v")
        case None
        then show ?thesis using Some tv ok Copy_assign
          by (simp add: any_assign_def any_copy_ctor_eq [OF inv loc] any_abs_def)
      next
        case (Some v')
        then show ?thesis using put_and_swap [OF ok, of i t v'] \<open>contents env w (Var j) = Some tv\<close> tv Copy_assign
          by (auto simp: any_assign_def any_copy_ctor_eq [OF inv loc] any_abs_def [of env w] res_simps)
      qed
    qed
  next
    case (Move_assign i j)
    let ?m = "transfer env (Local 2) (Var j) w"
    have m: "any_inv env ?m" "\<forall>n. n \<noteq> 2 \<longrightarrow> aw_vtable ?m (Local n) = None"
      using transfer_inv [OF inv _ loc] loc by (auto simp: transfer_vtable)
    then show ?thesis
      using swap_and_destroy [OF m, of i] transfer_contents [OF _ loc, of 2 "Var j" env] Move_assign
      by (auto simp: any_move_assign_def any_move_ctor_eq [OF slots] any_abs_def fun_eq_iff)
  next
    case (Swap i j)
    then show ?thesis using any_swap_ok [OF inv, of "Var i" "Var j"] loc assms(2) keep
      by (fastforce simp: any_abs_def fun_eq_iff)
  next
    case (Clear i)
    then show ?thesis using any_clear_ok [OF inv, of "Var i"] keep
      by (fastforce simp: any_abs_def fun_eq_iff)
  qed
qed

lemma any_run_ok:
  "any_world_ok env w \<Longrightarrow> \<forall>a \<in> set ops. op_distinct a \<Longrightarrow>
   \<exists>u. res_fold (any_do env) ops w = Inr u \<and> any_world_ok env u \<and>
     any_abs env u = fold (opt_do (copy_ctor env)) ops (any_abs env w)"
proof (induction ops arbitrary: w)
  case (Cons a ops)
  obtain x where "any_do env a w = Inr x" "any_world_ok env x" "any_abs env x = opt_do (copy_ctor env) a (any_abs env w)"
    using any_do_ok [of env w a] Cons.prems by auto
  with Cons.IH [of x] Cons.prems show ?case by auto
qed auto

text \<open>Variables before any assignment.\<close>

definition any_start :: "('t, 'v) any_world" where
  "any_start = \<lparr>aw_storage = (\<lambda>_. Raw), aw_vtable = (\<lambda>_. None), aw_heap = (\<lambda>_. None), aw_next = 0\<rparr>"

lemma any_start_ok: "any_world_ok env any_start" "any_abs env any_start = (\<lambda>_. None)"
  by (auto simp: any_world_ok_def any_inv_def slot_ok_def owns_def any_start_def any_abs_def contents_def)


text \<open>Two types, the first stored in place.\<close>

definition sample_any_env :: "(nat, nat) any_env" where
  "sample_any_env = \<lparr>requires_allocation = (\<lambda>t. t \<noteq> 0), copy_ctor = (\<lambda>t v. if v = 9 then None else Some v)\<rparr>"


text \<open>swapping a variable with itself, when its value is stored in place, reads the value after its destruction.\<close>

theorem any_self_swap_undefined:
  assumes "aw_vtable w (Var i) = Some t" "\<not> requires_allocation env t" "aw_storage w (Var i) = Stack v"
  shows "any_swap env (Var i) (Var i) w = Inl Null_deref"
  using assms by (simp add: any_swap_def any_defs)

theorem any_self_swap_undefined_witness:
  "any_swap sample_any_env (Var 0) (Var 0)
     (any_start\<lparr>aw_vtable := (\<lambda>_. None)(Var 0 := Some 0), aw_storage := (\<lambda>_. Raw)(Var 0 := Stack 5)\<rparr>) = Inl Null_deref"
  by (rule any_self_swap_undefined [of _ _ 0 _ 5]) (simp_all add: sample_any_env_def)

section \<open>Contexts\<close>

text \<open>The context of an event loop and of a connection is a member of type any; the argument is a constant reference.\<close>

definition EventLoop_setContext ::
  "('t, 'v) any_env \<Rightarrow> loc \<Rightarrow> loc \<Rightarrow> ('t, 'v) any_world \<Rightarrow> (('t, 'v) any_world \<times> bool) res" where
  "EventLoop_setContext env this_context context w = any_assign env this_context context w"

definition EventLoop_getContext :: "loc \<Rightarrow> loc" where
  "EventLoop_getContext this_context = this_context"

definition TcpConnection_setContext ::
  "('t, 'v) any_env \<Rightarrow> loc \<Rightarrow> loc \<Rightarrow> ('t, 'v) any_world \<Rightarrow> (('t, 'v) any_world \<times> bool) res" where
  "TcpConnection_setContext env this_context context w = any_assign env this_context context w"

definition TcpConnection_getContext :: "loc \<Rightarrow> loc" where
  "TcpConnection_getContext this_context = this_context"

lemma context_readback:
  assumes "any_world_ok env w" "contents env w (Var j) = Some (t, v)" "copy_ctor env t v = Some v"
  shows "\<exists>u. EventLoop_setContext env (Var i) (Var j) w = Inr (u, False) \<and>
    any_cast env t (EventLoop_getContext (Var i)) u = Inr v"
proof -
  have inv: "any_inv env w" "aw_vtable w (Local 2) = None" using assms(1) by (auto simp: any_world_ok_def)
  obtain u where u: "res_bind (any_swap env (Local 2) (Var i) (put_value env (Local 2) t v w)) (any_dtor env (Local 2)) = Inr u"
    "any_world_ok env u" "any_abs env u = (any_abs env w)(i := Some (t, v))"
    using put_and_swap [OF assms(1)] by blast
  have "slot_ok env u (Var i)" "contents env u (Var i) = Some (t, v)"
    using u(2,3) by (auto simp: any_world_ok_def any_inv_def any_abs_def fun_eq_iff)
  then have "any_cast env t (Var i) u = Inr v"
    by (auto simp: any_cast_def any_cast_ptr_def any_is_typed_def any_type_def any_cast_unchecked_def contents_def slot_ok_def
        any_defs split: option.splits if_splits)
  then show ?thesis
    using u(1) assms(2,3)
    by (auto simp: EventLoop_setContext_def EventLoop_getContext_def any_assign_def any_copy_ctor_eq [OF inv] res_simps)
qed

end
