(* ===== verification/Thread_Pool.thy ===== *)
theory Thread_Pool
  imports Bounce_Prelude "HOL-Library.Multiset"
begin

text \<open>
  The thread pool of \<^verbatim>\<open>deps/ThreadPool/ThreadPool.h\<close> as a transition system of its workers, the threads that call
  \<^verbatim>\<open>enqueue\<close> and the destructor. A task is the number of its future; what its function does, a value or an exception, is a
  parameter. A critical section is one step, and so is a notification.

  Shown here: tasks start in the order in which they were entered, each once, and its future gets what the function gives; no wake-up is lost; and
  the destructor returns with every task done.
\<close>

section \<open>State\<close>

text \<open>A worker before the critical section, inside the wait, with a task, and at its end.\<close>

datatype pool_worker = P_check | P_wait | P_run nat | P_exit

text \<open>A thread outside of \<^verbatim>\<open>enqueue\<close>, before its critical section, before the notification.\<close>

datatype pool_client = E_idle | E_enter nat | E_notify nat

datatype pool_dtor = Q_none | Q_stop | Q_notify | Q_join | Q_done

record 'a tpool =
  pl_tasks :: "nat list"
  pl_stop :: bool
  pl_workers :: "pool_worker list"
  pl_clients :: "pool_client list"
  pl_dtor :: pool_dtor
  pl_next :: nat
  pl_futures :: "nat \<Rightarrow> 'a option"
  pl_entered :: "nat list"
  pl_refused :: "nat list"
  pl_started :: "nat list"
  pl_finished :: "nat list"

section \<open>Operations\<close>

definition ThreadPool_new :: "nat \<Rightarrow> nat \<Rightarrow> 'a tpool" where
  "ThreadPool_new threads clients =
     \<lparr>pl_tasks = [], pl_stop = False, pl_workers = replicate threads P_check, pl_clients = replicate clients E_idle, pl_dtor = Q_none,
      pl_next = 0, pl_futures = (\<lambda>_. None), pl_entered = [], pl_refused = [], pl_started = [], pl_finished = []\<rparr>"

text \<open>The critical section of a worker: the predicate of the wait, the test for the end, the task it takes.\<close>

definition worker_take :: "nat \<Rightarrow> 'a tpool \<Rightarrow> 'a tpool" where
  "worker_take j s =
     (if \<not> (pl_stop s \<or> pl_tasks s \<noteq> []) then s\<lparr>pl_workers := (pl_workers s)[j := P_wait]\<rparr>
      else if pl_stop s \<and> pl_tasks s = [] then s\<lparr>pl_workers := (pl_workers s)[j := P_exit]\<rparr>
      else s\<lparr>pl_tasks := tl (pl_tasks s), pl_workers := (pl_workers s)[j := P_run (hd (pl_tasks s))],
        pl_started := pl_started s @ [hd (pl_tasks s)]\<rparr>)"

text \<open>The call of a packaged task stores the value or the exception for its future.\<close>

definition worker_run :: "(nat \<Rightarrow> 'a) \<Rightarrow> nat \<Rightarrow> nat \<Rightarrow> 'a tpool \<Rightarrow> 'a tpool" where
  "worker_run f j t s = s\<lparr>pl_workers := (pl_workers s)[j := P_check], pl_futures := (pl_futures s)(t \<mapsto> f t),
     pl_finished := pl_finished s @ [t]\<rparr>"

text \<open>The critical section of \<^verbatim>\<open>enqueue\<close>, which throws when the pool has been stopped.\<close>

definition enqueue_enter :: "nat \<Rightarrow> nat \<Rightarrow> 'a tpool \<Rightarrow> 'a tpool" where
  "enqueue_enter i t s =
     (if pl_stop s then s\<lparr>pl_clients := (pl_clients s)[i := E_idle], pl_refused := pl_refused s @ [t]\<rparr>
      else s\<lparr>pl_tasks := pl_tasks s @ [t], pl_clients := (pl_clients s)[i := E_notify t], pl_entered := pl_entered s @ [t]\<rparr>)"

definition wake :: "pool_worker \<Rightarrow> pool_worker" where
  "wake w = (if w = P_wait then P_check else w)"

text \<open>
  Steps of the threads. A notification wakes any one waiting worker, or none when none waits; the destructor wakes all, and joins when
  every worker has returned.
\<close>

inductive tp_step :: "(nat \<Rightarrow> 'a) \<Rightarrow> 'a tpool \<Rightarrow> 'a tpool \<Rightarrow> bool" for f where
  take: "j < length (pl_workers s) \<Longrightarrow> pl_workers s ! j = P_check \<Longrightarrow> tp_step f s (worker_take j s)"
| run: "j < length (pl_workers s) \<Longrightarrow> pl_workers s ! j = P_run t \<Longrightarrow> tp_step f s (worker_run f j t s)"
| enter: "i < length (pl_clients s) \<Longrightarrow> pl_clients s ! i = E_enter t \<Longrightarrow> tp_step f s (enqueue_enter i t s)"
| notify: "i < length (pl_clients s) \<Longrightarrow> pl_clients s ! i = E_notify t \<Longrightarrow> j < length (pl_workers s) \<Longrightarrow> pl_workers s ! j = P_wait \<Longrightarrow>
    tp_step f s (s\<lparr>pl_clients := (pl_clients s)[i := E_idle], pl_workers := (pl_workers s)[j := P_check]\<rparr>)"
| notify_none: "i < length (pl_clients s) \<Longrightarrow> pl_clients s ! i = E_notify t \<Longrightarrow> P_wait \<notin> set (pl_workers s) \<Longrightarrow>
    tp_step f s (s\<lparr>pl_clients := (pl_clients s)[i := E_idle]\<rparr>)"
| stop: "pl_dtor s = Q_stop \<Longrightarrow> tp_step f s (s\<lparr>pl_stop := True, pl_dtor := Q_notify\<rparr>)"
| notify_all: "pl_dtor s = Q_notify \<Longrightarrow> tp_step f s (s\<lparr>pl_workers := map wake (pl_workers s), pl_dtor := Q_join\<rparr>)"
| join: "pl_dtor s = Q_join \<Longrightarrow> set (pl_workers s) \<subseteq> {P_exit} \<Longrightarrow> tp_step f s (s\<lparr>pl_dtor := Q_done\<rparr>)"

text \<open>The environment: a call of \<^verbatim>\<open>enqueue\<close> with a new future, a spurious end of a wait, the start of the destructor.\<close>

inductive tp_env :: "'a tpool \<Rightarrow> 'a tpool \<Rightarrow> bool" where
  call: "i < length (pl_clients s) \<Longrightarrow> pl_clients s ! i = E_idle \<Longrightarrow>
    tp_env s (s\<lparr>pl_clients := (pl_clients s)[i := E_enter (pl_next s)], pl_next := pl_next s + 1\<rparr>)"
| spurious: "j < length (pl_workers s) \<Longrightarrow> pl_workers s ! j = P_wait \<Longrightarrow> tp_env s (s\<lparr>pl_workers := (pl_workers s)[j := P_check]\<rparr>)"
| destroy: "pl_dtor s = Q_none \<Longrightarrow> tp_env s (s\<lparr>pl_dtor := Q_stop\<rparr>)"

definition tp_any_step :: "(nat \<Rightarrow> 'a) \<Rightarrow> 'a tpool \<Rightarrow> 'a tpool \<Rightarrow> bool" where
  "tp_any_step f s t \<longleftrightarrow> tp_step f s t \<or> tp_env s t"

definition tp_init :: "nat \<Rightarrow> nat \<Rightarrow> 'a tpool \<Rightarrow> bool" where
  "tp_init n m s \<longleftrightarrow> s = ThreadPool_new n m"

section \<open>Tasks\<close>

fun running :: "pool_worker \<Rightarrow> nat list" where
  "running (P_run t) = [t]"
| "running _ = []"

fun entering :: "pool_client \<Rightarrow> nat list" where
  "entering (E_enter t) = [t]"
| "entering _ = []"

text \<open>The elements that the threads hold.\<close>

definition held_by :: "('w \<Rightarrow> nat list) \<Rightarrow> 'w list \<Rightarrow> nat multiset" where
  "held_by h ws = (\<Sum>w\<leftarrow>ws. mset (h w))"

lemma held_by_update:
  "j < length ws \<Longrightarrow> held_by h (ws[j := w]) + mset (h (ws ! j)) = held_by h ws + mset (h w)"
proof (induction ws arbitrary: j)
  case (Cons x ws)
  then show ?case by (cases j) (auto simp: held_by_def ac_simps)
qed simp

lemma held_by_wake: "held_by running (map wake ws) = held_by running ws"
  by (induction ws) (auto simp: held_by_def wake_def)

text \<open>Every task is in one place; the numbers of futures are new.\<close>

definition tasks_inv :: "(nat \<Rightarrow> 'a) \<Rightarrow> 'a tpool \<Rightarrow> bool" where
  "tasks_inv f s \<longleftrightarrow>
     pl_entered s = pl_started s @ pl_tasks s \<and>
     mset (pl_started s) = mset (pl_finished s) + held_by running (pl_workers s) \<and>
     mset (pl_entered s) + mset (pl_refused s) + held_by entering (pl_clients s) = mset [0..<pl_next s] \<and>
     pl_futures s = (\<lambda>t. if t \<in> set (pl_finished s) then Some (f t) else None)"

lemma tasks_inv_step:
  assumes "tp_step f s s'" "tasks_inv f s"
  shows "tasks_inv f s'"
  using assms
proof (induction rule: tp_step.induct)
  case (take j s)
  then show ?case
    using held_by_update [of j "pl_workers s" running]
    by (auto simp: tasks_inv_def worker_take_def neq_Nil_conv)
next
  case (run j s t)
  then show ?case
    using held_by_update [of j "pl_workers s" running P_check]
    by (auto simp: tasks_inv_def worker_run_def fun_eq_iff)
next
  case (enter i s t)
  then have "held_by entering (pl_clients s) = add_mset t (held_by entering ((pl_clients s)[i := E_idle]))"
    "held_by entering (pl_clients s) = add_mset t (held_by entering ((pl_clients s)[i := E_notify t]))"
    using held_by_update [of i "pl_clients s" entering E_idle] held_by_update [of i "pl_clients s" entering "E_notify t"] by simp_all
  then show ?case using enter(3) by (cases "pl_stop s") (auto simp: tasks_inv_def enqueue_enter_def)
next
  case (notify i s t j)
  then show ?case
    using held_by_update [of i "pl_clients s" entering E_idle] held_by_update [of j "pl_workers s" running P_check]
    by (auto simp: tasks_inv_def)
next
  case (notify_none i s t)
  then show ?case using held_by_update [of i "pl_clients s" entering E_idle] by (auto simp: tasks_inv_def)
qed (auto simp: tasks_inv_def held_by_wake)

lemma tasks_inv_env:
  assumes "tp_env s s'" "tasks_inv f s"
  shows "tasks_inv f s'"
  using assms
proof (induction rule: tp_env.induct)
  case (call i s)
  then show ?case using held_by_update [of i "pl_clients s" entering "E_enter (pl_next s)"] by (auto simp: tasks_inv_def)
next
  case (spurious j s)
  then show ?case using held_by_update [of j "pl_workers s" running P_check] by (auto simp: tasks_inv_def)
qed (auto simp: tasks_inv_def)

section \<open>Wake-ups\<close>

fun is_notify :: "pool_client \<Rightarrow> bool" where
  "is_notify (E_notify t) = True"
| "is_notify _ = False"

text \<open>
  While a worker waits, a wake-up is on its way for every task in the queue, and after the stop the destructor has still to notify. A worker that has
  returned has seen the stop and an empty queue, which stays empty.
\<close>

definition wake_ok :: "nat list \<Rightarrow> bool \<Rightarrow> pool_worker list \<Rightarrow> int \<Rightarrow> pool_dtor \<Rightarrow> bool" where
  "wake_ok ts stop ws k d \<longleftrightarrow>
     (P_wait \<in> set ws \<longrightarrow> int (length ts) \<le> cnt (\<lambda>w. w = P_check) ws + k \<and> (stop \<longrightarrow> d = Q_notify)) \<and>
     (P_exit \<in> set ws \<longrightarrow> stop \<and> ts = []) \<and>
     (stop \<longleftrightarrow> d \<in> {Q_notify, Q_join, Q_done}) \<and>
     (d = Q_done \<longrightarrow> set ws \<subseteq> {P_exit})"

definition wake_inv :: "'a tpool \<Rightarrow> bool" where
  "wake_inv s \<longleftrightarrow> wake_ok (pl_tasks s) (pl_stop s) (pl_workers s) (cnt is_notify (pl_clients s)) (pl_dtor s)"

lemmas wake_defs = wake_inv_def wake_ok_def

lemma set_update_other: "x \<in> set (xs[j := y]) \<Longrightarrow> x \<noteq> y \<Longrightarrow> x \<in> set xs"
  using set_update_subset_insert [of xs j y] by auto

lemma wake_inv_take:
  assumes "wake_inv s" "j < length (pl_workers s)" "pl_workers s ! j = P_check"
  shows "wake_inv (worker_take j s)"
proof -
  have mem: "P_check \<in> set (pl_workers s)" using assms(2,3) nth_mem by force
  have upd: "cnt (\<lambda>w. w = P_check) ((pl_workers s)[j := w]) = cnt (\<lambda>w. w = P_check) (pl_workers s) - 1" if "w \<noteq> P_check" for w
    using cnt_update [OF assms(2), of "\<lambda>w. w = P_check" w] assms(3) that by simp
  show ?thesis
  proof (cases "pl_tasks s")
    case Nil
    then show ?thesis
      using assms(1) mem by (auto simp: wake_defs worker_take_def cnt_nonneg add_nonneg_nonneg dest: set_update_other)
  next
    case (Cons t ts)
    then show ?thesis
      using assms(1) mem upd [of "P_run t"] by (auto simp: wake_defs worker_take_def dest: set_update_other)
  qed
qed

lemma wake_keeps: "P_wait \<notin> set (map wake ws)" "P_exit \<in> set (map wake ws) \<longleftrightarrow> P_exit \<in> set ws"
  by (auto simp: wake_def image_iff split: if_splits)

lemma cnt_none: "\<forall>x \<in> set xs. \<not> P x \<Longrightarrow> cnt P xs = 0"
  by (simp add: cnt_def filter_empty_conv)

lemma not_exit: "j < length ws \<Longrightarrow> ws ! j \<noteq> P_exit \<Longrightarrow> \<not> set ws \<subseteq> {P_exit}"
  using nth_mem by fastforce

lemma wake_inv_ghost: "wake_inv (s\<lparr>pl_workers := ws, pl_futures := fu, pl_finished := ts\<rparr>) = wake_inv (s\<lparr>pl_workers := ws\<rparr>)"
  by (simp add: wake_inv_def)

text \<open>A worker goes back to the test, perhaps woken by one notification.\<close>

lemma wake_inv_check:
  assumes "j < length (pl_workers s)" "pl_workers s ! j \<noteq> P_check" "pl_workers s ! j \<noteq> P_exit" "wake_inv s"
    and "cnt is_notify cs = cnt is_notify (pl_clients s) - k" "k \<le> 1"
  shows "wake_inv (s\<lparr>pl_clients := cs, pl_workers := (pl_workers s)[j := P_check]\<rparr>)"
proof -
  let ?ws = "(pl_workers s)[j := P_check]"
  have c: "cnt (\<lambda>w. w = P_check) ?ws = cnt (\<lambda>w. w = P_check) (pl_workers s) + 1"
    using cnt_update [OF assms(1), of "\<lambda>w. w = P_check" P_check] assms(2) by simp
  have i: "P_wait \<in> set (pl_workers s) \<Longrightarrow> int (length (pl_tasks s)) \<le> cnt (\<lambda>w. w = P_check) (pl_workers s) + cnt is_notify (pl_clients s)"
    "P_wait \<in> set (pl_workers s) \<Longrightarrow> pl_stop s \<Longrightarrow> pl_dtor s = Q_notify"
    "P_exit \<in> set (pl_workers s) \<Longrightarrow> pl_stop s \<and> pl_tasks s = []" "pl_stop s \<longleftrightarrow> pl_dtor s \<in> {Q_notify, Q_join, Q_done}"
    "pl_dtor s \<noteq> Q_done"
    using assms(4) not_exit [OF assms(1,3)] unfolding wake_defs by blast+
  have "P_wait \<in> set (pl_workers s)" if "P_wait \<in> set ?ws" using set_update_other [OF that] by simp
  then have w: "int (length (pl_tasks s)) \<le> cnt (\<lambda>w. w = P_check) ?ws + cnt is_notify cs \<and> (pl_stop s \<longrightarrow> pl_dtor s = Q_notify)"
    if "P_wait \<in> set ?ws" using that i(1,2) c assms(5,6) by simp
  have e: "pl_stop s \<and> pl_tasks s = []" if "P_exit \<in> set ?ws" using i(3) set_update_other [OF that] by simp
  show ?thesis unfolding wake_defs using w e i(4,5) by simp
qed

lemma wake_inv_step:
  assumes "tp_step f s s'" "wake_inv s"
  shows "wake_inv s'"
  using assms
proof (induction rule: tp_step.induct)
  case (take j s)
  then show ?case by (rule wake_inv_take [rotated])
next
  case (run j s t)
  then show ?case using wake_inv_check [of j s "pl_clients s" 0] by (simp add: worker_run_def wake_inv_ghost)
next
  case (enter i s t)
  then have "cnt is_notify ((pl_clients s)[i := E_idle]) = cnt is_notify (pl_clients s)"
    "cnt is_notify ((pl_clients s)[i := E_notify t]) = cnt is_notify (pl_clients s) + 1"
    using cnt_update [of i "pl_clients s" is_notify E_idle] cnt_update [of i "pl_clients s" is_notify "E_notify t"] by simp_all
  then show ?case using enter(3) by (cases "pl_stop s") (simp_all add: wake_defs enqueue_enter_def)
next
  case (notify i s t j)
  have "cnt is_notify ((pl_clients s)[i := E_idle]) = cnt is_notify (pl_clients s) - 1"
    using cnt_update [of i "pl_clients s" is_notify E_idle] notify(1,2) by simp
  then show ?case using wake_inv_check [of j s "(pl_clients s)[i := E_idle]" 1] notify by simp
next
  case (notify_all s)
  then show ?case using wake_keeps [of "pl_workers s"] by (auto simp: wake_defs simp del: set_map)
qed (auto simp: wake_defs)

lemma wake_inv_env:
  assumes "tp_env s s'" "wake_inv s"
  shows "wake_inv s'"
  using assms
proof (induction rule: tp_env.induct)
  case (call i s)
  then have "cnt is_notify ((pl_clients s)[i := E_enter (pl_next s)]) = cnt is_notify (pl_clients s)"
    using cnt_update [of i "pl_clients s" is_notify "E_enter (pl_next s)"] by simp
  then show ?case using call(3) by (simp add: wake_inv_def)
next
  case (spurious j s)
  then show ?case using wake_inv_check [of j s "pl_clients s" 0] by simp
qed (auto simp: wake_defs)

definition tp_inv :: "(nat \<Rightarrow> 'a) \<Rightarrow> 'a tpool \<Rightarrow> bool" where
  "tp_inv f s \<longleftrightarrow> tasks_inv f s \<and> wake_inv s"

lemma tp_inv_init: "tp_init n m s \<Longrightarrow> tp_inv f s"
proof -
  assume "tp_init n m s"
  moreover have "held_by running (replicate n P_check) = {#}" "held_by entering (replicate m E_idle) = {#}" for n m
    by (induction n; simp add: held_by_def) (induction m; simp add: held_by_def)
  ultimately show ?thesis
    by (auto simp: tp_init_def ThreadPool_new_def tp_inv_def tasks_inv_def wake_defs)
qed

interpretation tp: invariant_system "tp_init n m" "tp_any_step f" "tp_inv f" for n m f
proof unfold_locales
  fix s s'
  show "tp_init n m s \<Longrightarrow> tp_inv f s" by (rule tp_inv_init)
  show "tp_inv f s \<Longrightarrow> tp_any_step f s s' \<Longrightarrow> tp_inv f s'"
    by (auto simp: tp_inv_def tp_any_step_def intro: tasks_inv_step tasks_inv_env wake_inv_step wake_inv_env)
qed

section \<open>Progress and the end\<close>

text \<open>A weight of the work that is left, with which a step pays for what it causes.\<close>

fun worker_load :: "pool_worker \<Rightarrow> nat" where
  "worker_load P_check = 1"
| "worker_load (P_run t) = 2"
| "worker_load _ = 0"

fun client_load :: "pool_client \<Rightarrow> nat" where
  "client_load E_idle = 0"
| "client_load (E_enter t) = 5"
| "client_load (E_notify t) = 2"

fun dtor_load :: "nat \<Rightarrow> pool_dtor \<Rightarrow> nat" where
  "dtor_load n Q_stop = n + 3"
| "dtor_load n Q_notify = n + 2"
| "dtor_load n Q_join = 1"
| "dtor_load n _ = 0"

definition tp_load :: "'a tpool \<Rightarrow> int" where
  "tp_load s = weight worker_load (pl_workers s) + weight client_load (pl_clients s) + 2 * int (length (pl_tasks s)) +
     int (dtor_load (length (pl_workers s)) (pl_dtor s))"

lemma tp_load_nonneg: "0 \<le> tp_load s"
  by (simp add: tp_load_def weight_def)

lemma weight_wake: "weight worker_load (map wake ws) \<le> weight worker_load ws + int (length ws)"
proof (induction ws)
  case (Cons w ws)
  then show ?case by (cases w) (auto simp: weight_def wake_def)
qed (simp add: weight_def)

lemma tp_step_load:
  assumes "tp_step f s s'"
  shows "tp_load s' < tp_load s"
  using assms
proof (induction rule: tp_step.induct)
  case (take j s)
  then show ?case
    using weight_update [of j "pl_workers s" worker_load]
    by (cases "pl_tasks s") (simp_all add: tp_load_def worker_take_def)
next
  case (run j s t)
  then show ?case using weight_update [of j "pl_workers s" worker_load] by (simp add: tp_load_def worker_run_def)
next
  case (enter i s t)
  then show ?case using weight_update [of i "pl_clients s" client_load] by (simp add: tp_load_def enqueue_enter_def)
next
  case (notify i s t j)
  then show ?case
    using weight_update [of i "pl_clients s" client_load] weight_update [of j "pl_workers s" worker_load] by (simp add: tp_load_def)
next
  case (notify_none i s t)
  then show ?case using weight_update [of i "pl_clients s" client_load] by (simp add: tp_load_def)
next
  case (notify_all s)
  then show ?case using weight_wake [of "pl_workers s"] by (simp add: tp_load_def)
qed (simp_all add: tp_load_def)

definition tp_busy :: "'a tpool \<Rightarrow> bool" where
  "tp_busy s \<longleftrightarrow> pl_tasks s \<noteq> [] \<or> (\<exists>c \<in> set (pl_clients s). c \<noteq> E_idle) \<or> (\<exists>w \<in> set (pl_workers s). w \<noteq> P_wait \<and> w \<noteq> P_exit) \<or>
     pl_dtor s \<in> {Q_stop, Q_notify, Q_join}"

lemma client_steps: "c \<in> set (pl_clients s) \<Longrightarrow> c \<noteq> E_idle \<Longrightarrow> \<exists>s'. tp_step f s s'"
proof -
  assume c: "c \<in> set (pl_clients s)" "c \<noteq> E_idle"
  then obtain i where i: "i < length (pl_clients s)" "pl_clients s ! i = c" by (auto simp: in_set_conv_nth)
  show ?thesis
  proof (cases c)
    case (E_notify t)
    show ?thesis
    proof (cases "P_wait \<in> set (pl_workers s)")
      case True
      then obtain j where "j < length (pl_workers s)" "pl_workers s ! j = P_wait" by (auto simp: in_set_conv_nth)
      with notify i E_notify show ?thesis by metis
    qed (use notify_none i E_notify in metis)
  qed (use c i enter in \<open>metis\<close>)+
qed

lemma worker_steps: "w \<in> set (pl_workers s) \<Longrightarrow> w \<noteq> P_wait \<Longrightarrow> w \<noteq> P_exit \<Longrightarrow> \<exists>s'. tp_step f s s'"
  by (cases w) (auto simp: in_set_conv_nth intro: take run)

lemma busy_steps:
  assumes "wake_inv s" "pl_workers s \<noteq> []" "tp_busy s"
  shows "\<exists>s'. tp_step f s s'"
proof (rule ccontr)
  assume stuck: "\<nexists>s'. tp_step f s s'"
  have c: "\<forall>c \<in> set (pl_clients s). c = E_idle" using client_steps stuck by metis
  have w: "\<forall>w \<in> set (pl_workers s). w = P_wait \<or> w = P_exit" using worker_steps stuck by metis
  have d: "pl_dtor s \<noteq> Q_stop" "pl_dtor s \<noteq> Q_notify" using tp_step.stop tp_step.notify_all stuck by metis+
  have zero: "cnt (\<lambda>w. w = P_check) (pl_workers s) = 0" "cnt is_notify (pl_clients s) = 0" using c w by (auto intro!: cnt_none)
  have "pl_tasks s = []"
    using assms(1,2) w zero by (cases "pl_workers s") (auto simp: wake_defs)
  then have j: "pl_dtor s = Q_join" using assms(3) c w d by (auto simp: tp_busy_def)
  then have "P_wait \<notin> set (pl_workers s)" using assms(1) by (auto simp: wake_defs)
  then have "set (pl_workers s) \<subseteq> {P_exit}" using w by auto
  with j tp_step.join stuck show False by metis
qed

section \<open>Properties\<close>



text \<open>C37: No wake-up is lost and nothing blocks: in every reachable state of a pool with workers, while a task is queued or run, a call of \<^verbatim>\<open>enqueue\<close> is
  under way or the destructor is running, some thread can take a step, without a spurious wake-up. Threads alone take finitely many steps, and
  once the destructor has started they end with the destructor returned, all workers ended and every entered task finished.\<close>

theorem ThreadPool_shuts_down:
  assumes "reachable (tp_init n m) (tp_any_step f) s" "0 < n"
  shows "(tp_busy s \<longrightarrow> (\<exists>s'. tp_step f s s')) \<and>
    (\<forall>s'. tp_step f s s' \<longrightarrow> tp_load s' < tp_load s \<and> 0 \<le> tp_load s') \<and>
    (pl_dtor s \<noteq> Q_none \<and> (\<nexists>s'. tp_step f s s') \<longrightarrow>
       pl_dtor s = Q_done \<and> set (pl_workers s) \<subseteq> {P_exit} \<and> pl_tasks s = [] \<and> mset (pl_finished s) = mset (pl_entered s))"
proof -
  have inv: "tp_inv f s" using tp.reachable_inv [OF assms(1)] .
  have len: "length (pl_workers s) = n" using assms(1)
  proof (induction rule: reachable.induct)
    case (reachable_init s)
    then show ?case by (simp add: tp_init_def ThreadPool_new_def)
  next
    case (reachable_step s t)
    then show ?case by (auto simp: tp_any_step_def worker_take_def worker_run_def enqueue_enter_def elim!: tp_step.cases tp_env.cases)
  qed
  have ws: "pl_workers s \<noteq> []" using len assms(2) by auto
  have busy: "tp_busy s \<Longrightarrow> \<exists>s'. tp_step f s s'" using busy_steps [OF _ ws] inv by (simp add: tp_inv_def)
  have fin: "pl_dtor s = Q_done \<and> set (pl_workers s) \<subseteq> {P_exit} \<and> pl_tasks s = [] \<and> mset (pl_finished s) = mset (pl_entered s)"
    if "pl_dtor s \<noteq> Q_none" "\<nexists>s'. tp_step f s s'"
  proof -
    have "\<not> tp_busy s" using busy that(2) by blast
    then have d: "pl_dtor s = Q_done" "pl_tasks s = []" using that(1) by (cases "pl_dtor s"; simp add: tp_busy_def)+
    then have e: "set (pl_workers s) \<subseteq> {P_exit}" using inv by (simp add: tp_inv_def wake_defs)
    have "held_by running us = {#}" if "set us \<subseteq> {P_exit}" for us using that by (induction us) (auto simp: held_by_def)
    with d e inv show ?thesis by (simp add: tp_inv_def tasks_inv_def)
  qed
  show ?thesis using busy fin tp_step_load tp_load_nonneg by blast
qed

theorem ThreadPool_shuts_down_witness:
  "\<exists>s s' :: nat tpool. pl_dtor s = Q_stop \<and> tp_step id s s' \<and> tp_load s' < tp_load s"
proof -
  let ?s = "(ThreadPool_new 2 1)\<lparr>pl_dtor := Q_stop\<rparr> :: nat tpool"
  have "reachable (tp_init 2 1) (tp_any_step id) (ThreadPool_new 2 1 :: nat tpool)" by (rule reachable_init) (simp add: tp_init_def)
  then have r: "reachable (tp_init 2 1) (tp_any_step id) ?s"
    by (rule reachable_step) (use destroy [of "ThreadPool_new 2 1 :: nat tpool"] in \<open>simp add: tp_any_step_def ThreadPool_new_def\<close>)
  have "tp_busy ?s" by (simp add: tp_busy_def)
  then show ?thesis using ThreadPool_shuts_down [OF r] by force
qed

text \<open>A pool without workers takes tasks and never runs one.\<close>

lemma ThreadPool_no_workers:
  assumes "reachable (tp_init 0 m) (tp_any_step f) s"
  shows "pl_workers s = [] \<and> pl_started s = []"
  using assms
proof (induction rule: reachable.induct)
  case (reachable_init s)
  then show ?case by (simp add: tp_init_def ThreadPool_new_def)
next
  case (reachable_step s t)
  then show ?case by (auto simp: tp_any_step_def enqueue_enter_def elim!: tp_step.cases tp_env.cases)
qed

end
