(* ===== verification/Spec2Isabelle.thy ===== *)
theory Spec2Isabelle
  imports Connector Task_Handoff Log_Dist Log_Daily Periodic_Worker Any_Value Thread_Pool
begin

text \<open>
  \<^bold>\<open>Verification of the network library bounce\<close> (\<^verbatim>\<open>src/bounce\<close>), a C++11 library of event
  loops for Linux in the style of one loop per thread.

  \<^bold>\<open>The program.\<close> An \<^verbatim>\<open>EventLoop\<close> runs on one thread. In each round it asks its
  \<^verbatim>\<open>Poller\<close> for the \<^verbatim>\<open>Channel\<close>s with events (a channel is a descriptor with the events
  it watches and its callbacks), lets each of them dispatch to its callbacks, and runs the tasks that
  were queued, by itself or by other threads, which wake it up through an \<^verbatim>\<open>eventfd\<close>. A
  \<^verbatim>\<open>TimerQueue\<close> is a client of the loop with one descriptor for all timers. A
  \<^verbatim>\<open>TcpServer\<close> listens through an \<^verbatim>\<open>Acceptor\<close>, gives each accepted socket to a loop of
  its \<^verbatim>\<open>LoopThreadPool\<close> (or keeps it on its own loop), and keeps a map of its
  \<^verbatim>\<open>TcpConnection\<close>s; a connection reads into an input \<^verbatim>\<open>Buffer\<close>, calls the callbacks
  of the program and sends through an output \<^verbatim>\<open>Buffer\<close>. A \<^verbatim>\<open>Connector\<close> makes outgoing
  connections and hands them to the server.

  \<^bold>\<open>Conventions.\<close> Classes are records, enumerations are datatypes, member functions are functions
  named after class and function that take and return the state. Exceptions, calls of \<^verbatim>\<open>exit\<close>
  and undefined behaviour (an access outside a vector, a dereference of a null or dangling pointer)
  are the errors of a sum type. Sizes are 64-bit numbers that wrap around, poll events are 16-bit words,
  the pool counters 32-bit words. Pointers are names of objects in a store. System calls
  and the callbacks of the program are parameters; what is assumed of them is a predicate
  with \<open>contract\<close> in its name, which states the documented behaviour of the call. The calls that write log messages have no
  effect on the network components and are left out there; what such a call does is modelled in the second group of theories.

  \<^bold>\<open>Theories\<close>, in the order of the dependencies:

  \<^item> \<open>Bounce_Prelude\<close>: errors and their sequencing, wrapping sizes, copying between arrays, the
    memory layout of integers, transition systems and the locale of invariants.

  \<^item> \<open>Buffer\<close> (\<^verbatim>\<open>buffer.h\<close>, \<^verbatim>\<open>buffer.cc\<close>): the vector with its two indices and every
    operation. The locale of byte queues is interpreted by the buffer. Appending, reading and reading from a
    descriptor implement a queue of bytes without leaving the vector; integers round-trip; the
    reading of integers skips one; a moved-from buffer is unusable.

  \<^item> \<open>Channel\<close> (\<^verbatim>\<open>channel.h\<close>, \<^verbatim>\<open>channel.cc\<close>): event masks and the dispatch to callbacks
    that may themselves change the channel.

  \<^item> \<open>Poll_Poller\<close> (\<^verbatim>\<open>poller.h\<close>, \<^verbatim>\<open>poll_poller.cc\<close>): the map of channels and the
    vector of poll entries, kept in step by indices stored in the channels. The interface of the
    abstract class is a locale, interpreted by this poller. Updating and removing keep the invariant;
    the one situation in which removing crashes; which channels polling activates.

  \<^item> \<open>Timer_Queue\<close> (\<^verbatim>\<open>timer.h\<close>, \<^verbatim>\<open>timer_queue.cc\<close>): the two multimaps of timers, with
    a locale of ordered multimaps, and the armed descriptor. Which timers a round fires, that the loop over
    repeating timers ends, what adding and deleting do, how the descriptor is armed.

  \<^item> \<open>Event_Loop\<close> (\<^verbatim>\<open>event_loop.cc\<close>): the state of a loop extends that of its timer
    queue; construction, tasks, rounds. A queued task wakes the loop and is run; a task queued by a
    running task is not announced.

  \<^item> \<open>Task_Handoff\<close>: the same functions split into their atomic steps, as a transition system
    of the loop and its clients. Tasks are run first in, first out, exactly once, in all interleavings; progress
    unless a wake-up was skipped; the interleaving in which it is.

  \<^item> \<open>Tcp_Connection\<close> (\<^verbatim>\<open>tcp_connection.cc\<close>): a loop with its connections, and per
    descriptor the bytes handed to the kernel. The stream of bytes is preserved by any sequence of
    sends, writability events and shutdowns; graceful shutdown; what disconnected connections
    ignore; reading; an untested callback; a race of closing.

  \<^item> \<open>Loop_Thread_Pool\<close> (\<^verbatim>\<open>loop_threadpool.cc\<close>, \<^verbatim>\<open>event_loop_thread.cc\<close>): starting as a
    transition system, with the initialisation callbacks and the loops that run in the threads; the round-robin choice.

  \<^item> \<open>Sock_Address\<close> (\<^verbatim>\<open>sockaddr.cc\<close>): the union of the two address structures as
    bytes, read back on either byte order.

  \<^item> \<open>Tcp_Server\<close> (\<^verbatim>\<open>tcp_server.cc\<close>, \<^verbatim>\<open>acceptor.cc\<close>, \<^verbatim>\<open>socket.cc\<close>): the
    server on its base loop, with everything above as the callbacks of that loop, so that a round of the loop
    is a round of the server. Accepting, distributing over loops, the closing of a connection through
    all components, and what goes wrong: two closes in one round, failed accepts, a
    forced close from another thread.

  \<^item> \<open>Connector\<close> (\<^verbatim>\<open>connector.cc\<close>): connects and their outcome.

  The log messages of the library are written by the vendored libraries spdlog and fmt
  (\<^verbatim>\<open>src/deps/spdlog\<close>), which a second group of theories models, with the set-up of the loggers in \<^verbatim>\<open>bounce/logger.cc\<close>:

  \<^item> \<open>Fmt_Integer\<close> (\<^verbatim>\<open>fmt/bundled/format.h\<close>): the counting of digits and the conversion of integers
    into buffers of characters. The optimised routines agree with the plain representation of a number and
    stay inside their buffers.

  \<^item> \<open>Fmt_Writer\<close>: the writer of integers, strings, characters and pointers with their specifiers. What is written, and
    the overflow of the stack buffer by numbers with separators.

  \<^item> \<open>Fmt_Format\<close> (with \<^verbatim>\<open>fmt/bundled/core.h\<close>): packed arguments, the parser of format strings and specifiers, and
    \<^verbatim>\<open>format_to\<close>. Every format string gives a text or the exception of the library.

  \<^item> \<open>Log_Message\<close> (\<^verbatim>\<open>common.h\<close>, \<^verbatim>\<open>details/log_msg.h\<close>, \<^verbatim>\<open>details/fmt_helper.h\<close>): levels, messages and
    the helpers that append numbers, with the text each appends.

  \<^item> \<open>Log_Pattern\<close> (\<^verbatim>\<open>details/pattern_formatter.h\<close>): padding, the flags, the compiler of patterns, the formatter
    with its caches. Formatting never fails, the caches are invisible, patterns are compiled as they are written,
    fields have their widths; and the date of messages in the second zero.

  \<^item> \<open>Log_Queue\<close> (\<^verbatim>\<open>details/circular_q.h\<close>, \<^verbatim>\<open>details/mpmc_blocking_q.h\<close>): the ring of the asynchronous
    loggers, with a locale of bounded queues that it interprets. It behaves as a list of bounded length.

  \<^item> \<open>Log_Pool\<close> (\<^verbatim>\<open>details/thread_pool.h\<close>, \<^verbatim>\<open>details/async_logger_impl.h\<close>): posting threads, workers and
    destructor with their condition variables as a transition system. Delivery in order, no deadlock and no lost wake-up,
    and a destructor that returns after finitely many steps with everything processed.

  \<^item> \<open>Log_Sink\<close> (\<^verbatim>\<open>sinks/\<close>, \<^verbatim>\<open>details/file_helper.h\<close>): files and the coloured console, the sinks that the library opens,
    and what each writes.

  \<^item> \<open>Log_Logger\<close> (\<^verbatim>\<open>details/logger_impl.h\<close>, \<^verbatim>\<open>details/registry.h\<close>, \<^verbatim>\<open>spdlog.h\<close>, \<^verbatim>\<open>async.h\<close>; \<^verbatim>\<open>bounce/logger.cc\<close>):
    synchronous and asynchronous loggers, the registry, the factories and the two loggers of the network library. No exception leaves a logger,
    each sink gets its line, asynchronous loggers write what synchronous ones do, and the set-up is done once.

  \<^item> \<open>Log_Dist\<close> (\<^verbatim>\<open>sinks/dist_sink.h\<close>): a sink over other sinks.

  \<^item> \<open>Log_Rotate\<close>, \<open>Log_Daily\<close> (\<^verbatim>\<open>sinks/rotating_file_sink.h\<close>, \<^verbatim>\<open>sinks/daily_file_sink.h\<close>): sinks with several files, which are part of the
    state, and system calls that may fail. Which file has which lines; that closed streams are not used, and the messages for which one is.

  \<^item> \<open>Periodic_Worker\<close> (\<^verbatim>\<open>details/periodic_worker.h\<close>): the thread that flushes, and the end of it.

  Two more vendored headers have theories of their own:

  \<^item> \<open>Any_Value\<close> (\<^verbatim>\<open>deps/any/any.hpp\<close>): the container of any value that holds the user contexts, with its storage and its
    virtual tables, refines an optional value with its type.

  \<^item> \<open>Thread_Pool\<close> (\<^verbatim>\<open>deps/ThreadPool/ThreadPool.h\<close>): workers, futures and destructor as a transition system; delivery and shutdown.

  \<^bold>\<open>Termination, bounds and fuel.\<close> All functions are total but the loop over repeating timers, whose
  callbacks may keep inserting timers; it is a partial function, and is shown to return when the
  callbacks do not touch the repeating timers. No function has fuel. The endless loop
  of \<^verbatim>\<open>EventLoop::loop\<close> is a function of the list of inputs the system gives, one per round.
  Bounds in hypotheses are the maximal size of a vector, for buffers and poll entries.

  \<^bold>\<open>Not modelled.\<close> The lifetime of objects as given by shared pointers, and with it the closing of
  descriptors by destructors. Of the logging library, the sinks for other systems, the system log and plain streams; the wrappers of system calls in
  \<^verbatim>\<open>details/os.h\<close>, whose results are parameters; of fmt, the formatting of floating-point numbers (long
  arithmetic over tables), of wide characters, of dates and of streams, and \<^verbatim>\<open>printf.h\<close>, which the library does not use. The
  empty class \<^verbatim>\<open>EpollPoller\<close>; the tests. Data races on plain members, such as the thread
  id of a loop, are not modelled: the interleavings have the atomic variables and the
  critical sections as their steps.
\<close>

end
